(* ===== verification/Txtt_Prelude.thy ===== *)
theory Txtt_Prelude
  imports Main "HOL-Library.Word" "HOL-Library.Multiset"
begin

section \<open>Shared vocabulary of the development\<close>

text \<open>
  The Rust constructs that every component uses: panics as values, machine integers with the
  overflow behaviour of the two build profiles, decimal printing and parsing of unsigned integers,
  the iterator adaptors of the standard library, hash maps collected from an iterator, wall-clock
  time stamps, and the partition of an index range into the chunks that the code hands to its worker
  threads.
\<close>

named_theorems res_simps \<open>evaluation of computations that may panic\<close>
named_theorems uint_simps \<open>checked machine arithmetic inside its range\<close>

subsection \<open>Panics\<close>

text \<open>
  A Rust function that may panic is a function into \<open>'a res\<close>: \<open>Inl p\<close> is the panic \<open>p\<close>, \<open>Inr x\<close> the
  value \<open>x\<close>. A Rust \<open>Result\<close> inside it is a sum type of its own.
\<close>

datatype panic =
    Expect_Failed string
  | Unwrap_Failed
  | Arithmetic_Overflow
  | Index_Out_Of_Bounds
  | Missing_Key
  | Todo
  | Unimplemented
  | Panic string

type_synonym 'a res = "panic + 'a"

definition res_bind :: "'a res \<Rightarrow> ('a \<Rightarrow> 'b res) \<Rightarrow> 'b res" where
  "res_bind m f = (case m of Inl p \<Rightarrow> Inl p | Inr x \<Rightarrow> f x)"

lemma res_bind_Inl [simp, res_simps]: "res_bind (Inl p) f = Inl p"
  by (simp add: res_bind_def)

lemma res_bind_Inr [simp, res_simps]: "res_bind (Inr x) f = f x"
  by (simp add: res_bind_def)

lemma res_bind_eq_Inr:
  "res_bind m f = Inr y \<longleftrightarrow> (\<exists>x. m = Inr x \<and> f x = Inr y)"
  by (cases m) auto

lemma res_bind_InrE:
  assumes "res_bind m f = Inr y"
  obtains x where "m = Inr x" and "f x = Inr y"
  using assms by (auto simp: res_bind_eq_Inr)

lemma res_bind_assoc: "res_bind (res_bind m f) g = res_bind m (\<lambda>x. res_bind (f x) g)"
  by (cases m) auto

lemma res_bind_cong: "m = m' \<Longrightarrow> (\<And>x. m = Inr x \<Longrightarrow> f x = g x) \<Longrightarrow> res_bind m f = res_bind m' g"
  by (cases m) auto

definition opt_expect :: "string \<Rightarrow> 'a option \<Rightarrow> 'a res" where
  "opt_expect msg x = (case x of None \<Rightarrow> Inl (Expect_Failed msg) | Some v \<Rightarrow> Inr v)"

lemma opt_expect_simps [simp, res_simps]:
  "opt_expect msg None = Inl (Expect_Failed msg)"
  "opt_expect msg (Some v) = Inr v"
  by (simp_all add: opt_expect_def)

lemma opt_expect_eq_Inr [simp]: "opt_expect msg x = Inr v \<longleftrightarrow> x = Some v"
  by (cases x) auto

text \<open>\<open>unwrap\<close> of an \<open>Option\<close>, and \<open>expect\<close> of a \<open>Result\<close>.\<close>

definition unwrap :: "'a option \<Rightarrow> 'a res" where
  "unwrap x = (case x of None \<Rightarrow> Inl Unwrap_Failed | Some y \<Rightarrow> Inr y)"

definition expect_ok :: "string \<Rightarrow> 'e + 'a \<Rightarrow> 'a res" where
  "expect_ok msg r = (case r of Inl _ \<Rightarrow> Inl (Expect_Failed msg) | Inr x \<Rightarrow> Inr x)"

text \<open>Running a computation that may panic over a list, left to right; the first panic ends it.\<close>

fun res_mapM :: "('a \<Rightarrow> 'b res) \<Rightarrow> 'a list \<Rightarrow> 'b list res" where
  "res_mapM f [] = Inr []"
| "res_mapM f (x # xs) = res_bind (f x) (\<lambda>y. res_bind (res_mapM f xs) (\<lambda>ys. Inr (y # ys)))"

lemma res_mapM_total:
  "(\<And>x. x \<in> set xs \<Longrightarrow> f x = Inr (g x)) \<Longrightarrow> res_mapM f xs = Inr (map g xs)"
  by (induction xs) auto

lemma res_mapM_map_total:
  "(\<And>x. x \<in> set xs \<Longrightarrow> f (h x) = Inr (g x)) \<Longrightarrow> res_mapM f (map h xs) = Inr (map g xs)"
  by (induction xs) auto

lemma res_mapM_append:
  "res_mapM f (xs @ ys) =
     res_bind (res_mapM f xs) (\<lambda>us. res_bind (res_mapM f ys) (\<lambda>vs. Inr (us @ vs)))"
proof (induction xs)
  case Nil
  show ?case by (cases "res_mapM f ys") auto
next
  case (Cons x xs)
  then show ?case by (cases "f x"; cases "res_mapM f xs"; cases "res_mapM f ys") auto
qed

lemma res_mapM_length: "res_mapM f xs = Inr ys \<Longrightarrow> length ys = length xs"
  by (induction xs arbitrary: ys) (auto simp: res_bind_eq_Inr)

subsection \<open>Machine integers\<close>

type_synonym u8 = "8 word"
type_synonym u32 = "32 word"
type_synonym u64 = "64 word"
type_synonym u128 = "128 word"
type_synonym usize = "64 word"

text \<open>
  The arithmetic operators of Rust panic on overflow in a build with overflow checks (the default of
  the \<open>dev\<close> and \<open>test\<close> profiles) and wrap around without them (the default of \<open>release\<close>, which the
  repository does not override). The profile is an argument of every definition where it matters.
\<close>

datatype profile = Debug | Release

definition on_overflow :: "profile \<Rightarrow> 'a \<Rightarrow> 'a res" where
  "on_overflow prof wrapped = (case prof of Debug \<Rightarrow> Inl Arithmetic_Overflow | Release \<Rightarrow> Inr wrapped)"

definition u_add :: "profile \<Rightarrow> 'a::len word \<Rightarrow> 'a word \<Rightarrow> 'a word res" where
  "u_add prof a b = (if unat a + unat b < 2 ^ LENGTH('a) then Inr (a + b) else on_overflow prof (a + b))"

definition u_sub :: "profile \<Rightarrow> 'a::len word \<Rightarrow> 'a word \<Rightarrow> 'a word res" where
  "u_sub prof a b = (if b \<le> a then Inr (a - b) else on_overflow prof (a - b))"

definition u_mul :: "profile \<Rightarrow> 'a::len word \<Rightarrow> 'a word \<Rightarrow> 'a word res" where
  "u_mul prof a b = (if unat a * unat b < 2 ^ LENGTH('a) then Inr (a * b) else on_overflow prof (a * b))"

definition saturating_sub :: "'a::len word \<Rightarrow> 'a word \<Rightarrow> 'a word" where
  "saturating_sub a b = (if b \<le> a then a - b else 0)"

lemma on_overflow_simps [simp]:
  "on_overflow Debug x = Inl Arithmetic_Overflow"
  "on_overflow Release x = Inr x"
  by (simp_all add: on_overflow_def)

lemma u_add_in_range [uint_simps]:
  "unat (a :: 'a::len word) + unat b < 2 ^ LENGTH('a) \<Longrightarrow> u_add prof a b = Inr (a + b)"
  by (simp add: u_add_def)

lemma u_sub_in_range [uint_simps]: "b \<le> a \<Longrightarrow> u_sub prof a b = Inr (a - b)"
  by (simp add: u_sub_def)

lemma u_mul_in_range [uint_simps]:
  "unat (a :: 'a::len word) * unat b < 2 ^ LENGTH('a) \<Longrightarrow> u_mul prof a b = Inr (a * b)"
  by (simp add: u_mul_def)

lemma u_add_of_nat:
  "m + n < 2 ^ LENGTH('a::len) \<Longrightarrow> u_add prof (of_nat m :: 'a word) (of_nat n) = Inr (of_nat (m + n))"
  by (simp add: u_add_def unat_of_nat take_bit_nat_eq_self)

lemma u_sub_of_nat:
  "n \<le> m \<Longrightarrow> m < 2 ^ LENGTH('a::len) \<Longrightarrow> u_sub prof (of_nat m :: 'a word) (of_nat n) = Inr (of_nat (m - n))"
  by (simp add: u_sub_def word_le_nat_alt unat_of_nat take_bit_nat_eq_self of_nat_diff)

lemma u_mul_of_nat:
  "m < 2 ^ LENGTH('a::len) \<Longrightarrow> n < 2 ^ LENGTH('a) \<Longrightarrow> m * n < 2 ^ LENGTH('a) \<Longrightarrow>
   u_mul prof (of_nat m :: 'a word) (of_nat n) = Inr (of_nat (m * n))"
  by (simp add: u_mul_def unat_of_nat take_bit_nat_eq_self)

lemma of_nat_div_word:
  "m < 2 ^ LENGTH('a::len) \<Longrightarrow> n < 2 ^ LENGTH('a) \<Longrightarrow> (of_nat m :: 'a word) div of_nat n = of_nat (m div n)"
  by (simp add: word_arith_nat_div unat_of_nat take_bit_nat_eq_self)

lemma unat_of_nat_small [simp]:
  "n < 2 ^ LENGTH('a::len) \<Longrightarrow> unat (of_nat n :: 'a word) = n"
  by (simp add: unat_of_nat take_bit_nat_eq_self)

lemma unat_bound: "unat (w :: 'a::len word) < 2 ^ LENGTH('a)"
  by (rule unsigned_less)

lemma unat_saturating_sub [simp]: "unat (saturating_sub a b) = unat a - unat b"
  by (simp add: saturating_sub_def word_le_nat_alt unat_sub_if')

lemma saturating_sub_le: "saturating_sub a b \<le> a"
  by (simp add: word_le_nat_alt)

subsection \<open>Printing and parsing unsigned integers\<close>

text \<open>
  \<open>to_string\<close> and \<open>Display\<close> of the unsigned integers print the decimal digits without leading zeros.
  \<open>str::parse\<close> of an unsigned type takes an optional leading \<open>+\<close> and at least one digit, accepts leading
  zeros, and fails on any other character and on a value outside the type.
\<close>

definition digit_char :: "nat \<Rightarrow> char" where
  "digit_char d = char_of (48 + d)"

fun show_nat :: "nat \<Rightarrow> string" where
  "show_nat n = (if n < 10 then [digit_char n] else show_nat (n div 10) @ [digit_char (n mod 10)])"

declare show_nat.simps [simp del]

definition digit_value :: "char \<Rightarrow> nat option" where
  "digit_value c = (if 48 \<le> (of_char c :: nat) \<and> (of_char c :: nat) \<le> 57 then Some (of_char c - 48) else None)"

fun parse_digits :: "nat \<Rightarrow> nat \<Rightarrow> string \<Rightarrow> nat option" where
  "parse_digits lim acc [] = Some acc"
| "parse_digits lim acc (c # cs) =
     (case digit_value c of
        None \<Rightarrow> None
      | Some d \<Rightarrow> if acc * 10 + d < lim then parse_digits lim (acc * 10 + d) cs else None)"

definition parse_uint :: "nat \<Rightarrow> string \<Rightarrow> nat option" where
  "parse_uint lim s =
     (if s = [] then None
      else if s = ''+'' then None
      else if hd s = CHR ''+'' then parse_digits lim 0 (tl s)
      else parse_digits lim 0 s)"

definition parse_u32 :: "string \<Rightarrow> u32 option" where
  "parse_u32 s = map_option of_nat (parse_uint (2 ^ 32) s)"

definition show_u32 :: "u32 \<Rightarrow> string" where
  "show_u32 i = show_nat (unat i)"

lemma digit_value_digit_char [simp]: "d < 10 \<Longrightarrow> digit_value (digit_char d) = Some d"
  by (simp add: digit_value_def digit_char_def take_bit_nat_eq_self)

lemma digit_char_not_plus: "d < 10 \<Longrightarrow> digit_char d \<noteq> CHR ''+''"
proof
  assume "d < 10" and "digit_char d = CHR ''+''"
  then have "digit_value (CHR ''+'') = Some d" by (metis digit_value_digit_char)
  then show False by (simp add: digit_value_def)
qed

lemma show_nat_nonempty [simp]: "show_nat n \<noteq> []"
  by (subst show_nat.simps) simp

lemma parse_digits_append:
  "parse_digits lim acc (xs @ ys) =
     (case parse_digits lim acc xs of None \<Rightarrow> None | Some a \<Rightarrow> parse_digits lim a ys)"
  by (induction xs arbitrary: acc) (auto split: option.splits)

lemma parse_digits_show_nat: "n < lim \<Longrightarrow> parse_digits lim 0 (show_nat n) = Some n"
proof (induction n rule: show_nat.induct)
  case (1 n)
  show ?case
  proof (cases "n < 10")
    case True
    with "1.prems" show ?thesis by (subst show_nat.simps) simp
  next
    case False
    have "n div 10 < lim" using "1.prems" by (meson div_le_dividend le_less_trans)
    with False "1.IH" have "parse_digits lim 0 (show_nat (n div 10)) = Some (n div 10)" by simp
    with False "1.prems" show ?thesis
      by (subst show_nat.simps) (simp add: parse_digits_append)
  qed
qed

lemma hd_show_nat: "\<exists>d < 10. hd (show_nat n) = digit_char d"
proof (induction n rule: show_nat.induct)
  case (1 n)
  then show ?case by (subst (1) show_nat.simps) auto
qed

lemma parse_uint_show_nat [simp]: "n < lim \<Longrightarrow> parse_uint lim (show_nat n) = Some n"
proof -
  assume n: "n < lim"
  obtain d where "d < 10" and hd: "hd (show_nat n) = digit_char d" using hd_show_nat by blast
  then have plus: "hd (show_nat n) \<noteq> CHR ''+''" by (simp add: digit_char_not_plus)
  then have "show_nat n \<noteq> ''+''" by (metis list.sel(1))
  with plus n show ?thesis by (simp add: parse_uint_def parse_digits_show_nat)
qed

lemma parse_u32_show_u32 [simp]: "parse_u32 (show_u32 i) = Some i"
proof -
  have "unat i < 2 ^ 32" using unat_bound [of i] by simp
  then show ?thesis by (simp add: parse_u32_def show_u32_def)
qed

lemma show_u32_inject [simp]: "show_u32 i = show_u32 j \<longleftrightarrow> i = j"
  by (metis option.inject parse_u32_show_u32)

lemma show_nat_inject [simp]: "show_nat m = show_nat n \<longleftrightarrow> m = n"
  by (metis less_Suc_eq_le max.cobounded1 max.cobounded2 option.inject parse_uint_show_nat)

subsection \<open>Iterators and maps of the standard library\<close>

text \<open>\<open>Iterator::find_map\<close>: the first element on which the closure is not \<open>None\<close>.\<close>

fun find_map :: "('a \<Rightarrow> 'b option) \<Rightarrow> 'a list \<Rightarrow> 'b option" where
  "find_map f [] = None"
| "find_map f (x # xs) = (case f x of None \<Rightarrow> find_map f xs | Some y \<Rightarrow> Some y)"

text \<open>\<open>Iterator::filter_map\<close> is the library's \<open>List.map_filter\<close>.\<close>

abbreviation filter_map :: "('a \<Rightarrow> 'b option) \<Rightarrow> 'a list \<Rightarrow> 'b list" where
  "filter_map \<equiv> List.map_filter"

lemma find_map_append:
  "find_map f (xs @ ys) = (case find_map f xs of None \<Rightarrow> find_map f ys | Some y \<Rightarrow> Some y)"
  by (induction xs) (auto split: option.splits)

lemma find_map_None_iff: "find_map f xs = None \<longleftrightarrow> (\<forall>x \<in> set xs. f x = None)"
  by (induction xs) (auto split: option.splits)

lemma find_map_filter_map: "find_map f xs = (case filter_map f xs of [] \<Rightarrow> None | y # _ \<Rightarrow> Some y)"
  by (induction xs) (auto split: option.splits)

lemma filter_map_append [simp]: "filter_map f (xs @ ys) = filter_map f xs @ filter_map f ys"
  by (induction xs) (auto split: option.splits)

text \<open>Collecting an iterator of pairs into a \<open>HashMap\<close>: a later pair replaces an earlier one.\<close>

fun collect_map :: "('k \<times> 'v) list \<Rightarrow> ('k \<rightharpoonup> 'v)" where
  "collect_map [] = Map.empty"
| "collect_map ((k, v) # kvs) = (\<lambda>x. case collect_map kvs x of None \<Rightarrow> (if x = k then Some v else None) | Some w \<Rightarrow> Some w)"

lemma collect_map_map_of: "collect_map kvs = map_of (rev kvs)"
  by (induction kvs rule: collect_map.induct) (auto simp: map_add_def fun_eq_iff split: option.splits)

lemma dom_collect_map [simp]: "dom (collect_map kvs) = fst ` set kvs"
  by (simp add: collect_map_map_of dom_map_of_conv_image_fst)

lemma collect_map_distinct:
  "distinct (map fst kvs) \<Longrightarrow> collect_map kvs = map_of kvs"
  by (simp add: collect_map_map_of map_of_inject_set rev_map [symmetric])

text \<open>
  \<open>HashMap::entry(k).or_default()\<close> followed by an increment, the counting idiom of the statistics.
\<close>

definition bump :: "'k \<Rightarrow> ('k \<rightharpoonup> nat) \<Rightarrow> ('k \<rightharpoonup> nat)" where
  "bump k m = m(k \<mapsto> Suc (case m k of None \<Rightarrow> 0 | Some c \<Rightarrow> c))"

lemma fold_bump:
  "fold bump ks m k =
     (if k \<in> set ks then Some ((case m k of None \<Rightarrow> 0 | Some c \<Rightarrow> c) + count_list ks k) else m k)"
  by (induction ks arbitrary: m) (auto simp: bump_def)

subsection \<open>Wall-clock time\<close>

text \<open>
  A \<open>SystemTime\<close> is a point in time, in nanoseconds since an epoch; a \<open>Duration\<close> is a number of
  nanoseconds. \<open>duration_since\<close> is an error when the argument lies in the future.
\<close>

datatype system_time = System_Time nat

fun nanos_of :: "system_time \<Rightarrow> nat" where
  "nanos_of (System_Time n) = n"

lemma nanos_of_inject: "nanos_of a = nanos_of b \<longleftrightarrow> a = b"
  by (cases a; cases b) simp

instantiation system_time :: linorder
begin

definition less_eq_system_time :: "system_time \<Rightarrow> system_time \<Rightarrow> bool" where
  "a \<le> b \<longleftrightarrow> nanos_of a \<le> nanos_of b"

definition less_system_time :: "system_time \<Rightarrow> system_time \<Rightarrow> bool" where
  "a < b \<longleftrightarrow> nanos_of a < nanos_of b"

instance
  by standard (auto simp: less_eq_system_time_def less_system_time_def nanos_of_inject)

end

lemma System_Time_le [simp]: "System_Time a \<le> System_Time b \<longleftrightarrow> a \<le> b"
  by (simp add: less_eq_system_time_def)

lemma System_Time_less [simp]: "System_Time a < System_Time b \<longleftrightarrow> a < b"
  by (simp add: less_system_time_def)

type_synonym duration = nat

definition duration_since :: "system_time \<Rightarrow> system_time \<Rightarrow> duration option" where
  "duration_since later earlier =
     (if earlier \<le> later then Some (nanos_of later - nanos_of earlier) else None)"

subsection \<open>Splitting a range into the chunks of the worker threads\<close>

text \<open>
  Thread \<open>i\<close> of \<open>t\<close> takes the indices from \<open>i * n div t\<close> up to \<open>(i + 1) * n div t\<close>: the chunks are
  consecutive and cover \<open>0..n\<close> exactly.
\<close>

lemma upt_glue: "a \<le> b \<Longrightarrow> b \<le> c \<Longrightarrow> [a..<b] @ [b..<c] = [a..<c]"
  by (metis le_iff_add upt_add_eq_append)

lemma chunks_cover_prefix:
  "k \<le> t \<Longrightarrow> concat (map (\<lambda>i. [i * n div t ..< Suc i * n div t]) [0..<k]) = [0..<k * n div t]"
proof (induction k)
  case 0
  show ?case by simp
next
  case (Suc k)
  then have "concat (map (\<lambda>i. [i * n div t ..< Suc i * n div t]) [0..<Suc k]) =
      [0..<k * n div t] @ [k * n div t ..< Suc k * n div t]"
    by simp
  also have "\<dots> = [0..<Suc k * n div t]"
    by (rule upt_glue) (auto intro: div_le_mono)
  finally show ?case .
qed

lemma chunks_cover:
  "0 < t \<Longrightarrow> concat (map (\<lambda>i. [i * n div t ..< Suc i * n div t]) [0..<t]) = [0..<n]"
  using chunks_cover_prefix [of t t n] by simp

text \<open>
  The bounds of the chunk of a thread, \<open>((thread_idx * n) / t)..(((thread_idx + 1) * n) / t)\<close> on \<open>usize\<close>.
  As long as the square of \<open>n\<close> fits the type, nothing overflows.
\<close>

definition thread_chunk :: "profile \<Rightarrow> usize \<Rightarrow> usize \<Rightarrow> usize \<Rightarrow> (usize \<times> usize) res" where
  "thread_chunk prof n t thread_idx =
     res_bind (u_mul prof thread_idx n) (\<lambda>lo.
     res_bind (u_add prof thread_idx 1) (\<lambda>next_idx.
     res_bind (u_mul prof next_idx n) (\<lambda>hi. Inr (lo div t, hi div t))))"

lemma thread_chunk_of_nat:
  assumes "i < t" and "t \<le> n" and "n * n < 2 ^ 64"
  shows "thread_chunk prof (of_nat n) (of_nat t) (of_nat i) =
    Inr (of_nat (i * n div t), of_nat (Suc i * n div t))"
proof -
  have i: "Suc i * n \<le> n * n" using assms by (intro mult_right_mono) auto
  moreover have "i * n \<le> Suc i * n" by simp
  ultimately have "i * n \<le> n * n" by (rule order_trans [rotated])
  have "0 < n" using assms by auto
  then have n: "n \<le> n * n" by simp
  have e: "(2 :: nat) ^ LENGTH(64) = 2 ^ 64" by simp
  have small: "n < 2 ^ LENGTH(64)" "i < 2 ^ LENGTH(64)" "t < 2 ^ LENGTH(64)" "Suc i < 2 ^ LENGTH(64)"
    "i * n < 2 ^ LENGTH(64)" "Suc i * n < 2 ^ LENGTH(64)" "i + 1 < 2 ^ LENGTH(64)"
    unfolding e using assms n i \<open>i * n \<le> n * n\<close> by linarith+
  have one: "u_add prof (of_nat i :: usize) 1 = Inr (of_nat (Suc i))"
    using u_add_of_nat [OF small(7), of prof] by simp
  show ?thesis
    unfolding thread_chunk_def u_mul_of_nat [OF small(2,1,5)] res_bind_Inr one
      u_mul_of_nat [OF small(4,1,6)] of_nat_div_word [OF small(5,3)] of_nat_div_word [OF small(6,3)]
    by simp
qed

lemma map_concat_upt:
  "0 < t \<Longrightarrow> concat (map (\<lambda>i. map f [i * n div t ..< Suc i * n div t]) [0..<t]) = map f [0..<n]"
  by (simp add: chunks_cover [of t n, symmetric] map_concat comp_def)

text \<open>A panic in a task makes its join handle an \<open>Err\<close>, which is unwrapped.\<close>

definition join_thread :: "'a res \<Rightarrow> 'a res" where
  "join_thread r = (case r of Inl _ \<Rightarrow> Inl Unwrap_Failed | Inr x \<Rightarrow> Inr x)"

lemma chunk_bounds:
  assumes "i < t"
  shows "i * n div t \<le> Suc i * n div t" and "Suc i * n div t \<le> (n :: nat)"
proof -
  show "i * n div t \<le> Suc i * n div t" by (intro div_le_mono) simp
  have "Suc i * n div t \<le> t * n div t" using assms by (intro div_le_mono mult_right_mono) auto
  then show "Suc i * n div t \<le> n" using assms by simp
qed

lemma upt_shift: "[a + lo..<a + hi] = map ((+) a) [lo..<hi]"
  by (induction hi) auto

text \<open>
  If no task fails, the results of all threads together are those of one loop over the range, whatever the
  number of threads.
\<close>

lemma threads_joined:
  assumes "a + n < 2 ^ 64" and "0 < t \<or> n = 0" and "\<And>k. a \<le> k \<Longrightarrow> k < a + n \<Longrightarrow> f k = Inr (g k)"
  shows "\<exists>results. res_mapM (\<lambda>(lo, hi). join_thread (res_mapM f [unat lo..<unat hi]))
      (map (\<lambda>i. (of_nat (a + i * n div t) :: usize, of_nat (a + Suc i * n div t) :: usize)) [0..<t]) = Inr results \<and>
    concat results = map g [a..<a + n]"
proof (intro exI conjI)
  show "res_mapM (\<lambda>(lo, hi). join_thread (res_mapM f [unat lo..<unat hi]))
      (map (\<lambda>i. (of_nat (a + i * n div t) :: usize, of_nat (a + Suc i * n div t) :: usize)) [0..<t]) =
      Inr (map (\<lambda>i. map g [a + i * n div t..<a + Suc i * n div t]) [0..<t])"
  proof (rule res_mapM_map_total)
    fix i assume "i \<in> set [0..<t]"
    then have i: "i < t" by simp
    have "a + n < 2 ^ LENGTH(64)" using assms(1) by simp
    then have small: "a + i * n div t < 2 ^ LENGTH(64)" "a + Suc i * n div t < 2 ^ LENGTH(64)"
      using chunk_bounds [OF i, of n] by linarith+
    have "res_mapM f [a + i * n div t..<a + Suc i * n div t] = Inr (map g [a + i * n div t..<a + Suc i * n div t])"
      by (rule res_mapM_total) (use assms(3) chunk_bounds(2) [OF i, of n] in auto)
    then show "(case (of_nat (a + i * n div t) :: usize, of_nat (a + Suc i * n div t) :: usize) of
        (lo, hi) \<Rightarrow> join_thread (res_mapM f [unat lo..<unat hi])) = Inr (map g [a + i * n div t..<a + Suc i * n div t])"
      unfolding prod.case unat_of_nat_small [OF small(1)] unat_of_nat_small [OF small(2)] by (simp add: join_thread_def)
  qed
  show "concat (map (\<lambda>i. map g [a + i * n div t..<a + Suc i * n div t]) [0..<t]) = map g [a..<a + n]"
  proof (cases "t = 0")
    case False
    have "[a..<a + n] = map ((+) a) [0..<n]" using upt_shift [of a 0 n] by simp
    then show ?thesis
      using False map_concat_upt [of t "\<lambda>k. g (a + k)" n] by (simp add: upt_shift comp_def del: mult_Suc)
  qed (use assms(2) in simp)
qed

lemma threads_available:
  fixes available :: usize
  assumes "n < 2 ^ 64"
  defines "t \<equiv> min n (unat available)"
  shows "min (of_nat n) available = of_nat t" and "unat (of_nat t :: usize) = t" and "0 < available \<Longrightarrow> 0 < t \<or> n = 0"
proof -
  have n: "n < 2 ^ LENGTH(64)" using assms(1) by simp
  then show "min (of_nat n) available = of_nat t" "unat (of_nat t :: usize) = t"
    using unat_bound [of available] by (auto simp: t_def min_def word_le_nat_alt)
  show "0 < available \<Longrightarrow> 0 < t \<or> n = 0" by (auto simp: t_def word_less_nat_alt min_def)
qed

lemma set_update_distinct:
  assumes "distinct (map f xs)" and "i < length xs" and "v \<in> set (xs[i := y])"
  shows "v = y \<or> v \<in> set xs \<and> f v \<noteq> f (xs ! i)"
proof -
  obtain j where j: "j < length xs" and v: "v = xs[i := y] ! j"
    using assms(3) unfolding in_set_conv_nth by auto
  show ?thesis
    using nth_eq_iff_index_eq [OF assms(1), of j i] assms(2) j v by (cases "j = i") auto
qed

end
