(* ===== verification/Transaction.thy ===== *)
theory Transaction
  imports Txtt_Prelude
begin

section \<open>Errors, transactions and their status\<close>

text \<open>
  The model of \<open>src/error.rs\<close> and of the data of \<open>src/transaction.rs\<close>: the error type, the account
  metadata, the recipes, the view that the \<open>Transaction\<close> trait gives of a transaction, and the status
  type with its classification. The type of \<open>subxt::Error\<close> and its text are parameters (\<open>'e\<close> and
  \<open>show_subxt\<close>), as is the type \<open>'h\<close> of transaction and block hashes.
\<close>

subsection \<open>Errors\<close>

datatype 'e error =
    Subxt 'e
  | Other string
  | MortalLifetimeSurpassed u64

definition show_u64 :: "u64 \<Rightarrow> string" where
  "show_u64 n = show_nat (unat n)"

fun error_to_string :: "('e \<Rightarrow> string) \<Rightarrow> 'e error \<Rightarrow> string" where
  "error_to_string show_subxt (Subxt e) = ''subxt error: '' @ show_subxt e"
| "error_to_string show_subxt (Other s) = ''Other error: '' @ s"
| "error_to_string show_subxt (MortalLifetimeSurpassed n) =
     ''Mortal transaction lifetime surpassed, block number: '' @ show_u64 n"

subsection \<open>Accounts, recipes and the transaction trait\<close>

datatype account_metadata =
    No_Account
  | Derived u32
  | KeyRing string

datatype transaction_call =
    Transfer
  | Remark u32

record transaction_recipe =
  call :: transaction_call

definition recipe_transfer :: transaction_recipe where
  "recipe_transfer = \<lparr>call = Transfer\<rparr>"

definition recipe_remark :: "u32 \<Rightarrow> transaction_recipe" where
  "recipe_remark sz = \<lparr>call = Remark sz\<rparr>"

text \<open>What the methods of the trait \<open>Transaction\<close> return for a transaction.\<close>

record 'h transaction =
  tx_hash :: 'h
  tx_nonce :: u128
  tx_valid_until :: "u64 option"
  tx_account_metadata :: account_metadata

subsection \<open>Transaction status\<close>

datatype 'h transaction_status =
    Validated
  | Broadcasted
  | InBlock 'h
  | NoLongerInBestBlock
  | Finalized 'h
  | Dropped string
  | Invalid string
  | StatusError string

fun get_letter :: "'h transaction_status \<Rightarrow> char" where
  "get_letter Validated = CHR ''V''"
| "get_letter Broadcasted = CHR ''b''"
| "get_letter (InBlock _) = CHR ''B''"
| "get_letter (Finalized _) = CHR ''F''"
| "get_letter (StatusError _) = CHR ''E''"
| "get_letter (Invalid _) = CHR ''I''"
| "get_letter (Dropped _) = CHR ''D''"
| "get_letter NoLongerInBestBlock = CHR ''N''"

fun is_terminal :: "'h transaction_status \<Rightarrow> bool" where
  "is_terminal (Finalized _) = True"
| "is_terminal (Dropped _) = True"
| "is_terminal (Invalid _) = True"
| "is_terminal (StatusError _) = True"
| "is_terminal _ = False"

fun is_finalized :: "'h transaction_status \<Rightarrow> bool" where
  "is_finalized (Finalized _) = True"
| "is_finalized _ = False"

fun is_error :: "'h transaction_status \<Rightarrow> bool" where
  "is_error (Dropped _) = True"
| "is_error (Invalid _) = True"
| "is_error (StatusError _) = True"
| "is_error _ = False"

text \<open>
  The statuses that subxt reports (\<open>subxt::tx::TxStatus\<close>), as the exhaustive match of the conversion
  shows them; \<open>'b\<close> is the type of subxt's in-block transactions and \<open>block_hash\<close> their method.
\<close>

datatype 'b subxt_tx_status =
    S_Validated
  | S_Broadcasted
  | S_InBestBlock 'b
  | S_InFinalizedBlock 'b
  | S_Error string
  | S_Invalid string
  | S_Dropped string
  | S_NoLongerInBestBlock

fun status_from_subxt :: "('b \<Rightarrow> 'h) \<Rightarrow> 'b subxt_tx_status \<Rightarrow> 'h transaction_status" where
  "status_from_subxt block_hash S_Validated = Validated"
| "status_from_subxt block_hash S_Broadcasted = Broadcasted"
| "status_from_subxt block_hash (S_InBestBlock b) = InBlock (block_hash b)"
| "status_from_subxt block_hash (S_InFinalizedBlock b) = Finalized (block_hash b)"
| "status_from_subxt block_hash (S_Error m) = StatusError m"
| "status_from_subxt block_hash (S_Invalid m) = Invalid m"
| "status_from_subxt block_hash (S_Dropped m) = Dropped m"
| "status_from_subxt block_hash S_NoLongerInBestBlock = NoLongerInBestBlock"

subsection \<open>The interface TransactionStatusIsDone\<close>

text \<open>
  The contract of the trait \<open>TransactionStatusIsDone\<close>: a status is terminal exactly when it is
  finalized or an error, and never both. Its clients, the event loop of a watched task and the stream
  of the fake sink, read a stream of statuses up to its first terminal one.
\<close>

fun take_until :: "('a \<Rightarrow> bool) \<Rightarrow> 'a list \<Rightarrow> 'a list" where
  "take_until P [] = []"
| "take_until P (x # xs) = (if P x then [x] else x # take_until P xs)"

lemma take_until_none: "(\<And>x. x \<in> set xs \<Longrightarrow> \<not> P x) \<Longrightarrow> take_until P xs = xs"
  by (induction xs) auto

lemma take_until_prefix: "\<exists>ys. xs = take_until P xs @ ys"
  by (induction xs) auto

lemma take_until_app: "\<exists>x \<in> set xs. P x \<Longrightarrow> take_until P (xs @ ys) = take_until P xs"
  by (induction xs) auto

lemma take_until_last: "\<exists>x \<in> set xs. P x \<Longrightarrow> take_until P xs \<noteq> [] \<and> P (last (take_until P xs))"
  by (induction xs) auto

lemma take_until_butlast: "x \<in> set (butlast (take_until P xs)) \<Longrightarrow> \<not> P x"
  by (induction xs) (auto split: if_splits)

locale status_is_done =
  fixes terminal :: "'s \<Rightarrow> bool"
    and finalized_status :: "'s \<Rightarrow> bool"
    and error_status :: "'s \<Rightarrow> bool"
  assumes terminal_iff: "terminal s \<longleftrightarrow> finalized_status s \<or> error_status s"
    and not_both: "finalized_status s \<Longrightarrow> \<not> error_status s"
begin

lemma terminal_cases:
  assumes "terminal s"
  obtains "finalized_status s" and "\<not> error_status s" | "\<not> finalized_status s" and "error_status s"
  using assms terminal_iff not_both by blast

lemma not_terminal: "\<not> terminal s \<longleftrightarrow> \<not> finalized_status s \<and> \<not> error_status s"
  by (simp add: terminal_iff)

lemma read_ends_done:
  assumes "\<exists>s \<in> set ss. terminal s"
  shows "finalized_status (last (take_until terminal ss)) \<longleftrightarrow>
    \<not> error_status (last (take_until terminal ss))"
  using take_until_last [of ss terminal] assms not_both terminal_iff by blast

lemma read_goes_on:
  assumes "s \<in> set (butlast (take_until terminal ss))"
  shows "\<not> finalized_status s" and "\<not> error_status s"
  using take_until_butlast [OF assms] by (auto simp: terminal_iff)

end

interpretation txs: status_is_done is_terminal is_finalized is_error
proof unfold_locales
  show "is_terminal s \<longleftrightarrow> is_finalized s \<or> is_error s" for s :: "'h transaction_status"
    by (cases s) auto
  show "is_finalized s \<Longrightarrow> \<not> is_error s" for s :: "'h transaction_status"
    by (cases s) auto
qed

text \<open>
  The letters of the in-pool event string tell every kind of status apart, and the conversion from
  subxt's statuses keeps the kind.
\<close>

lemma get_letter_terminal: "is_terminal s \<longleftrightarrow> get_letter s \<in> set ''FDIE''"
  by (cases s) auto

lemma get_letter_in_block: "get_letter s = CHR ''B'' \<longleftrightarrow> (\<exists>h. s = InBlock h)"
  by (cases s) auto

end
