(* ===== verification/Execution_Log.thy ===== *)
theory Execution_Log
  imports Transaction
begin

section \<open>Execution events, counters and the log of a transaction\<close>

text \<open>
  The model of \<open>src/execution_log.rs\<close> up to the implementation of the trait \<open>ExecutionLog\<close>. A
  \<open>TransactionExecutionLog\<close> owns its events and shares one \<open>Counters\<close> cell with all logs of a runner, so
  \<open>push_event\<close> takes and returns both the log and the shared counters. Every event carries the clock
  reading of its creation, which is an argument of the model.
\<close>

subsection \<open>Events\<close>

datatype 'h execution_event =
    Popped system_time
  | Sent system_time
  | Resubmitted system_time
  | SubmitResult system_time "string + unit"
  | SubmitAndWatchResult system_time "string + unit"
  | TxPoolEvent system_time "'h transaction_status"
  | FinalizedMonitor system_time 'h
  | MortalDroppedMonitor system_time u64

fun map_err :: "('e \<Rightarrow> 'f) \<Rightarrow> 'e + 'a \<Rightarrow> 'f + 'a" where
  "map_err f (Inl e) = Inl (f e)"
| "map_err f (Inr x) = Inr x"

definition event_popped :: "system_time \<Rightarrow> 'h execution_event" where
  "event_popped now = Popped now"

definition event_sent :: "system_time \<Rightarrow> 'h execution_event" where
  "event_sent now = Sent now"

definition event_submit_and_watch_result ::
    "('e \<Rightarrow> string) \<Rightarrow> system_time \<Rightarrow> 'e error + unit \<Rightarrow> 'h execution_event" where
  "event_submit_and_watch_result show_subxt now r =
     SubmitAndWatchResult now (map_err (error_to_string show_subxt) r)"

definition event_submit_result ::
    "('e \<Rightarrow> string) \<Rightarrow> system_time \<Rightarrow> 'e error + unit \<Rightarrow> 'h execution_event" where
  "event_submit_result show_subxt now r = SubmitResult now (map_err (error_to_string show_subxt) r)"

definition event_finalized_monitor :: "system_time \<Rightarrow> 'h \<Rightarrow> 'h execution_event" where
  "event_finalized_monitor now block_hash = FinalizedMonitor now block_hash"

definition event_mortal_dropped_monitor :: "system_time \<Rightarrow> u64 \<Rightarrow> 'h execution_event" where
  "event_mortal_dropped_monitor now block_number = MortalDroppedMonitor now block_number"

definition event_from_status :: "system_time \<Rightarrow> 'h transaction_status \<Rightarrow> 'h execution_event" where
  "event_from_status now s = TxPoolEvent now s"

lemmas event_defs = event_popped_def event_sent_def event_submit_and_watch_result_def
  event_submit_result_def event_finalized_monitor_def event_mortal_dropped_monitor_def
  event_from_status_def

fun event_time :: "'h execution_event \<Rightarrow> system_time" where
  "event_time (Popped i) = i"
| "event_time (Sent i) = i"
| "event_time (Resubmitted i) = i"
| "event_time (SubmitResult i _) = i"
| "event_time (SubmitAndWatchResult i _) = i"
| "event_time (TxPoolEvent i _) = i"
| "event_time (FinalizedMonitor i _) = i"
| "event_time (MortalDroppedMonitor i _) = i"

subsection \<open>Counters\<close>

record counters =
  popped :: usize
  sent :: usize
  submit_success :: usize
  submit_error :: usize
  submit_and_watch_success :: usize
  submit_and_watch_error :: usize
  finalized_monitor :: usize
  mortal_dropped_monitor :: usize
  ts_validated :: usize
  ts_broadcasted :: usize
  ts_in_block :: usize
  ts_finalized :: usize
  ts_dropped :: usize
  ts_invalid :: usize
  ts_error :: usize

definition counters_default :: counters where
  "counters_default =
     \<lparr>popped = 0, sent = 0, submit_success = 0, submit_error = 0, submit_and_watch_success = 0,
      submit_and_watch_error = 0, finalized_monitor = 0, mortal_dropped_monitor = 0,
      ts_validated = 0, ts_broadcasted = 0, ts_in_block = 0, ts_finalized = 0, ts_dropped = 0,
      ts_invalid = 0, ts_error = 0\<rparr>"

text \<open>\<open>AtomicUsize::fetch_add\<close> wraps around in every build.\<close>

definition inc :: "usize \<Rightarrow> usize" where
  "inc x = x + 1"

definition buffered :: "profile \<Rightarrow> counters \<Rightarrow> usize res" where
  "buffered prof c =
     res_bind (u_add prof (submit_and_watch_success c) (submit_and_watch_error c)) (\<lambda>watched.
     res_bind (u_sub prof (popped c) watched) (\<lambda>rest.
     res_bind (u_add prof (submit_success c) (submit_error c)) (\<lambda>unwatched.
     u_sub prof rest unwatched)))"

fun count_event :: "'h execution_event \<Rightarrow> counters \<Rightarrow> counters" where
  "count_event (Popped _) c = c\<lparr>popped := inc (popped c)\<rparr>"
| "count_event (Sent _) c = c\<lparr>sent := inc (sent c)\<rparr>"
| "count_event (SubmitResult _ (Inr _)) c = c\<lparr>submit_success := inc (submit_success c)\<rparr>"
| "count_event (SubmitResult _ (Inl _)) c = c\<lparr>submit_error := inc (submit_error c)\<rparr>"
| "count_event (SubmitAndWatchResult _ (Inr _)) c =
     c\<lparr>submit_and_watch_success := inc (submit_and_watch_success c)\<rparr>"
| "count_event (SubmitAndWatchResult _ (Inl _)) c =
     c\<lparr>submit_and_watch_error := inc (submit_and_watch_error c)\<rparr>"
| "count_event (FinalizedMonitor _ _) c = c\<lparr>finalized_monitor := inc (finalized_monitor c)\<rparr>"
| "count_event (TxPoolEvent _ Validated) c = c\<lparr>ts_validated := inc (ts_validated c)\<rparr>"
| "count_event (TxPoolEvent _ Broadcasted) c = c\<lparr>ts_broadcasted := inc (ts_broadcasted c)\<rparr>"
| "count_event (TxPoolEvent _ (Finalized _)) c = c\<lparr>ts_finalized := inc (ts_finalized c)\<rparr>"
| "count_event (TxPoolEvent _ (Dropped _)) c = c\<lparr>ts_dropped := inc (ts_dropped c)\<rparr>"
| "count_event (TxPoolEvent _ (Invalid _)) c = c\<lparr>ts_invalid := inc (ts_invalid c)\<rparr>"
| "count_event (TxPoolEvent _ (StatusError _)) c = c\<lparr>ts_error := inc (ts_error c)\<rparr>"
| "count_event (TxPoolEvent _ (InBlock _)) c = c\<lparr>ts_in_block := inc (ts_in_block c)\<rparr>"
| "count_event (TxPoolEvent _ NoLongerInBestBlock) c = c"
| "count_event (Resubmitted _) c = c"
| "count_event (MortalDroppedMonitor _ _) c =
     c\<lparr>mortal_dropped_monitor := inc (mortal_dropped_monitor c)\<rparr>"

text \<open>
  \<open>{:7}\<close> pads a number with blanks on the left to seven characters.
\<close>

definition pad7 :: "usize \<Rightarrow> string" where
  "pad7 n = (let s = show_nat (unat n) in replicate (7 - length s) (CHR '' '') @ s)"

definition counters_display :: "counters \<Rightarrow> string" where
  "counters_display c =
     ''p '' @ pad7 (popped c) @ '' s:'' @ pad7 (sent c) @
     '' '' @ pad7 (submit_and_watch_success c) @ ''/'' @ pad7 (submit_and_watch_error c) @
     '' v:'' @ pad7 (ts_validated c) @ '' b'' @ pad7 (ts_broadcasted c) @
     '' B:'' @ pad7 (ts_in_block c) @ '' f:'' @ pad7 (ts_finalized c) @
     '' d:'' @ pad7 (ts_dropped c) @ '' i:'' @ pad7 (ts_invalid c)"

subsection \<open>The log of one transaction\<close>

record 'h execution_log =
  log_events :: "'h execution_event list"
  log_account_metadata :: account_metadata
  log_nonce :: u128
  log_hash :: 'h

definition log_new_with_events :: "'h \<Rightarrow> 'h execution_event list \<Rightarrow> 'h execution_log" where
  "log_new_with_events default_hash events =
     \<lparr>log_events = events, log_account_metadata = No_Account, log_nonce = 0, log_hash = default_hash\<rparr>"

definition log_new_with_tx :: "'h transaction \<Rightarrow> 'h execution_log" where
  "log_new_with_tx t =
     \<lparr>log_events = [], log_account_metadata = tx_account_metadata t, log_nonce = tx_nonce t,
      log_hash = tx_hash t\<rparr>"

definition get_sent_time_stamp :: "'h execution_log \<Rightarrow> system_time option" where
  "get_sent_time_stamp l = find_map (\<lambda>e. case e of Sent i \<Rightarrow> Some i | _ \<Rightarrow> None) (log_events l)"

definition duration_since_timestamp ::
    "system_time option \<Rightarrow> system_time option \<Rightarrow> duration option res" where
  "duration_since_timestamp start stop =
     (case (start, stop) of
        (Some a, Some b) \<Rightarrow>
          res_bind (opt_expect ''time goes forward.'' (duration_since b a)) (\<lambda>d. Inr (Some d))
      | _ \<Rightarrow> Inr None)"

definition in_blocks :: "'h execution_log \<Rightarrow> 'h list" where
  "in_blocks l =
     filter_map (\<lambda>e. case e of TxPoolEvent _ (InBlock h) \<Rightarrow> Some h | _ \<Rightarrow> None) (log_events l)"

definition push_event ::
    "'h execution_event \<Rightarrow> 'h execution_log \<times> counters \<Rightarrow> 'h execution_log \<times> counters" where
  "push_event e lc =
     (let (l, c) = lc;
          count = (case e of TxPoolEvent _ (InBlock _) \<Rightarrow> in_blocks l = [] | _ \<Rightarrow> True)
      in (l\<lparr>log_events := log_events l @ [e]\<rparr>, if count then count_event e c else c))"

definition log_is_watched :: "'h execution_log \<Rightarrow> bool res" where
  "log_is_watched l = Inl Unimplemented"

definition log_finalized :: "'h execution_log \<Rightarrow> 'h option" where
  "log_finalized l =
     find_map (\<lambda>e. case e of TxPoolEvent _ (Finalized h) \<Rightarrow> Some h | _ \<Rightarrow> None) (log_events l)"

definition time_to_finalized_monitor :: "'h execution_log \<Rightarrow> duration option res" where
  "time_to_finalized_monitor l = duration_since_timestamp (get_sent_time_stamp l)
     (find_map (\<lambda>e. case e of FinalizedMonitor i _ \<Rightarrow> Some i | _ \<Rightarrow> None) (log_events l))"

definition time_to_mortal_dropped_monitor :: "'h execution_log \<Rightarrow> duration option res" where
  "time_to_mortal_dropped_monitor l = duration_since_timestamp (get_sent_time_stamp l)
     (find_map (\<lambda>e. case e of MortalDroppedMonitor i _ \<Rightarrow> Some i | _ \<Rightarrow> None) (log_events l))"

definition time_to_finalized :: "'h execution_log \<Rightarrow> duration option res" where
  "time_to_finalized l = duration_since_timestamp (get_sent_time_stamp l)
     (find_map (\<lambda>e. case e of TxPoolEvent i (Finalized _) \<Rightarrow> Some i | _ \<Rightarrow> None) (log_events l))"

definition time_to_validated :: "'h execution_log \<Rightarrow> duration option res" where
  "time_to_validated l = duration_since_timestamp (get_sent_time_stamp l)
     (find_map (\<lambda>e. case e of TxPoolEvent i Validated \<Rightarrow> Some i | _ \<Rightarrow> None) (log_events l))"

definition time_to_broadcasted :: "'h execution_log \<Rightarrow> duration option res" where
  "time_to_broadcasted l = duration_since_timestamp (get_sent_time_stamp l)
     (find_map (\<lambda>e. case e of TxPoolEvent i Broadcasted \<Rightarrow> Some i | _ \<Rightarrow> None) (log_events l))"

definition time_to_inblock :: "'h execution_log \<Rightarrow> duration option res" where
  "time_to_inblock l = duration_since_timestamp (get_sent_time_stamp l)
     (find_map (\<lambda>e. case e of TxPoolEvent i (InBlock _) \<Rightarrow> Some i | _ \<Rightarrow> None) (log_events l))"

definition times_to_inblock :: "'h execution_log \<Rightarrow> duration list option res" where
  "times_to_inblock l = Inl Unimplemented"

definition time_to_dropped :: "'h execution_log \<Rightarrow> duration option res" where
  "time_to_dropped l = duration_since_timestamp (get_sent_time_stamp l)
     (find_map (\<lambda>e. case e of TxPoolEvent i (Dropped _) \<Rightarrow> Some i | _ \<Rightarrow> None) (log_events l))"

definition time_to_invalid :: "'h execution_log \<Rightarrow> duration option res" where
  "time_to_invalid l = duration_since_timestamp (get_sent_time_stamp l)
     (find_map (\<lambda>e. case e of TxPoolEvent i (Invalid _) \<Rightarrow> Some i | _ \<Rightarrow> None) (log_events l))"

definition time_to_error :: "'h execution_log \<Rightarrow> duration option res" where
  "time_to_error l = duration_since_timestamp (get_sent_time_stamp l)
     (find_map (\<lambda>e. case e of TxPoolEvent i (StatusError _) \<Rightarrow> Some i | _ \<Rightarrow> None) (log_events l))"

definition time_to_result :: "'h execution_log \<Rightarrow> duration option res" where
  "time_to_result l = duration_since_timestamp (get_sent_time_stamp l)
     (find_map (\<lambda>e. case e of SubmitAndWatchResult i _ \<Rightarrow> Some i | SubmitResult i _ \<Rightarrow> Some i
                             | _ \<Rightarrow> None) (log_events l))"

definition get_invalid_reason :: "'h execution_log \<Rightarrow> string list" where
  "get_invalid_reason l =
     filter_map (\<lambda>e. case e of TxPoolEvent _ (Invalid r) \<Rightarrow> Some r | _ \<Rightarrow> None) (log_events l)"

definition get_error_reason :: "'h execution_log \<Rightarrow> string list" where
  "get_error_reason l =
     filter_map (\<lambda>e. case e of TxPoolEvent _ (StatusError r) \<Rightarrow> Some r | _ \<Rightarrow> None) (log_events l)"

definition get_dropped_reason :: "'h execution_log \<Rightarrow> string list" where
  "get_dropped_reason l =
     filter_map (\<lambda>e. case e of TxPoolEvent _ (Dropped r) \<Rightarrow> Some r | _ \<Rightarrow> None) (log_events l)"

definition get_resent_count :: "'h execution_log \<Rightarrow> u32 res" where
  "get_resent_count l = Inl Unimplemented"

definition get_submit_result_error :: "'h execution_log \<Rightarrow> string list" where
  "get_submit_result_error l =
     filter_map (\<lambda>e. case e of SubmitResult _ (Inl r) \<Rightarrow> Some r | _ \<Rightarrow> None) (log_events l)"

definition get_submit_and_watch_result_error :: "'h execution_log \<Rightarrow> string list" where
  "get_submit_and_watch_result_error l =
     filter_map (\<lambda>e. case e of SubmitAndWatchResult _ (Inl r) \<Rightarrow> Some r | _ \<Rightarrow> None) (log_events l)"

definition get_inpool_events_string :: "'h execution_log \<Rightarrow> string" where
  "get_inpool_events_string l =
     filter_map (\<lambda>e. case e of TxPoolEvent _ p \<Rightarrow> Some (get_letter p) | _ \<Rightarrow> None) (log_events l)"

definition get_sent_time :: "'h execution_log \<Rightarrow> system_time option" where
  "get_sent_time l = get_sent_time_stamp l"

subsection \<open>Logs of a runner\<close>

text \<open>
  \<open>Logs\<close> maps the transaction hashes to their logs; all of them share the counters. \<open>push_at\<close> is
  \<open>logs[&hash].push_event(e)\<close>: indexing a \<open>HashMap\<close> panics when the key is absent.
\<close>

type_synonym 'h logs = "'h \<rightharpoonup> 'h execution_log"

definition push_at ::
    "'h \<Rightarrow> 'h execution_event \<Rightarrow> 'h logs \<times> counters \<Rightarrow> ('h logs \<times> counters) res" where
  "push_at h e s =
     (let (logs, c) = s in
      case logs h of
        None \<Rightarrow> Inl Missing_Key
      | Some l \<Rightarrow> (let (l', c') = push_event e (l, c) in Inr (logs(h \<mapsto> l'), c')))"

fun push_many ::
    "('h \<times> 'h execution_event) list \<Rightarrow> 'h logs \<times> counters \<Rightarrow> ('h logs \<times> counters) res" where
  "push_many [] s = Inr s"
| "push_many ((h, e) # ps) s = res_bind (push_at h e s) (push_many ps)"

subsection \<open>The interface of a log\<close>

text \<open>
  What the clients of the trait \<open>ExecutionLog\<close> rely on: pushing appends one event at the end and keeps
  what was recorded. A getter that reports the first event of some form is then stable, and one that
  collects all of them only grows.
\<close>

locale event_log =
  fixes push :: "'ev \<Rightarrow> 'l \<times> 'c \<Rightarrow> 'l \<times> 'c"
    and events :: "'l \<Rightarrow> 'ev list"
  assumes events_push: "events (fst (push e lc)) = events (fst lc) @ [e]"
begin

lemma events_push_all: "events (fst (fold push es lc)) = events (fst lc) @ es"
  by (induction es arbitrary: lc) (auto simp: events_push)

lemma first_event_stable:
  "find_map f (events (fst lc)) = Some t \<Longrightarrow> find_map f (events (fst (fold push es lc))) = Some t"
  by (simp add: events_push_all find_map_append)

lemma first_event_appears:
  "find_map f (events (fst lc)) = None \<Longrightarrow> find_map f (events (fst (fold push es lc))) = find_map f es"
  by (simp add: events_push_all find_map_append)

lemma all_events_grow:
  "filter_map f (events (fst (fold push es lc))) = filter_map f (events (fst lc)) @ filter_map f es"
  by (simp add: events_push_all)

end

lemma log_events_push_event [simp]: "log_events (fst (push_event e lc)) = log_events (fst lc) @ [e]"
  by (simp add: push_event_def Let_def split: prod.split)

lemma push_event_keeps [simp]:
  "log_hash (fst (push_event e lc)) = log_hash (fst lc)"
  "log_nonce (fst (push_event e lc)) = log_nonce (fst lc)"
  "log_account_metadata (fst (push_event e lc)) = log_account_metadata (fst lc)"
  by (simp_all add: push_event_def Let_def split: prod.split)

interpretation elog: event_log push_event log_events
  by unfold_locales simp

subsection \<open>The counters agree with the logs\<close>

text \<open>
  The events that have a counter, and the counter of each kind. \<open>occurrences\<close> is what one log contributes
  to a counter: the number of its events of that kind, except that any number of in-block events of a
  transaction contributes one.
\<close>

datatype counter_kind =
    K_Popped | K_Sent | K_Submit_Success | K_Submit_Error | K_Watch_Success | K_Watch_Error
  | K_Finalized_Monitor | K_Mortal_Dropped | K_Validated | K_Broadcasted | K_In_Block | K_Finalized
  | K_Dropped | K_Invalid | K_Error

fun kind_of :: "'h execution_event \<Rightarrow> counter_kind option" where
  "kind_of (Popped _) = Some K_Popped"
| "kind_of (Sent _) = Some K_Sent"
| "kind_of (Resubmitted _) = None"
| "kind_of (SubmitResult _ (Inr _)) = Some K_Submit_Success"
| "kind_of (SubmitResult _ (Inl _)) = Some K_Submit_Error"
| "kind_of (SubmitAndWatchResult _ (Inr _)) = Some K_Watch_Success"
| "kind_of (SubmitAndWatchResult _ (Inl _)) = Some K_Watch_Error"
| "kind_of (FinalizedMonitor _ _) = Some K_Finalized_Monitor"
| "kind_of (MortalDroppedMonitor _ _) = Some K_Mortal_Dropped"
| "kind_of (TxPoolEvent _ Validated) = Some K_Validated"
| "kind_of (TxPoolEvent _ Broadcasted) = Some K_Broadcasted"
| "kind_of (TxPoolEvent _ (InBlock _)) = Some K_In_Block"
| "kind_of (TxPoolEvent _ NoLongerInBestBlock) = None"
| "kind_of (TxPoolEvent _ (Finalized _)) = Some K_Finalized"
| "kind_of (TxPoolEvent _ (Dropped _)) = Some K_Dropped"
| "kind_of (TxPoolEvent _ (Invalid _)) = Some K_Invalid"
| "kind_of (TxPoolEvent _ (StatusError _)) = Some K_Error"

fun counter_of :: "counter_kind \<Rightarrow> counters \<Rightarrow> usize" where
  "counter_of K_Popped c = popped c"
| "counter_of K_Sent c = sent c"
| "counter_of K_Submit_Success c = submit_success c"
| "counter_of K_Submit_Error c = submit_error c"
| "counter_of K_Watch_Success c = submit_and_watch_success c"
| "counter_of K_Watch_Error c = submit_and_watch_error c"
| "counter_of K_Finalized_Monitor c = finalized_monitor c"
| "counter_of K_Mortal_Dropped c = mortal_dropped_monitor c"
| "counter_of K_Validated c = ts_validated c"
| "counter_of K_Broadcasted c = ts_broadcasted c"
| "counter_of K_In_Block c = ts_in_block c"
| "counter_of K_Finalized c = ts_finalized c"
| "counter_of K_Dropped c = ts_dropped c"
| "counter_of K_Invalid c = ts_invalid c"
| "counter_of K_Error c = ts_error c"

definition kind_count :: "counter_kind \<Rightarrow> 'h execution_log \<Rightarrow> nat" where
  "kind_count k l = length (filter (\<lambda>e. kind_of e = Some k) (log_events l))"

definition occurrences :: "counter_kind \<Rightarrow> 'h execution_log \<Rightarrow> nat" where
  "occurrences k l = (if k = K_In_Block then min 1 (kind_count k l) else kind_count k l)"

definition total_occurrences :: "counter_kind \<Rightarrow> 'h logs \<Rightarrow> nat" where
  "total_occurrences k logs = (\<Sum>h\<in>dom logs. occurrences k (the (logs h)))"

definition counters_agree :: "'h logs \<Rightarrow> counters \<Rightarrow> bool" where
  "counters_agree logs c \<longleftrightarrow> (\<forall>k. counter_of k c = of_nat (total_occurrences k logs))"

lemma counter_of_count_event:
  "counter_of k (count_event e c) = (if kind_of e = Some k then counter_of k c + 1 else counter_of k c)"
  by (cases "(e, c)" rule: count_event.cases; cases k; simp add: inc_def)

lemma counter_of_default [simp]: "counter_of k counters_default = 0"
  by (cases k) (simp_all add: counters_default_def)

lemma in_blocks_kind_count: "in_blocks l = [] \<longleftrightarrow> kind_count K_In_Block l = 0"
proof -
  have "filter_map (\<lambda>e. case e of TxPoolEvent _ (InBlock h) \<Rightarrow> Some h | _ \<Rightarrow> None) es = [] \<longleftrightarrow>
      filter (\<lambda>e. kind_of e = Some K_In_Block) es = []" for es :: "'a execution_event list"
  proof (induction es)
    case (Cons e es)
    then show ?case
      by (cases e rule: kind_of.cases) (auto split: option.splits)
  qed simp
  then show ?thesis by (simp add: in_blocks_def kind_count_def)
qed

lemma kind_count_push [simp]:
  "kind_count k (fst (push_event e lc)) = kind_count k (fst lc) + (if kind_of e = Some k then 1 else 0)"
  by (simp add: kind_count_def)

lemma occurrences_push:
  "occurrences k (fst (push_event e lc)) =
     (if kind_of e = Some k \<and> (k \<noteq> K_In_Block \<or> in_blocks (fst lc) = [])
      then Suc (occurrences k (fst lc)) else occurrences k (fst lc))"
  by (auto simp: occurrences_def in_blocks_kind_count)

lemma push_event_counts:
  "snd (push_event e (l, c)) =
     (if kind_of e = Some K_In_Block \<and> in_blocks l \<noteq> [] then c else count_event e c)"
  by (cases e rule: kind_of.cases) (simp_all add: push_event_def)

lemma counter_of_push_event:
  "counter_of k (snd (push_event e (l, c))) =
     counter_of k c + of_nat (occurrences k (fst (push_event e (l, c)))) - of_nat (occurrences k l)"
  by (auto simp: push_event_counts occurrences_push counter_of_count_event)

lemma total_occurrences_update:
  assumes "finite (dom logs)" and "logs h = Some l"
  shows "total_occurrences k (logs(h \<mapsto> l')) + occurrences k l =
    total_occurrences k logs + occurrences k l'"
proof -
  have h: "h \<in> dom logs" using assms by auto
  have rest: "(\<Sum>x\<in>dom logs - {h}. occurrences k (the ((logs(h \<mapsto> l')) x))) =
      (\<Sum>x\<in>dom logs - {h}. occurrences k (the (logs x)))"
    by (rule sum.cong) auto
  have "insert h (dom logs) = dom logs" using h by auto
  then show ?thesis
    using assms h rest by (simp add: total_occurrences_def sum.remove [OF assms(1) h])
qed

lemma push_at_agree:
  assumes "push_at h e (logs, c) = Inr (logs', c')" and "finite (dom logs)" and "counters_agree logs c"
  shows "counters_agree logs' c'" and "dom logs' = dom logs"
proof -
  obtain l where l: "logs h = Some l"
    and logs': "logs' = logs(h \<mapsto> fst (push_event e (l, c)))"
    and c': "c' = snd (push_event e (l, c))"
    using assms(1) by (auto simp: push_at_def split: option.splits prod.splits)
  show "dom logs' = dom logs" using l logs' by auto
  show "counters_agree logs' c'"
    unfolding counters_agree_def
  proof
    fix k
    let ?l' = "fst (push_event e (l, c))"
    have "(of_nat (total_occurrences k logs' + occurrences k l) :: usize) =
        of_nat (total_occurrences k logs + occurrences k ?l')"
      using total_occurrences_update [OF assms(2) l] logs' by metis
    then have "(of_nat (total_occurrences k logs') :: usize) =
        of_nat (total_occurrences k logs) + of_nat (occurrences k ?l') - of_nat (occurrences k l)"
      by (simp add: algebra_simps)
    then show "counter_of k c' = of_nat (total_occurrences k logs')"
      using assms(3) by (simp add: c' counter_of_push_event counters_agree_def)
  qed
qed

lemma push_many_agree:
  assumes "push_many ps (logs, c) = Inr (logs', c')" and "finite (dom logs)" and "counters_agree logs c"
  shows "counters_agree logs' c' \<and> dom logs' = dom logs"
  using assms
proof (induction ps arbitrary: logs c)
  case (Cons p ps)
  obtain h e where "p = (h, e)" by fastforce
  with Cons.prems(1) obtain logs1 c1 where "push_at h e (logs, c) = Inr (logs1, c1)"
    and rest: "push_many ps (logs1, c1) = Inr (logs', c')"
    by (auto simp: res_bind_eq_Inr)
  with push_at_agree [OF _ Cons.prems(2,3)] have "counters_agree logs1 c1" "dom logs1 = dom logs" by auto
  then show ?case using Cons.IH [OF rest] Cons.prems(2) by simp
qed simp

lemma push_at_ok: "h \<in> dom logs \<Longrightarrow> \<exists>s. push_at h e (logs, c) = Inr s \<and> dom (fst s) = dom logs"
  by (auto simp: push_at_def split: prod.split)

lemma push_many_ok:
  "fst ` set ps \<subseteq> dom logs \<Longrightarrow> \<exists>logs' c'. push_many ps (logs, c) = Inr (logs', c') \<and> dom logs' = dom logs"
proof (induction ps arbitrary: logs c)
  case (Cons p ps)
  obtain h e where p: "p = (h, e)" by fastforce
  with Cons.prems obtain logs1 c1 where "push_at h e (logs, c) = Inr (logs1, c1)" and "dom logs1 = dom logs"
    using push_at_ok [of h logs e c] by auto
  moreover from this Cons.prems obtain logs' c' where "push_many ps (logs1, c1) = Inr (logs', c')" "dom logs' = dom logs"
    using Cons.IH [of logs1 c1] by auto
  ultimately show ?case by (simp add: p)
qed simp

lemma push_many_append:
  "push_many (ps @ qs) s = res_bind (push_many ps s) (push_many qs)"
proof (induction ps arbitrary: s)
  case (Cons p ps)
  have "push_many (ps @ qs) = (\<lambda>s. res_bind (push_many ps s) (push_many qs))"
    by (rule ext) (rule Cons.IH)
  then show ?case by (cases p; cases s) (simp add: res_bind_assoc)
qed simp

lemma push_at_log:
  assumes "push_at h e (logs, c) = Inr (logs', c')" and "logs x = Some l"
  shows "\<exists>l'. logs' x = Some l' \<and> log_events l' = log_events l @ (if x = h then [e] else [])"
proof -
  obtain l0 where "logs h = Some l0" and "logs' = logs(h \<mapsto> fst (push_event e (l0, c)))"
    using assms(1) by (auto simp: push_at_def split: option.splits prod.splits)
  then show ?thesis using assms(2) by auto
qed

lemma push_many_log:
  assumes "push_many ps (logs, c) = Inr (logs', c')" and "logs x = Some l"
  shows "\<exists>l'. logs' x = Some l' \<and> log_events l' = log_events l @ map snd (filter (\<lambda>p. fst p = x) ps)"
  using assms
proof (induction ps arbitrary: logs c l)
  case (Cons p ps)
  obtain h e where p: "p = (h, e)" by fastforce
  with Cons.prems(1) obtain logs1 c1 where step: "push_at h e (logs, c) = Inr (logs1, c1)"
    and rest: "push_many ps (logs1, c1) = Inr (logs', c')"
    by (auto simp: res_bind_eq_Inr)
  obtain l1 where "logs1 x = Some l1" and l1: "log_events l1 = log_events l @ (if x = h then [e] else [])"
    using push_at_log [OF step Cons.prems(2)] by blast
  then show ?case using Cons.IH [OF rest] by (fastforce simp: p)
qed simp

lemma push_many_dom: "push_many ps (logs, c) = Inr (logs', c') \<Longrightarrow> dom logs' = dom logs"
proof (induction ps arbitrary: logs c)
  case (Cons p ps)
  obtain h e where p: "p = (h, e)" by fastforce
  with Cons.prems obtain logs1 c1 where step: "push_at h e (logs, c) = Inr (logs1, c1)"
    and rest: "push_many ps (logs1, c1) = Inr (logs', c')"
    by (auto simp: res_bind_eq_Inr)
  have "dom logs1 = dom logs" using step by (auto simp: push_at_def split: option.splits prod.splits if_splits)
  then show ?case using Cons.IH [OF rest] by simp
qed simp

lemma counters_agree_fresh:
  assumes "\<And>h l. logs h = Some l \<Longrightarrow> log_events l = []"
  shows "counters_agree logs counters_default"
proof -
  have "occurrences k (the (logs h)) = 0" if "h \<in> dom logs" for k h
    using that assms by (auto simp: occurrences_def kind_count_def)
  then show ?thesis by (simp add: counters_agree_def total_occurrences_def)
qed

text \<open>
  C36: the shared counters report the logs. When a runner starts with empty logs, then after any
  sequence of \<open>push_event\<close> calls every counter equals, modulo the word size, the number of events of its
  kind in all logs, and the in-block counter the number of transactions with at least one in-block
  event: transactions included, not events.
\<close>

theorem counters_count_logs:
  assumes "finite (dom logs)"
    and "\<forall>l \<in> ran logs. log_events l = []"
    and "push_many ps (logs, counters_default) = Inr (logs', c')"
  shows "counter_of k c' = of_nat (\<Sum>h\<in>dom logs'. occurrences k (the (logs' h))) \<and>
    ts_in_block c' = of_nat (card {h. \<exists>l. logs' h = Some l \<and> in_blocks l \<noteq> []})"
proof
  have "counters_agree logs counters_default"
    by (rule counters_agree_fresh) (use assms(2) in \<open>auto simp: ran_def\<close>)
  with push_many_agree [OF assms(3,1)] have agree: "counters_agree logs' c'"
    and dom: "dom logs' = dom logs" by auto
  from agree show "counter_of k c' = of_nat (\<Sum>h\<in>dom logs'. occurrences k (the (logs' h)))"
    by (simp add: counters_agree_def total_occurrences_def)
  have "ts_in_block c' = of_nat (total_occurrences K_In_Block logs')"
    using agree by (metis counter_of.simps(11) counters_agree_def)
  moreover have "total_occurrences K_In_Block logs' =
      (\<Sum>h\<in>dom logs'. if in_blocks (the (logs' h)) \<noteq> [] then 1 else 0)"
    unfolding total_occurrences_def
    by (rule sum.cong) (auto simp: occurrences_def in_blocks_kind_count)
  moreover have "{h. \<exists>l. logs' h = Some l \<and> in_blocks l \<noteq> []} =
      {h \<in> dom logs'. in_blocks (the (logs' h)) \<noteq> []}"
    by auto
  ultimately show "ts_in_block c' = of_nat (card {h. \<exists>l. logs' h = Some l \<and> in_blocks l \<noteq> []})"
    using assms(1) dom by (simp add: sum.If_cases Int_def)
qed

text \<open>Two in-block events of one transaction and one of another are counted as two.\<close>

definition example_log :: "nat \<Rightarrow> nat execution_log" where
  "example_log h = \<lparr>log_events = [], log_account_metadata = No_Account, log_nonce = 0, log_hash = h\<rparr>"

theorem counters_count_logs_witness:
  "\<exists>logs' c'. push_many [(0, TxPoolEvent (System_Time 1) (InBlock 7)), (0, TxPoolEvent (System_Time 2) (InBlock 8)),
      (1, TxPoolEvent (System_Time 3) (InBlock 8))]
      ([0 \<mapsto> example_log 0, 1 \<mapsto> example_log 1], counters_default) = Inr (logs', c') \<and>
    ts_in_block c' = of_nat (card {h. \<exists>l. logs' h = Some l \<and> in_blocks l \<noteq> []}) \<and> ts_in_block c' = 2"
proof -
  let ?ps = "[(0, TxPoolEvent (System_Time 1) (InBlock 7)), (0, TxPoolEvent (System_Time 2) (InBlock 8)),
      (1, TxPoolEvent (System_Time 3) (InBlock 8))]"
  let ?logs = "[0 \<mapsto> example_log 0, 1 \<mapsto> example_log 1]"
  obtain logs' c' where run: "push_many ?ps (?logs, counters_default) = Inr (logs', c')"
    and two: "ts_in_block c' = 2"
    by (simp add: push_at_def push_event_def in_blocks_def example_log_def counters_default_def inc_def)
  have "finite (dom ?logs)" and "\<forall>l \<in> ran ?logs. log_events l = []"
    by (auto simp: ran_def example_log_def)
  from counters_count_logs [OF this run, of K_In_Block] run two show ?thesis by blast
qed

subsection \<open>The number of buffered transactions\<close>

definition results :: "'h execution_log \<Rightarrow> nat" where
  "results l = kind_count K_Watch_Success l + kind_count K_Watch_Error l +
     kind_count K_Submit_Success l + kind_count K_Submit_Error l"

lemma buffered_of_nat:
  assumes "popped c = of_nat p"
    and "submit_and_watch_success c = of_nat ws" and "submit_and_watch_error c = of_nat we"
    and "submit_success c = of_nat ss" and "submit_error c = of_nat se"
    and "p < 2 ^ 64" and "ws + we + ss + se \<le> p"
  shows "buffered prof c = Inr (of_nat (p - (ws + we + ss + se)))"
  using assms
  by (simp add: buffered_def u_add_of_nat u_sub_of_nat add.assoc del: of_nat_add of_nat_diff)

lemma buffered_agree:
  assumes "counters_agree logs c"
    and "total_occurrences K_Popped logs < 2 ^ 64"
    and "\<And>h l. logs h = Some l \<Longrightarrow> results l \<le> kind_count K_Popped l"
  shows "buffered prof c =
    Inr (of_nat (\<Sum>h\<in>dom logs. kind_count K_Popped (the (logs h)) - results (the (logs h))))"
proof -
  let ?k = "\<lambda>k. (\<Sum>h\<in>dom logs. kind_count k (the (logs h)))"
  have total: "total_occurrences k logs = ?k k" if "k \<noteq> K_In_Block" for k
    using that by (simp add: total_occurrences_def occurrences_def)
  have field: "counter_of k c = of_nat (?k k)" if "k \<noteq> K_In_Block" for k
    using assms(1) that by (simp add: counters_agree_def total)
  have le: "results (the (logs h)) \<le> kind_count K_Popped (the (logs h))" if "h \<in> dom logs" for h
    using that assms(3) by auto
  have sum: "?k K_Watch_Success + ?k K_Watch_Error + ?k K_Submit_Success + ?k K_Submit_Error =
      (\<Sum>h\<in>dom logs. results (the (logs h)))"
    by (simp add: results_def sum.distrib)
  have "buffered prof c = Inr (of_nat (?k K_Popped -
      (?k K_Watch_Success + ?k K_Watch_Error + ?k K_Submit_Success + ?k K_Submit_Error)))"
  proof (rule buffered_of_nat)
    show "popped c = of_nat (?k K_Popped)" using field [of K_Popped] by simp
    show "submit_and_watch_success c = of_nat (?k K_Watch_Success)" using field [of K_Watch_Success] by simp
    show "submit_and_watch_error c = of_nat (?k K_Watch_Error)" using field [of K_Watch_Error] by simp
    show "submit_success c = of_nat (?k K_Submit_Success)" using field [of K_Submit_Success] by simp
    show "submit_error c = of_nat (?k K_Submit_Error)" using field [of K_Submit_Error] by simp
    show "?k K_Popped < 2 ^ 64" using assms(2) total [of K_Popped] by simp
    show "?k K_Watch_Success + ?k K_Watch_Error + ?k K_Submit_Success + ?k K_Submit_Error \<le> ?k K_Popped"
      unfolding sum by (rule sum_mono) (rule le)
  qed
  then show ?thesis unfolding sum using le by (simp add: sum_subtractf_nat)
qed

subsection \<open>Durations\<close>

text \<open>
  All duration getters measure from the first \<open>Sent\<close> event to the first event of their kind, so they agree
  on one scheme.
\<close>

definition timed :: "('h execution_event \<Rightarrow> system_time option) \<Rightarrow> 'h execution_log \<Rightarrow> duration option res" where
  "timed f l = duration_since_timestamp (get_sent_time_stamp l) (find_map f (log_events l))"

definition duration_getters :: "('h execution_log \<Rightarrow> duration option res) list" where
  "duration_getters =
     [time_to_finalized_monitor, time_to_mortal_dropped_monitor, time_to_finalized, time_to_validated,
      time_to_broadcasted, time_to_inblock, time_to_dropped, time_to_invalid, time_to_error,
      time_to_result]"

lemma duration_getters_timed:
  assumes "g \<in> set duration_getters"
  obtains f where "g = timed f"
    and "\<And>e i. f e = Some i \<Longrightarrow> event_time e = i"
    and "\<And>i. f (Popped i) = None" and "\<And>i. f (Sent i) = None"
proof -
  define P where "P g \<longleftrightarrow> (\<exists>f. g = timed f \<and> (\<forall>e i. f e = Some i \<longrightarrow> event_time e = i) \<and>
    (\<forall>i. f (Popped i) = None) \<and> (\<forall>i. f (Sent i) = None))" for g :: "'a execution_log \<Rightarrow> duration option res"
  have "P time_to_finalized_monitor" "P time_to_mortal_dropped_monitor" "P time_to_finalized"
    "P time_to_validated" "P time_to_broadcasted" "P time_to_inblock" "P time_to_dropped"
    "P time_to_invalid" "P time_to_error" "P time_to_result"
    unfolding P_def timed_def fun_eq_iff time_to_finalized_monitor_def time_to_mortal_dropped_monitor_def
      time_to_finalized_def time_to_validated_def time_to_broadcasted_def time_to_inblock_def
      time_to_dropped_def time_to_invalid_def time_to_error_def time_to_result_def
    by (rule exI, rule conjI, rule allI, rule refl,
        auto split: execution_event.splits transaction_status.splits)+
  then have "P g" using assms by (auto simp: duration_getters_def)
  then show thesis using that by (auto simp: P_def)
qed

lemma find_map_sorted_bound:
  assumes "sorted (map event_time (e0 # es))" and "find_map f es = Some i"
    and "\<And>e i. f e = Some i \<Longrightarrow> event_time e = i"
  shows "event_time e0 \<le> i"
proof -
  from assms(2,3) obtain e where "e \<in> set es" "event_time e = i"
    by (induction es) (auto split: option.splits)
  then show ?thesis using assms(1) by auto
qed

lemma duration_getter_total:
  assumes "log_events l = Popped p # Sent s # es" and "sorted (map event_time (log_events l))"
    and "g \<in> set duration_getters"
  shows "g l = Inr None \<or> (\<exists>e \<in> set es. g l = Inr (Some (nanos_of (event_time e) - nanos_of s)))"
proof -
  obtain f where g: "g = timed f" and time: "\<And>e i. f e = Some i \<Longrightarrow> event_time e = i"
    and none: "\<And>i. f (Popped i) = None" "\<And>i. f (Sent i) = None"
    using duration_getters_timed [OF assms(3)] by metis
  have sent: "get_sent_time_stamp l = Some s" by (simp add: get_sent_time_stamp_def assms(1))
  have found: "find_map f (log_events l) = find_map f es" by (simp add: assms(1) none)
  show ?thesis
  proof (cases "find_map f es")
    case None
    then show ?thesis by (simp add: g timed_def sent found duration_since_timestamp_def)
  next
    case (Some i)
    have "sorted (map event_time (Sent s # es))" using assms(1,2) by simp
    from find_map_sorted_bound [OF this Some time] have "s \<le> i" by simp
    moreover obtain e where "e \<in> set es" "event_time e = i"
      using Some time by (induction es) (auto split: option.splits)
    ultimately show ?thesis using Some
      by (auto simp: g timed_def sent found duration_since_timestamp_def duration_since_def)
  qed
qed

text \<open>
  No duration getter of a log panics while the clock does not step back. For a log that starts
  with the \<open>Popped\<close> and \<open>Sent\<close> events a runner records, with time stamps in order, every \<open>time_to_*\<close>
  method returns; with a clock that was set back between \<open>Sent\<close> and the submission result,
  \<open>time_to_result\<close> panics with the message of its \<open>expect\<close>.
\<close>

theorem duration_getters_total:
  assumes "log_events l = Popped p # Sent s # es" and "sorted (map event_time (log_events l))"
    and "g \<in> set duration_getters"
  shows "g l = Inr None \<or> (\<exists>e \<in> set es. g l = Inr (Some (nanos_of (event_time e) - nanos_of s)))"
  by (rule duration_getter_total [OF assms])

theorem duration_getters_total_witness:
  "time_to_result \<lparr>log_events = [Popped (System_Time 3), Sent (System_Time 5),
       SubmitResult (System_Time 9) (Inr ())], log_account_metadata = No_Account, log_nonce = 0,
       log_hash = (0 :: nat)\<rparr> = Inr (Some 4)"
proof -
  let ?l = "\<lparr>log_events = [Popped (System_Time 3), Sent (System_Time 5),
       SubmitResult (System_Time 9) (Inr ())], log_account_metadata = No_Account, log_nonce = 0,
       log_hash = (0 :: nat)\<rparr>"
  have "time_to_result ?l = Inr None \<or> (\<exists>e \<in> set [SubmitResult (System_Time 9) (Inr ()) :: nat execution_event].
      time_to_result ?l = Inr (Some (nanos_of (event_time e) - nanos_of (System_Time 5))))"
    by (rule duration_getters_total [where p = "System_Time 3" and g = time_to_result])
      (simp_all add: duration_getters_def)
  then show ?thesis
    by (simp add: time_to_result_def duration_since_timestamp_def get_sent_time_stamp_def duration_since_def)
qed

lemma clock_set_back:
  "time_to_result \<lparr>log_events = [Popped (System_Time 3), Sent (System_Time 5),
       SubmitResult (System_Time 4) (Inr ())], log_account_metadata = No_Account, log_nonce = 0,
       log_hash = h\<rparr> = Inl (Expect_Failed ''time goes forward.'')"
  by (simp add: time_to_result_def duration_since_timestamp_def get_sent_time_stamp_def duration_since_def)

end
