(* ===== verification/Tx_Task.thy ===== *)
theory Tx_Task
  imports Execution_Log
begin

section \<open>The task that submits one transaction\<close>

text \<open>
  The model of \<open>DefaultTxTask\<close> of \<open>src/runner.rs\<close>, twice. The functions \<open>send_watched_tx\<close>, \<open>send_tx\<close> and
  \<open>execute\<close> follow the source from top to bottom for given answers of the sink and given clock readings,
  and return the events pushed to the log and the result. \<open>task_step\<close> is the same asynchronous function
  cut at its await points, the form in which the runner interleaves many tasks. The two agree.
\<close>

datatype 'h execution_result =
    Exec_Error 'h
  | Exec_Done 'h

fun result_hash :: "'h execution_result \<Rightarrow> 'h" where
  "result_hash (Exec_Error h) = h"
| "result_hash (Exec_Done h) = h"

record 'h tx_task =
  task_tx :: "'h transaction"
  task_watched :: bool

definition new_watched :: "'h transaction \<Rightarrow> 'h tx_task" where
  "new_watched tx = \<lparr>task_tx = tx, task_watched = True\<rparr>"

definition new_unwatched :: "'h transaction \<Rightarrow> 'h tx_task" where
  "new_unwatched tx = \<lparr>task_tx = tx, task_watched = False\<rparr>"

abbreviation task_hash :: "'h tx_task \<Rightarrow> 'h" where
  "task_hash task \<equiv> tx_hash (task_tx task)"

abbreviation task_nonce :: "'h tx_task \<Rightarrow> u128" where
  "task_nonce task \<equiv> tx_nonce (task_tx task)"

subsection \<open>The functions of the source\<close>

text \<open>The \<open>while let\<close> loop over the status stream and the code after it.\<close>

fun watch_loop ::
    "'h \<Rightarrow> (system_time \<times> 'h transaction_status) list \<Rightarrow> 'h execution_event list \<times> 'h execution_result" where
  "watch_loop h [] = ([], Exec_Error h)"
| "watch_loop h ((now, status) # stream) =
     (if is_finalized status then ([event_from_status now status], Exec_Done h)
      else if is_error status then ([event_from_status now status], Exec_Error h)
      else (let (es, r) = watch_loop h stream in (event_from_status now status # es, r)))"

text \<open>
  The answers of the sink to one task, each with the clock reading of the event it leads to: what the
  submission returns, the statuses of the stream until it ends, and what the monitor's \<open>wait\<close> returns,
  if the sink has a monitor.
\<close>

record ('e, 'h) sink_answers =
  sent_at :: system_time
  answered_at :: system_time
  watch_answer :: "'e error + (system_time \<times> 'h transaction_status) list"
  submit_answer :: "'e error + 'h"
  monitor_answer :: "(system_time \<times> ('e error + 'h)) option"

definition send_watched_tx ::
    "('e \<Rightarrow> string) \<Rightarrow> 'h tx_task \<Rightarrow> ('e, 'h) sink_answers \<Rightarrow> 'h execution_event list \<times> 'h execution_result" where
  "send_watched_tx show_subxt task a =
     (case watch_answer a of
        Inr stream \<Rightarrow>
          (let (es, r) = watch_loop (task_hash task) stream
           in (event_sent (sent_at a) #
               event_submit_and_watch_result show_subxt (answered_at a) (Inr ()) # es, r))
      | Inl e \<Rightarrow>
          ([event_sent (sent_at a), event_submit_and_watch_result show_subxt (answered_at a) (Inl e)],
           Exec_Error (task_hash task)))"

definition send_tx ::
    "('e \<Rightarrow> string) \<Rightarrow> 'h tx_task \<Rightarrow> ('e, 'h) sink_answers \<Rightarrow> 'h execution_event list \<times> 'h execution_result" where
  "send_tx show_subxt task a =
     (case submit_answer a of
        Inr _ \<Rightarrow>
          (let pushed = [event_sent (sent_at a), event_submit_result show_subxt (answered_at a) (Inr ())]
           in case monitor_answer a of
                Some (now, Inr block_hash) \<Rightarrow>
                  (pushed @ [event_finalized_monitor now block_hash], Exec_Done (task_hash task))
              | Some (now, Inl err) \<Rightarrow>
                  (case err of
                     MortalLifetimeSurpassed block_number \<Rightarrow>
                       (pushed @ [event_mortal_dropped_monitor now block_number], Exec_Error (task_hash task))
                   | _ \<Rightarrow> (pushed @ [event_submit_result show_subxt now (Inl err)], Exec_Error (task_hash task)))
              | None \<Rightarrow> (pushed, Exec_Done (task_hash task)))
      | Inl e \<Rightarrow>
          ([event_sent (sent_at a), event_submit_result show_subxt (answered_at a) (Inl e)],
           Exec_Error (task_hash task)))"

definition execute ::
    "('e \<Rightarrow> string) \<Rightarrow> 'h tx_task \<Rightarrow> ('e, 'h) sink_answers \<Rightarrow> 'h execution_event list \<times> 'h execution_result" where
  "execute show_subxt task a =
     (if task_watched task then send_watched_tx show_subxt task a else send_tx show_subxt task a)"

subsection \<open>The same function cut at its await points\<close>

text \<open>
  Where a task is suspended, and what resumes it: the first poll, or the value of the awaited future.
  \<open>Stream_Reply None\<close> is the end of the stream.
\<close>

datatype 'h task_pc =
    Not_Started
  | At_Submit_And_Watch
  | At_Stream_Next
  | At_Submit
  | At_Monitor_Wait
  | Returned "'h execution_result"

datatype ('e, 'h) reply =
    Poll
  | Watch_Reply "'e error + unit"
  | Stream_Reply "'h transaction_status option"
  | Submit_Reply "'e error + 'h"
  | Monitor_Reply "'e error + 'h"

text \<open>
  One resumption: the events it pushes (at most one) and where the task is then; \<open>None\<close> when the reply
  is not one that the task waits for. \<open>has_monitor\<close> says whether the sink's \<open>transaction_monitor\<close> is
  \<open>Some\<close>.
\<close>

fun task_step ::
    "('e \<Rightarrow> string) \<Rightarrow> bool \<Rightarrow> 'h tx_task \<Rightarrow> system_time \<Rightarrow> 'h task_pc \<Rightarrow> ('e, 'h) reply \<Rightarrow>
       ('h execution_event list \<times> 'h task_pc) option" where
  "task_step show_subxt has_monitor task now Not_Started Poll =
     Some ([event_sent now], if task_watched task then At_Submit_And_Watch else At_Submit)"
| "task_step show_subxt has_monitor task now At_Submit_And_Watch (Watch_Reply (Inr _)) =
     Some ([event_submit_and_watch_result show_subxt now (Inr ())], At_Stream_Next)"
| "task_step show_subxt has_monitor task now At_Submit_And_Watch (Watch_Reply (Inl e)) =
     Some ([event_submit_and_watch_result show_subxt now (Inl e)], Returned (Exec_Error (task_hash task)))"
| "task_step show_subxt has_monitor task now At_Stream_Next (Stream_Reply (Some status)) =
     Some ([event_from_status now status],
       if is_finalized status then Returned (Exec_Done (task_hash task))
       else if is_error status then Returned (Exec_Error (task_hash task))
       else At_Stream_Next)"
| "task_step show_subxt has_monitor task now At_Stream_Next (Stream_Reply None) =
     Some ([], Returned (Exec_Error (task_hash task)))"
| "task_step show_subxt has_monitor task now At_Submit (Submit_Reply (Inr _)) =
     Some ([event_submit_result show_subxt now (Inr ())],
       if has_monitor then At_Monitor_Wait else Returned (Exec_Done (task_hash task)))"
| "task_step show_subxt has_monitor task now At_Submit (Submit_Reply (Inl e)) =
     Some ([event_submit_result show_subxt now (Inl e)], Returned (Exec_Error (task_hash task)))"
| "task_step show_subxt has_monitor task now At_Monitor_Wait (Monitor_Reply (Inr block_hash)) =
     Some ([event_finalized_monitor now block_hash], Returned (Exec_Done (task_hash task)))"
| "task_step show_subxt has_monitor task now At_Monitor_Wait (Monitor_Reply (Inl (MortalLifetimeSurpassed n))) =
     Some ([event_mortal_dropped_monitor now n], Returned (Exec_Error (task_hash task)))"
| "task_step show_subxt has_monitor task now At_Monitor_Wait (Monitor_Reply (Inl err)) =
     Some ([event_submit_result show_subxt now (Inl err)], Returned (Exec_Error (task_hash task)))"
| "task_step show_subxt has_monitor task now _ _ = None"

fun task_run ::
    "('e \<Rightarrow> string) \<Rightarrow> bool \<Rightarrow> 'h tx_task \<Rightarrow> 'h task_pc \<Rightarrow> (system_time \<times> ('e, 'h) reply) list \<Rightarrow>
       ('h execution_event list \<times> 'h task_pc) option" where
  "task_run show_subxt has_monitor task pc [] = Some ([], pc)"
| "task_run show_subxt has_monitor task pc ((now, r) # rs) =
     (case task_step show_subxt has_monitor task now pc r of
        None \<Rightarrow> None
      | Some (es, pc') \<Rightarrow>
          map_option (\<lambda>(es', pc''). (es @ es', pc'')) (task_run show_subxt has_monitor task pc' rs))"

subsection \<open>The reading of a status stream\<close>

lemma take_until_map: "take_until P (map f xs) = map f (take_until (\<lambda>x. P (f x)) xs)"
  by (induction xs) auto

lemma take_until_take: "take_until P xs = take (length (take_until P xs)) xs"
  by (induction xs) auto

lemma watch_loop_events:
  "fst (watch_loop h stream) =
     map (\<lambda>(now, s). TxPoolEvent now s) (take (length (take_until is_terminal (map snd stream))) stream)"
proof (induction stream)
  case (Cons x stream)
  obtain now s where x: "x = (now, s)" by fastforce
  show ?case
    using Cons.IH by (cases s) (auto simp: x event_defs case_prod_beta Let_def)
qed simp

lemma watch_loop_result:
  "snd (watch_loop h stream) =
     (case find is_terminal (map snd stream) of Some (Finalized _) \<Rightarrow> Exec_Done h | _ \<Rightarrow> Exec_Error h)"
proof (induction stream)
  case (Cons x stream)
  obtain now s where x: "x = (now, s)" by fastforce
  show ?case
    using Cons.IH by (cases s) (auto simp: x case_prod_beta Let_def)
qed simp

text \<open>
  C29: a watched task reads its stream up to the first terminal status and no further. It pushes
  \<open>Sent\<close>, the result of the submission and one event per status it read, in order. It is done exactly
  if the first terminal status of the stream is \<open>Finalized\<close>, and in error if that status is an error or
  the stream ends without a terminal status.
\<close>

theorem send_watched_tx_reads_until_terminal:
  assumes "watch_answer a = Inr stream"
  shows "fst (send_watched_tx show_subxt task a) =
      [Sent (sent_at a), SubmitAndWatchResult (answered_at a) (Inr ())] @
      map (\<lambda>(now, s). TxPoolEvent now s)
        (take (length (take_until is_terminal (map snd stream))) stream) \<and>
    snd (send_watched_tx show_subxt task a) =
      (case find is_terminal (map snd stream) of
         Some (Finalized _) \<Rightarrow> Exec_Done (task_hash task) | _ \<Rightarrow> Exec_Error (task_hash task))"
  by (simp add: send_watched_tx_def assms case_prod_beta watch_loop_events watch_loop_result event_defs)

theorem send_watched_tx_reads_until_terminal_witness:
  "snd (send_watched_tx (\<lambda>e :: unit. ''e'') (new_watched \<lparr>tx_hash = 7 :: nat, tx_nonce = 0, tx_valid_until = None,
       tx_account_metadata = No_Account\<rparr>)
     \<lparr>sent_at = System_Time 1, answered_at = System_Time 2,
      watch_answer = Inr [(System_Time 3, InBlock 1), (System_Time 4, Finalized 1), (System_Time 5, Invalid ''x'')],
      submit_answer = Inr 7, monitor_answer = None\<rparr>) = Exec_Done 7"
  by (subst conjunct2 [OF send_watched_tx_reads_until_terminal, OF sink_answers.select_convs(3)])
    (simp add: new_watched_def)

subsection \<open>The two forms agree\<close>

lemma task_run_append:
  "task_run show_subxt hm task pc (rs @ rs') =
     (case task_run show_subxt hm task pc rs of
        None \<Rightarrow> None
      | Some (es, pc') \<Rightarrow>
          map_option (\<lambda>(es', pc''). (es @ es', pc'')) (task_run show_subxt hm task pc' rs'))"
proof (induction rs arbitrary: pc)
  case Nil
  show ?case by (cases "task_run show_subxt hm task pc rs'") auto
next
  case (Cons r rs)
  obtain now x where "r = (now, x)" by fastforce
  with Cons show ?case
    by (auto simp: option.map_comp comp_def case_prod_beta split: option.splits)
qed

lemma task_run_snoc:
  assumes "task_run show_subxt hm task pc rs = Some (es, pc')"
    and "task_step show_subxt hm task now pc' r = Some (es', pc'')"
  shows "task_run show_subxt hm task pc (rs @ [(now, r)]) = Some (es @ es', pc'')"
  by (simp add: task_run_append assms)

lemma task_step_Returned [simp]: "task_step show_subxt hm task now (Returned x) r = None"
  by (cases r) auto

lemma task_run_Returned: "task_run show_subxt hm task (Returned x) rs = Some (es, pc) \<longleftrightarrow> rs = [] \<and> es = [] \<and> pc = Returned x"
  by (cases rs) auto

text \<open>The replies that carry given answers of the sink to a task.\<close>

definition stream_replies ::
    "system_time \<Rightarrow> (system_time \<times> 'h transaction_status) list \<Rightarrow> (system_time \<times> ('e, 'h) reply) list" where
  "stream_replies now stream =
     map (\<lambda>(i, s). (i, Stream_Reply (Some s))) (take_until (\<lambda>x. is_terminal (snd x)) stream) @
     (if \<exists>x \<in> set stream. is_terminal (snd x) then [] else [(now, Stream_Reply None)])"

lemma task_run_stream:
  "task_run show_subxt hm task At_Stream_Next (stream_replies now stream) =
     Some (fst (watch_loop (task_hash task) stream), Returned (snd (watch_loop (task_hash task) stream)))"
proof (induction stream)
  case Nil
  show ?case by (simp add: stream_replies_def)
next
  case (Cons x stream)
  obtain i s where x: "x = (i, s)" by fastforce
  show ?case
    using Cons.IH by (cases s) (auto simp: x stream_replies_def case_prod_beta Let_def)
qed

lemma watch_loop_steps:
  assumes "task_run show_subxt hm task At_Stream_Next rs = Some (es, Returned r)"
  shows "\<exists>stream. watch_loop (task_hash task) stream = (es, r)"
  using assms
proof (induction rs arbitrary: es)
  case (Cons x rs)
  obtain now y where x: "x = (now, y)" by fastforce
  show ?case
  proof (cases y)
    case (Stream_Reply st)
    show ?thesis
    proof (cases st)
      case None
      then have "es = []" "r = Exec_Error (task_hash task)"
        using Cons.prems by (auto simp: x Stream_Reply task_run_Returned)
      then show ?thesis by (intro exI [of _ "[]"]) simp
    next
      case (Some s)
      show ?thesis
      proof (cases "is_terminal s")
        case True
        then have "watch_loop (task_hash task) [(now, s)] = (es, r)"
          using Cons.prems
          by (auto simp: x Stream_Reply Some txs.terminal_iff task_run_Returned split: if_splits)
        then show ?thesis by blast
      next
        case False
        then obtain es' where es: "es = event_from_status now s # es'"
          and run: "task_run show_subxt hm task At_Stream_Next rs = Some (es', Returned r)"
          using Cons.prems by (auto simp: x Stream_Reply Some txs.not_terminal)
        obtain stream where "watch_loop (task_hash task) stream = (es', r)" using Cons.IH [OF run] by blast
        then have "watch_loop (task_hash task) ((now, s) # stream) = (es, r)"
          using False by (auto simp: es txs.not_terminal)
        then show ?thesis by blast
      qed
    qed
  qed (use Cons.prems in \<open>simp_all add: x\<close>)
qed simp

definition answer_replies ::
    "'h tx_task \<Rightarrow> ('e, 'h) sink_answers \<Rightarrow> (system_time \<times> ('e, 'h) reply) list" where
  "answer_replies task a =
     (sent_at a, Poll) #
     (if task_watched task
      then (case watch_answer a of
              Inl e \<Rightarrow> [(answered_at a, Watch_Reply (Inl e))]
            | Inr stream \<Rightarrow> (answered_at a, Watch_Reply (Inr ())) # stream_replies (answered_at a) stream)
      else (answered_at a, Submit_Reply (submit_answer a)) #
        (case (submit_answer a, monitor_answer a) of
           (Inr _, Some (now, r)) \<Rightarrow> [(now, Monitor_Reply r)] | _ \<Rightarrow> []))"

lemma execute_steps:
  assumes "hm \<longleftrightarrow> monitor_answer a \<noteq> None"
  shows "task_run show_subxt hm task Not_Started (answer_replies task a) =
    Some (fst (execute show_subxt task a), Returned (snd (execute show_subxt task a)))"
  using assms
  by (auto simp: answer_replies_def execute_def send_watched_tx_def send_tx_def Let_def task_run_stream
      case_prod_beta split: sum.split option.split error.split)

text \<open>A run that returns consists of the first poll, the reply to the submission, and what follows it.\<close>

lemma task_run_Cons_Returned:
  "task_run show_subxt hm task pc rs = Some (es, Returned r) \<Longrightarrow> pc \<noteq> Returned r \<Longrightarrow>
   \<exists>now y rs' es1 pc1 es2. rs = (now, y) # rs' \<and> task_step show_subxt hm task now pc y = Some (es1, pc1) \<and>
     task_run show_subxt hm task pc1 rs' = Some (es2, Returned r) \<and> es = es1 @ es2"
  by (cases rs) (auto split: option.splits)

lemma not_started_step:
  "task_step show_subxt hm task now Not_Started y = Some (es, pc) \<longleftrightarrow>
     y = Poll \<and> es = [event_sent now] \<and> pc = (if task_watched task then At_Submit_And_Watch else At_Submit)"
  by (cases y) auto

lemma watched_steps:
  fixes show_subxt :: "'e \<Rightarrow> string" and task :: "'h tx_task"
  assumes "task_run show_subxt hm task At_Submit_And_Watch rs = Some (es, Returned r)" and "task_watched task"
  shows "\<exists>a. (monitor_answer a \<noteq> None) = hm \<and> execute show_subxt task (a\<lparr>sent_at := t\<rparr>) = (event_sent t # es, r)"
proof -
  obtain now y rs' es1 pc1 es2 where step: "task_step show_subxt hm task now At_Submit_And_Watch y = Some (es1, pc1)"
    and run: "task_run show_subxt hm task pc1 rs' = Some (es2, Returned r)" and es: "es = es1 @ es2"
    using task_run_Cons_Returned [OF assms(1)] by auto
  define a where "a w = \<lparr>sent_at = t, answered_at = now, watch_answer = w, submit_answer = Inr (task_hash task),
    monitor_answer = (if hm then Some (now, Inr (task_hash task)) else None)\<rparr>"
    for w :: "'e error + (system_time \<times> 'h transaction_status) list"
  have hm: "(monitor_answer (a w) \<noteq> None) = hm" for w by (simp add: a_def)
  obtain w where y: "y = Watch_Reply w" using step by (cases y) auto
  show ?thesis
  proof (cases w)
    case (Inl e)
    then have "execute show_subxt task ((a (Inl e))\<lparr>sent_at := t\<rparr>) = (event_sent t # es, r)"
      using step run assms(2)
      by (auto simp: y es execute_def send_watched_tx_def a_def task_run_Returned)
    then show ?thesis using hm by blast
  next
    case (Inr u)
    then have pc1: "pc1 = At_Stream_Next" and es1: "es1 = [event_submit_and_watch_result show_subxt now (Inr ())]"
      using step by (auto simp: y)
    obtain stream where "watch_loop (task_hash task) stream = (es2, r)"
      using watch_loop_steps run pc1 by blast
    then have "execute show_subxt task ((a (Inr stream))\<lparr>sent_at := t\<rparr>) = (event_sent t # es, r)"
      using assms(2) by (simp add: es es1 execute_def send_watched_tx_def a_def)
    then show ?thesis using hm by blast
  qed
qed

lemma unwatched_steps:
  fixes show_subxt :: "'e \<Rightarrow> string" and task :: "'h tx_task"
  assumes "task_run show_subxt hm task At_Submit rs = Some (es, Returned r)" and "\<not> task_watched task"
  shows "\<exists>a. (monitor_answer a \<noteq> None) = hm \<and> execute show_subxt task (a\<lparr>sent_at := t\<rparr>) = (event_sent t # es, r)"
proof -
  obtain now y rs' es1 pc1 es2 where step: "task_step show_subxt hm task now At_Submit y = Some (es1, pc1)"
    and run: "task_run show_subxt hm task pc1 rs' = Some (es2, Returned r)" and es: "es = es1 @ es2"
    using task_run_Cons_Returned [OF assms(1)] by auto
  define a where "a w m = \<lparr>sent_at = t, answered_at = now, watch_answer = Inr [], submit_answer = w,
    monitor_answer = (if hm then Some m else None)\<rparr>"
    for w :: "'e error + 'h" and m
  have hm: "(monitor_answer (a w m) \<noteq> None) = hm" for w m by (simp add: a_def)
  obtain w where y: "y = Submit_Reply w" using step by (cases y) auto
  show ?thesis
  proof (cases "(\<exists>u. w = Inr u) \<and> hm")
    case False
    then have "execute show_subxt task ((a w undefined)\<lparr>sent_at := t\<rparr>) = (event_sent t # es, r)"
      using step run assms(2)
      by (cases w) (auto simp: y es execute_def send_tx_def a_def task_run_Returned split: if_splits)
    then show ?thesis using hm by blast
  next
    case True
    then obtain u where w: "w = Inr u" and "hm" by auto
    then have pc1: "pc1 = At_Monitor_Wait" and es1: "es1 = [event_submit_result show_subxt now (Inr ())]"
      using step by (auto simp: y)
    obtain now2 y2 rs2 es3 pc3 es4 where step2: "task_step show_subxt hm task now2 At_Monitor_Wait y2 = Some (es3, pc3)"
      and run2: "task_run show_subxt hm task pc3 rs2 = Some (es4, Returned r)" and es2: "es2 = es3 @ es4"
      using task_run_Cons_Returned [OF run] by (auto simp: pc1)
    obtain m where y2: "y2 = Monitor_Reply m" using step2 by (cases y2) auto
    have "execute show_subxt task ((a w (now2, m))\<lparr>sent_at := t\<rparr>) = (event_sent t # es, r)"
    proof (cases m)
      case (Inl e)
      then show ?thesis using step2 run2 assms(2) \<open>hm\<close>
        by (cases e) (auto simp: y2 w es es1 es2 execute_def send_tx_def a_def task_run_Returned)
    next
      case (Inr b)
      then show ?thesis using step2 run2 assms(2) \<open>hm\<close>
        by (auto simp: y2 w es es1 es2 execute_def send_tx_def a_def task_run_Returned)
    qed
    then show ?thesis using hm by blast
  qed
qed

lemma steps_execute:
  assumes "task_run show_subxt hm task Not_Started rs = Some (es, Returned r)"
  shows "\<exists>a. (monitor_answer a \<noteq> None) = hm \<and> execute show_subxt task a = (es, r)"
proof -
  from assms obtain t rs' pc es2 where pc: "pc = (if task_watched task then At_Submit_And_Watch else At_Submit)"
    and run: "task_run show_subxt hm task pc rs' = Some (es2, Returned r)" and es: "es = event_sent t # es2"
    using task_run_Cons_Returned [of show_subxt hm task Not_Started] by (fastforce simp: not_started_step)
  show ?thesis
  proof (cases "task_watched task")
    case True
    then obtain a where "(monitor_answer a \<noteq> None) = hm"
      "execute show_subxt task (a\<lparr>sent_at := t\<rparr>) = (es, r)"
      using watched_steps [of show_subxt hm task rs' es2 r t] run pc es by auto
    then show ?thesis by (intro exI [of _ "a\<lparr>sent_at := t\<rparr>"]) simp
  next
    case False
    then obtain a where "(monitor_answer a \<noteq> None) = hm"
      "execute show_subxt task (a\<lparr>sent_at := t\<rparr>) = (es, r)"
      using unwatched_steps [of show_subxt hm task rs' es2 r t] run pc es by auto
    then show ?thesis by (intro exI [of _ "a\<lparr>sent_at := t\<rparr>"]) simp
  qed
qed

text \<open>
  Cutting \<open>execute\<close> at its await points loses nothing and adds nothing: the complete runs of the small
  steps, over all replies that a sink can give, are exactly the executions of the function for all
  answers of the sink, with the same pushed events and the same result.
\<close>

theorem task_steps_iff_execute:
  "(\<exists>rs. task_run show_subxt has_monitor task Not_Started rs = Some (es, Returned r)) \<longleftrightarrow>
   (\<exists>a. (monitor_answer a \<noteq> None) = has_monitor \<and> execute show_subxt task a = (es, r))"
proof
  assume "\<exists>rs. task_run show_subxt has_monitor task Not_Started rs = Some (es, Returned r)"
  then show "\<exists>a. (monitor_answer a \<noteq> None) = has_monitor \<and> execute show_subxt task a = (es, r)"
    using steps_execute by blast
next
  assume "\<exists>a. (monitor_answer a \<noteq> None) = has_monitor \<and> execute show_subxt task a = (es, r)"
  then obtain a where "(monitor_answer a \<noteq> None) = has_monitor" "execute show_subxt task a = (es, r)" by blast
  then show "\<exists>rs. task_run show_subxt has_monitor task Not_Started rs = Some (es, Returned r)"
    using execute_steps [of has_monitor a show_subxt task] by (intro exI) auto
qed

subsection \<open>How many results a task records\<close>

definition count_kind :: "counter_kind \<Rightarrow> 'h execution_event list \<Rightarrow> nat" where
  "count_kind k es = length (filter (\<lambda>e. kind_of e = Some k) es)"

definition watch_results :: "'h execution_event list \<Rightarrow> nat" where
  "watch_results es = count_kind K_Watch_Success es + count_kind K_Watch_Error es"

definition submit_results :: "'h execution_event list \<Rightarrow> nat" where
  "submit_results es = count_kind K_Submit_Success es + count_kind K_Submit_Error es"

lemma count_kind_simps [simp]:
  "count_kind k [] = 0"
  "count_kind k (e # es) = (if kind_of e = Some k then 1 else 0) + count_kind k es"
  "count_kind k (es @ es') = count_kind k es + count_kind k es'"
  by (simp_all add: count_kind_def)

lemma kind_count_events: "kind_count k l = count_kind k (log_events l)"
  by (simp add: kind_count_def count_kind_def)

lemma results_append [simp]:
  "watch_results (es @ es') = watch_results es + watch_results es'"
  "submit_results (es @ es') = submit_results es + submit_results es'"
  by (simp_all add: watch_results_def submit_results_def)

text \<open>The tasks that have not been told yet what became of their submission.\<close>

fun awaiting :: "'h task_pc \<Rightarrow> bool" where
  "awaiting Not_Started = True"
| "awaiting At_Submit_And_Watch = True"
| "awaiting At_Submit = True"
| "awaiting _ = False"

definition task_inv :: "bool \<Rightarrow> 'h tx_task \<Rightarrow> 'h task_pc \<Rightarrow> 'h execution_event list \<Rightarrow> bool" where
  "task_inv hm task pc es \<longleftrightarrow>
     (pc = At_Monitor_Wait \<longrightarrow> hm) \<and>
     (task_watched task \<longrightarrow> pc \<noteq> At_Submit \<and> pc \<noteq> At_Monitor_Wait) \<and>
     (\<not> task_watched task \<longrightarrow> pc \<noteq> At_Submit_And_Watch \<and> pc \<noteq> At_Stream_Next) \<and>
     count_kind K_Popped es = 0 \<and>
     watch_results es = (if task_watched task \<and> \<not> awaiting pc then 1 else 0) \<and>
     (if task_watched task \<or> awaiting pc then submit_results es = 0
      else submit_results es = 1 \<or> submit_results es = 2 \<and> hm \<and> (\<exists>h. pc = Returned (Exec_Error h))) \<and>
     (\<forall>r. pc = Returned r \<longrightarrow> result_hash r = task_hash task)"

lemma kind_of_status:
  "kind_of (event_from_status now s) \<noteq> Some K_Popped"
  "kind_of (event_from_status now s) \<noteq> Some K_Watch_Success"
  "kind_of (event_from_status now s) \<noteq> Some K_Watch_Error"
  "kind_of (event_from_status now s) \<noteq> Some K_Submit_Success"
  "kind_of (event_from_status now s) \<noteq> Some K_Submit_Error"
  by (cases s; simp add: event_defs)+

lemma kind_of_submitted:
  "kind_of (event_submit_and_watch_result show_subxt now r) =
     Some (case r of Inl _ \<Rightarrow> K_Watch_Error | Inr _ \<Rightarrow> K_Watch_Success)"
  "kind_of (event_submit_result show_subxt now r) =
     Some (case r of Inl _ \<Rightarrow> K_Submit_Error | Inr _ \<Rightarrow> K_Submit_Success)"
  "kind_of (event_sent now) = Some K_Sent"
  "kind_of (event_popped now) = Some K_Popped"
  "kind_of (event_finalized_monitor now b) = Some K_Finalized_Monitor"
  "kind_of (event_mortal_dropped_monitor now n) = Some K_Mortal_Dropped"
  by (cases r; simp add: event_defs)+

lemma task_inv_start: "task_inv hm task Not_Started []"
  by (simp add: task_inv_def watch_results_def submit_results_def)

lemma task_inv_step:
  assumes "task_step show_subxt hm task now pc r = Some (es', pc')" and "task_inv hm task pc es"
  shows "task_inv hm task pc' (es @ es')"
  using assms
  by (cases "(show_subxt, hm, task, now, pc, r)" rule: task_step.cases)
    (auto simp: task_inv_def watch_results_def submit_results_def kind_of_submitted kind_of_status split: if_splits)

lemma task_inv_run:
  "task_run show_subxt hm task pc rs = Some (es', pc') \<Longrightarrow> task_inv hm task pc es \<Longrightarrow> task_inv hm task pc' (es @ es')"
proof (induction rs arbitrary: pc es es')
  case (Cons x rs)
  obtain now r where "x = (now, r)" by fastforce
  with Cons.prems(1) obtain es1 pc1 es2 where "task_step show_subxt hm task now pc r = Some (es1, pc1)"
    and "task_run show_subxt hm task pc1 rs = Some (es2, pc')" and "es' = es1 @ es2"
    by (auto split: option.splits)
  then show ?case using Cons.IH task_inv_step Cons.prems(2) by (metis append.assoc)
qed simp

lemma task_run_inv: "task_run show_subxt hm task Not_Started rs = Some (es, pc) \<Longrightarrow> task_inv hm task pc es"
  using task_inv_run [OF _ task_inv_start] by simp

text \<open>
  An execution records the result of its submission exactly once, as an event of its own kind, except
  that an unwatched task records a second \<open>SubmitResult\<close> when its submission succeeded and the monitor
  then answers with an error that is not the end of the mortal lifetime.
\<close>

lemma execute_submission_results:
  "watch_results (fst (execute show_subxt task a)) = (if task_watched task then 1 else 0) \<and>
   submit_results (fst (execute show_subxt task a)) =
     (if task_watched task then 0
      else case (submit_answer a, monitor_answer a) of
        (Inr _, Some (_, Inl (Subxt _))) \<Rightarrow> 2
      | (Inr _, Some (_, Inl (Other _))) \<Rightarrow> 2
      | _ \<Rightarrow> 1)"
proof (cases "task_watched task")
  case True
  have "task_run show_subxt (monitor_answer a \<noteq> None) task Not_Started (answer_replies task a) =
    Some (fst (execute show_subxt task a), Returned (snd (execute show_subxt task a)))"
    by (rule execute_steps) simp
  from task_run_inv [OF this] True show ?thesis by (simp add: task_inv_def)
next
  case False
  then show ?thesis
    by (auto simp: execute_def send_tx_def watch_results_def submit_results_def kind_of_submitted Let_def
        split: sum.splits option.splits error.splits)
qed

lemma finalized_in_watch_loop:
  "(\<exists>now b. TxPoolEvent now (Finalized b) \<in> set (fst (watch_loop h stream))) \<longleftrightarrow> snd (watch_loop h stream) = Exec_Done h"
  "snd (watch_loop h stream) = Exec_Done h \<or> snd (watch_loop h stream) = Exec_Error h"
  by (induction h stream rule: watch_loop.induct)
    (auto simp: event_defs case_prod_beta elim: is_finalized.elims)

text \<open>
  C28: the log of an execution tells its verdict. A watched task is done exactly if a \<open>Finalized\<close> status is
  among its events, an unwatched one exactly if no failed \<open>SubmitResult\<close> and no end of its lifetime is among
  them; otherwise it is an error, and both name the hash of the task. The result of the submission is
  recorded once, as an event of the kind of the task, except that an unwatched task records a second
  \<open>SubmitResult\<close> when it was accepted and the monitor then fails with another error than the end of the lifetime.
\<close>

theorem execution_told_by_log:
  "snd (execute show_subxt task a) =
     (if if task_watched task
         then \<exists>now b. TxPoolEvent now (Finalized b) \<in> set (fst (execute show_subxt task a))
         else (\<nexists>now err. SubmitResult now (Inl err) \<in> set (fst (execute show_subxt task a))) \<and>
           (\<nexists>now n. MortalDroppedMonitor now n \<in> set (fst (execute show_subxt task a)))
      then Exec_Done (task_hash task) else Exec_Error (task_hash task)) \<and>
   watch_results (fst (execute show_subxt task a)) = (if task_watched task then 1 else 0) \<and>
   submit_results (fst (execute show_subxt task a)) =
     (if task_watched task then 0
      else case (submit_answer a, monitor_answer a) of
        (Inr _, Some (_, Inl (Subxt _))) \<Rightarrow> 2
      | (Inr _, Some (_, Inl (Other _))) \<Rightarrow> 2
      | _ \<Rightarrow> 1)"
proof (intro conjI execute_submission_results [THEN conjunct1] execute_submission_results [THEN conjunct2])
  show "snd (execute show_subxt task a) =
     (if if task_watched task
         then \<exists>now b. TxPoolEvent now (Finalized b) \<in> set (fst (execute show_subxt task a))
         else (\<nexists>now err. SubmitResult now (Inl err) \<in> set (fst (execute show_subxt task a))) \<and>
           (\<nexists>now n. MortalDroppedMonitor now n \<in> set (fst (execute show_subxt task a)))
      then Exec_Done (task_hash task) else Exec_Error (task_hash task))"
  proof (cases "task_watched task")
    case True
    then show ?thesis
      using finalized_in_watch_loop [of "task_hash task"]
      by (cases "watch_answer a") (auto simp: execute_def send_watched_tx_def event_defs case_prod_beta)
  next
    case False
    then show ?thesis
      by (auto simp: execute_def send_tx_def event_defs Let_def split: sum.split option.split error.split)
  qed
qed

end
