(* ===== verification/Fake_Transaction.thy ===== *)
theory Fake_Transaction
  imports Transaction
begin

section \<open>The fake transaction\<close>

text \<open>
  The model of \<open>src/fake_transaction.rs\<close>: the four-byte hash, the scripted status events, the
  transaction with its constructors, the stream of a watched and the result of an unwatched submission.
  The functions of the crate \<open>hex\<close> are parameters: \<open>hex_encode\<close> on a list of bytes and \<open>hex_decode4\<close>,
  the decoding of a string into exactly four bytes.
\<close>

subsection \<open>Hashes\<close>

datatype fake_hash = Fake_Hash u8 u8 u8 u8

fun fake_hash_bytes :: "fake_hash \<Rightarrow> u8 list" where
  "fake_hash_bytes (Fake_Hash a b c d) = [a, b, c, d]"

definition to_le_bytes :: "u32 \<Rightarrow> fake_hash" where
  "to_le_bytes i =
     Fake_Hash (of_nat (unat i)) (of_nat (unat i div 2 ^ 8)) (of_nat (unat i div 2 ^ 16))
       (of_nat (unat i div 2 ^ 24))"

definition fake_hash_display :: "(u8 list \<Rightarrow> string) \<Rightarrow> fake_hash \<Rightarrow> string" where
  "fake_hash_display hex_encode h = hex_encode (fake_hash_bytes h)"

definition fake_hash_from_str ::
    "(string \<Rightarrow> (u8 \<times> u8 \<times> u8 \<times> u8) option) \<Rightarrow> string \<Rightarrow> string + fake_hash" where
  "fake_hash_from_str hex_decode4 s =
     (case hex_decode4 s of
        None \<Rightarrow> Inl ''hex::decode failed''
      | Some (a, b, c, d) \<Rightarrow> Inr (Fake_Hash a b c d))"

definition string_from_fake_hash :: "(u8 list \<Rightarrow> string) \<Rightarrow> fake_hash \<Rightarrow> string" where
  "string_from_fake_hash hex_encode h = hex_encode (fake_hash_bytes h)"

definition fake_hash_try_from ::
    "(string \<Rightarrow> (u8 \<times> u8 \<times> u8 \<times> u8) option) \<Rightarrow> string \<Rightarrow> string + fake_hash" where
  "fake_hash_try_from hex_decode4 s = fake_hash_from_str hex_decode4 s"

lemma of_nat_u8_eq: "(of_nat m :: u8) = of_nat n \<longleftrightarrow> m mod 256 = n mod 256"
  by (simp add: word_of_nat_eq_iff take_bit_nat_def)

lemma base256_digits:
  "n < 2 ^ 32 \<Longrightarrow> (n :: nat) =
     n mod 256 + 2 ^ 8 * (n div 2 ^ 8 mod 256) + 2 ^ 16 * (n div 2 ^ 16 mod 256) + 2 ^ 24 * (n div 2 ^ 24 mod 256)"
proof -
  assume n: "n < 2 ^ 32"
  have a: "n = n mod 256 + 256 * (n div 256)" by simp
  have b: "n div 256 = n div 256 mod 256 + 256 * (n div 65536)"
    using div_mult2_eq [of n 256 256] by simp
  have c: "n div 65536 = n div 65536 mod 256 + 256 * (n div 16777216)"
    using div_mult2_eq [of n 65536 256] by simp
  have d: "n div 16777216 mod 256 = n div 16777216" using n by (simp add: less_mult_imp_div_less)
  have "n = n mod 256 + 256 * (n div 256 mod 256) + 65536 * (n div 65536 mod 256) +
      16777216 * (n div 16777216)"
    using a b c by linarith
  then show ?thesis by (simp add: d)
qed

text \<open>Transactions with different indices have different hashes.\<close>

lemma to_le_bytes_inject [simp]: "to_le_bytes i = to_le_bytes j \<longleftrightarrow> i = j"
proof
  assume eq: "to_le_bytes i = to_le_bytes j"
  have "unat i < 2 ^ 32" "unat j < 2 ^ 32" using unat_bound [of i] unat_bound [of j] by simp_all
  then have "unat i = unat j"
    using eq base256_digits [of "unat i"] base256_digits [of "unat j"]
    by (simp add: to_le_bytes_def of_nat_u8_eq del: of_nat_unat)
  then show "i = j" by (simp add: word_unat_eq_iff)
qed simp

subsection \<open>Scripted events\<close>

record event_def =
  ed_event :: "fake_hash transaction_status"
  ed_delay :: u32

definition ed_validated :: "u32 \<Rightarrow> event_def" where
  "ed_validated delay = \<lparr>ed_event = Validated, ed_delay = delay\<rparr>"

definition ed_broadcasted :: "u32 \<Rightarrow> event_def" where
  "ed_broadcasted delay = \<lparr>ed_event = Broadcasted, ed_delay = delay\<rparr>"

definition ed_in_block :: "u32 \<Rightarrow> u32 \<Rightarrow> event_def" where
  "ed_in_block h delay = \<lparr>ed_event = InBlock (to_le_bytes h), ed_delay = delay\<rparr>"

definition ed_finalized :: "u32 \<Rightarrow> u32 \<Rightarrow> event_def" where
  "ed_finalized h delay = \<lparr>ed_event = Finalized (to_le_bytes h), ed_delay = delay\<rparr>"

definition ed_dropped :: "u32 \<Rightarrow> event_def" where
  "ed_dropped delay = \<lparr>ed_event = Dropped ''xxx'', ed_delay = delay\<rparr>"

definition ed_invalid :: "u32 \<Rightarrow> event_def" where
  "ed_invalid delay = \<lparr>ed_event = Invalid ''xxx'', ed_delay = delay\<rparr>"

definition ed_error :: "u32 \<Rightarrow> event_def" where
  "ed_error delay = \<lparr>ed_event = StatusError ''xxx'', ed_delay = delay\<rparr>"

lemmas event_def_defs = ed_validated_def ed_broadcasted_def ed_in_block_def ed_finalized_def
  ed_dropped_def ed_invalid_def ed_error_def

type_synonym events_stream_def = "event_def list"

subsection \<open>Transactions\<close>

record fake_transaction =
  ft_hash :: fake_hash
  ft_stream_def :: "events_stream_def list"
  ft_current_stream_def :: usize
  ft_nonce :: u128
  ft_account_metadata :: account_metadata

definition fake_as_transaction :: "fake_transaction \<Rightarrow> fake_hash transaction" where
  "fake_as_transaction t =
     \<lparr>tx_hash = ft_hash t, tx_nonce = ft_nonce t, tx_valid_until = None,
      tx_account_metadata = ft_account_metadata t\<rparr>"

definition get_current_stream_def :: "fake_transaction \<Rightarrow> events_stream_def res" where
  "get_current_stream_def t =
     (if unat (ft_current_stream_def t) < length (ft_stream_def t)
      then Inr (ft_stream_def t ! unat (ft_current_stream_def t)) else Inl Index_Out_Of_Bounds)"

definition ft_new_multiple :: "u32 \<Rightarrow> u128 \<Rightarrow> events_stream_def list \<Rightarrow> fake_transaction" where
  "ft_new_multiple index nonce stream_def =
     \<lparr>ft_hash = to_le_bytes index, ft_stream_def = stream_def, ft_current_stream_def = 0,
      ft_nonce = nonce, ft_account_metadata = Derived index\<rparr>"

definition byte_at :: "string \<Rightarrow> nat \<Rightarrow> u8 res" where
  "byte_at s i = (if i < length s then Inr (of_char (s ! i)) else Inl Index_Out_Of_Bounds)"

definition ft_new_with_keyring ::
    "string \<Rightarrow> u128 \<Rightarrow> events_stream_def list \<Rightarrow> fake_transaction res" where
  "ft_new_with_keyring account nonce stream_def =
     res_bind (byte_at account 0) (\<lambda>b0.
     res_bind (byte_at account 1) (\<lambda>b1.
     res_bind (byte_at account 2) (\<lambda>b2.
     res_bind (byte_at account 3) (\<lambda>b3.
       Inr \<lparr>ft_hash = Fake_Hash b0 b1 b2 b3, ft_stream_def = stream_def, ft_current_stream_def = 0,
            ft_nonce = nonce, ft_account_metadata = KeyRing account\<rparr>))))"

definition ft_new :: "u32 \<Rightarrow> u128 \<Rightarrow> events_stream_def \<Rightarrow> fake_transaction" where
  "ft_new index nonce stream_def =
     \<lparr>ft_hash = to_le_bytes index, ft_stream_def = [stream_def], ft_current_stream_def = 0,
      ft_nonce = nonce, ft_account_metadata = Derived index\<rparr>"

definition ft_new_inblock_then_droppable_2nd_success :: "u32 \<Rightarrow> u128 \<Rightarrow> u32 \<Rightarrow> fake_transaction" where
  "ft_new_inblock_then_droppable_2nd_success hash nonce delay =
     ft_new_multiple hash nonce
       [[ed_broadcasted delay, ed_validated delay, ed_in_block 1 delay, ed_in_block 2 delay,
         ed_in_block 3 delay, ed_dropped delay],
        [ed_broadcasted delay, ed_validated delay, ed_in_block 1 delay, ed_in_block 2 delay,
         ed_in_block 3 delay, ed_finalized 2 delay]]"

definition ft_new_droppable_2nd_success :: "u32 \<Rightarrow> u128 \<Rightarrow> u32 \<Rightarrow> fake_transaction" where
  "ft_new_droppable_2nd_success hash nonce delay =
     ft_new_multiple hash nonce
       [[ed_dropped delay],
        [ed_broadcasted delay, ed_validated delay, ed_in_block 1 delay, ed_in_block 2 delay,
         ed_in_block 3 delay, ed_finalized 2 delay]]"

definition ft_new_droppable_loop :: "u32 \<Rightarrow> u128 \<Rightarrow> u32 \<Rightarrow> fake_transaction" where
  "ft_new_droppable_loop hash nonce delay =
     ft_new_multiple hash nonce
       [[ed_dropped delay], [ed_dropped delay], [ed_dropped delay], [ed_dropped delay], [ed_dropped delay]]"

definition ft_new_droppable :: "u32 \<Rightarrow> u128 \<Rightarrow> u32 \<Rightarrow> fake_transaction" where
  "ft_new_droppable hash nonce delay = ft_new hash nonce [ed_dropped delay]"

definition ft_new_invalid :: "u32 \<Rightarrow> u128 \<Rightarrow> u32 \<Rightarrow> fake_transaction" where
  "ft_new_invalid hash nonce delay = ft_new hash nonce [ed_invalid delay]"

definition ft_new_error :: "u32 \<Rightarrow> u128 \<Rightarrow> u32 \<Rightarrow> fake_transaction" where
  "ft_new_error hash nonce delay = ft_new hash nonce [ed_error delay]"

definition ft_new_finalizable_quick :: "u32 \<Rightarrow> u128 \<Rightarrow> fake_transaction" where
  "ft_new_finalizable_quick hash nonce =
     (let delay = 0 in
      ft_new hash nonce
        [ed_broadcasted delay, ed_validated delay, ed_in_block 1 delay, ed_in_block 2 delay,
         ed_in_block 3 delay, ed_finalized 2 delay])"

definition ft_new_finalizable :: "u32 \<Rightarrow> u128 \<Rightarrow> fake_transaction" where
  "ft_new_finalizable hash nonce =
     ft_new hash nonce
       [ed_broadcasted 100, ed_validated 300, ed_in_block 1 1000, ed_in_block 2 1000,
        ed_in_block 3 1000, ed_finalized 2 2000]"

lemmas ft_constructor_defs = ft_new_inblock_then_droppable_2nd_success_def
  ft_new_droppable_2nd_success_def ft_new_droppable_loop_def ft_new_droppable_def ft_new_invalid_def
  ft_new_error_def ft_new_finalizable_quick_def ft_new_finalizable_def ft_new_multiple_def ft_new_def

subsection \<open>The stream of a watched and the result of an unwatched submission\<close>

text \<open>
  The stream yields the scripted events in order, each after its delay in milliseconds, and then ends.
  It is modelled by the list of what it yields, each status with the delay before it.
\<close>

definition ft_events :: "fake_transaction \<Rightarrow> (fake_hash transaction_status \<times> u32) list res" where
  "ft_events t =
     res_bind (get_current_stream_def t) (\<lambda>def. Inr (map (\<lambda>d. (ed_event d, ed_delay d)) def))"

definition submit_result :: "fake_transaction \<Rightarrow> ('e error + fake_hash) res" where
  "submit_result t =
     res_bind (get_current_stream_def t) (\<lambda>def.
     res_bind (opt_expect ''there shall be at least event. qed.''
                (if def = [] then None else Some (last def))) (\<lambda>d.
       (case ed_event d of
          Finalized _ \<Rightarrow> Inr (Inr (ft_hash t))
        | Dropped m \<Rightarrow> Inr (Inl (Other (''submit-error:dropped:'' @ m)))
        | Invalid m \<Rightarrow> Inr (Inl (Other (''submit-error:invalid:'' @ m)))
        | StatusError m \<Rightarrow> Inr (Inl (Other (''submit-error:error:'' @ m)))
        | Validated \<Rightarrow> Inl Todo
        | NoLongerInBestBlock \<Rightarrow> Inl Todo
        | Broadcasted \<Rightarrow> Inl Todo
        | InBlock _ \<Rightarrow> Inl Todo)))"

text \<open>
  C40: the two ways of submitting a fake transaction agree. When the script in use is not empty, an
  unwatched submission returns the hash exactly if the watched stream ends with \<open>Finalized\<close>, an error
  exactly if it ends with an error status, and panics (\<open>todo!\<close>) exactly if it ends with a status that is
  not terminal.
\<close>

theorem submit_result_agrees_with_stream:
  assumes "ft_events t = Inr es" and "es \<noteq> []"
  shows "(submit_result t = Inr (Inr (ft_hash t)) \<longleftrightarrow> is_finalized (fst (last es))) \<and>
    ((\<exists>e. submit_result t = Inr (Inl e)) \<longleftrightarrow> is_error (fst (last es))) \<and>
    (submit_result t = Inl Todo \<longleftrightarrow> \<not> is_terminal (fst (last es)))"
proof -
  obtain def where def: "get_current_stream_def t = Inr def"
    and es: "es = map (\<lambda>d. (ed_event d, ed_delay d)) def"
    using assms(1) by (auto simp: ft_events_def res_bind_eq_Inr)
  have "def \<noteq> []" and last: "fst (last es) = ed_event (last def)"
    using assms(2) by (auto simp: es last_map)
  then show ?thesis
    by (cases "ed_event (last def)") (simp_all add: submit_result_def def)
qed

theorem submit_result_agrees_with_stream_witness:
  "(submit_result (ft_new_finalizable 7 0) :: (unit error + fake_hash) res) = Inr (Inr (to_le_bytes 7))"
proof -
  let ?t = "ft_new_finalizable 7 0"
  let ?es = "[(Broadcasted, 100), (Validated, 300), (InBlock (to_le_bytes 1), 1000),
      (InBlock (to_le_bytes 2), 1000), (InBlock (to_le_bytes 3), 1000), (Finalized (to_le_bytes 2), 2000)]"
  have "ft_events ?t = Inr ?es"
    by (simp add: ft_events_def get_current_stream_def_def ft_constructor_defs event_def_defs)
  moreover have "?es \<noteq> []" and "is_finalized (fst (last ?es))" by simp_all
  ultimately have "submit_result ?t = (Inr (Inr (ft_hash ?t)) :: (unit error + fake_hash) res)"
    by (rule submit_result_agrees_with_stream [THEN conjunct1, THEN iffD2])
  then show ?thesis by (simp add: ft_constructor_defs)
qed

text \<open>
  The hash of a fake transaction survives its conversion to and from a string, the form in which
  the journal stores it, whenever decoding four bytes inverts encoding them; different hashes have
  different strings.
\<close>

theorem fake_hash_roundtrip:
  assumes "\<And>a b c d. hex_decode4 (hex_encode [a, b, c, d]) = Some (a, b, c, d)"
  shows "fake_hash_try_from hex_decode4 (string_from_fake_hash hex_encode h) = Inr h \<and>
    (string_from_fake_hash hex_encode h = string_from_fake_hash hex_encode h' \<longleftrightarrow> h = h')"
proof -
  have "fake_hash_try_from hex_decode4 (string_from_fake_hash hex_encode x) = Inr x" for x
    using assms by (cases x)
      (simp add: fake_hash_try_from_def fake_hash_from_str_def string_from_fake_hash_def)
  then show ?thesis by (metis sum.inject(2))
qed

definition nibble_char :: "nat \<Rightarrow> char" where
  "nibble_char n = (if n < 10 then char_of (48 + n) else char_of (87 + n))"

definition char_nibble :: "char \<Rightarrow> nat" where
  "char_nibble c = (let n = of_char c in if n < 58 then n - 48 else n - 87)"

definition example_hex_encode :: "u8 list \<Rightarrow> string" where
  "example_hex_encode bs =
     concat (map (\<lambda>b. [nibble_char (unat b div 16), nibble_char (unat b mod 16)]) bs)"

definition example_hex_decode4 :: "string \<Rightarrow> (u8 \<times> u8 \<times> u8 \<times> u8) option" where
  "example_hex_decode4 s =
     (case map char_nibble s of
        [a, b, c, d, e, f, g, h] \<Rightarrow>
          Some (of_nat (a * 16 + b), of_nat (c * 16 + d), of_nat (e * 16 + f), of_nat (g * 16 + h))
      | _ \<Rightarrow> None)"

lemma char_nibble_nibble_char: "n < 16 \<Longrightarrow> char_nibble (nibble_char n) = n"
  by (simp add: char_nibble_def nibble_char_def take_bit_nat_eq_self)

theorem fake_hash_roundtrip_witness:
  "string_from_fake_hash example_hex_encode (Fake_Hash 10 0 255 1) = ''0a00ff01'' \<and>
   fake_hash_try_from example_hex_decode4 ''0a00ff01'' = Inr (Fake_Hash 10 0 255 1)"
proof -
  have byte: "unat (b :: u8) < 256" for b using unat_bound [of b] by simp
  have nib: "(of_nat (unat b div 16) * 16 + of_nat (unat b mod 16) :: u8) = b" for b :: u8
  proof -
    have "(of_nat (unat b div 16 * 16 + unat b mod 16) :: u8) = b" by (simp only: div_mult_mod_eq) simp
    then show ?thesis by (simp only: of_nat_add of_nat_mult of_nat_numeral)
  qed
  have inv: "example_hex_decode4 (example_hex_encode [a, b, c, d]) = Some (a, b, c, d)" for a b c d
    using byte [of a] byte [of b] byte [of c] byte [of d]
    by (simp add: example_hex_decode4_def example_hex_encode_def char_nibble_nibble_char
        less_mult_imp_div_less nib)
  have str: "string_from_fake_hash example_hex_encode (Fake_Hash 10 0 255 1) = ''0a00ff01''"
    by (simp add: string_from_fake_hash_def example_hex_encode_def nibble_char_def) code_simp
  show ?thesis
    using fake_hash_roundtrip [of example_hex_decode4 example_hex_encode, OF inv, of "Fake_Hash 10 0 255 1"]
    by (simp add: str)
qed

end
