(* ===== verification/Fake_Sink.thy ===== *)
theory Fake_Sink
  imports Fake_Transaction "HOL-Library.FSet"
begin

section \<open>The interface of a transactions sink and the fake sink\<close>

text \<open>
  The trait \<open>TransactionsSink\<close> of \<open>src/transaction.rs\<close> as an interface, and its implementation
  \<open>FakeTransactionsSink\<close> of \<open>src/fake_transaction_sink.rs\<close>. The asynchronous methods are split where they
  await: an unwatched submission is recorded, takes the script's time, and is forgotten when it
  returns; the stream of a watched submission forgets the transaction when its terminal status is
  taken from it.
\<close>

subsection \<open>The interface\<close>

text \<open>
  What a client that bounds its submissions relies on: the number reported by \<open>pending_extrinsics\<close> is the
  number of the transactions in the sink, only a submission adds a transaction, and only the submitted
  one.
\<close>

locale transactions_sink =
  fixes members :: "'s \<Rightarrow> 'h set"
    and pending :: "'s \<Rightarrow> nat"
    and accept :: "'h \<Rightarrow> 's \<Rightarrow> 's"
    and deliver :: "'h \<Rightarrow> 'x \<Rightarrow> 's \<Rightarrow> 's"
    and settle :: "'h \<Rightarrow> 's \<Rightarrow> 's"
  assumes finite_members: "finite (members s)"
    and pending_card: "pending s = card (members s)"
    and members_accept: "members (accept h s) = insert h (members s)"
    and members_deliver: "members (deliver h x s) \<subseteq> members s"
    and members_settle: "members (settle h s) \<subseteq> members s"
begin

lemma pending_accept_le: "pending (accept h s) \<le> Suc (pending s)"
  by (simp add: pending_card members_accept card_insert_le_m1 finite_members card_insert_if)

lemma pending_deliver_le: "pending (deliver h x s) \<le> pending s"
  by (simp add: pending_card card_mono finite_members members_deliver)

lemma pending_settle_le: "pending (settle h s) \<le> pending s"
  by (simp add: pending_card card_mono finite_members members_settle)

text \<open>
  A client holds back a set of transactions that it has not submitted yet. Submitting one of them does
  not change the transactions that are held back or in the sink; so a bound on all of them is kept.
\<close>

lemma accept_held_back:
  "h \<in> held \<Longrightarrow> members (accept h s) \<union> held = members s \<union> held"
  by (auto simp: members_accept)

lemma release_bound:
  assumes "card (members s \<union> held) \<le> bound" and "finite held" and "held' \<subseteq> held"
  shows "card (members s \<union> held') \<le> bound"
proof -
  have "card (members s \<union> held') \<le> card (members s \<union> held)"
    by (rule card_mono) (use assms(2,3) finite_members in auto)
  with assms(1) show ?thesis by simp
qed

lemma deliver_bound:
  assumes "card (members s \<union> held) \<le> bound" and "finite held"
  shows "card (members (deliver h x s) \<union> held) \<le> bound"
proof -
  have "card (members (deliver h x s) \<union> held) \<le> card (members s \<union> held)"
    by (rule card_mono) (use assms(2) finite_members members_deliver in \<open>simp, blast\<close>)
  with assms(1) show ?thesis by simp
qed

lemma settle_bound:
  assumes "card (members s \<union> held) \<le> bound" and "finite held"
  shows "card (members (settle h s) \<union> held) \<le> bound"
proof -
  have "card (members (settle h s) \<union> held) \<le> card (members s \<union> held)"
    by (rule card_mono) (use assms(2) finite_members members_settle in \<open>simp, blast\<close>)
  with assms(1) show ?thesis by simp
qed

lemma admit_bound:
  assumes "card (members s \<union> held) \<le> bound" and "finite held" and "finite new"
    and "card new \<le> bound - pending s - card held"
  shows "card (members s \<union> (held \<union> new)) \<le> bound"
proof -
  have "card (members s \<union> (held \<union> new)) \<le> card (members s \<union> held) + card new"
    by (metis Un_assoc card_Un_le)
  moreover have "card (members s \<union> held) \<le> pending s + card held"
    by (simp add: pending_card card_Un_le)
  ultimately show ?thesis using assms(1,4) by linarith
qed

end

subsection \<open>The fake sink\<close>

record fake_sink =
  fs_txs :: "fake_hash fset"
  fs_nonces :: "string \<rightharpoonup> u128"

definition fs_default :: fake_sink where
  "fs_default = \<lparr>fs_txs = {||}, fs_nonces = Map.empty\<rparr>"

definition fs_insert :: "fake_hash \<Rightarrow> fake_sink \<Rightarrow> fake_sink" where
  "fs_insert h s = s\<lparr>fs_txs := finsert h (fs_txs s)\<rparr>"

definition fs_remove :: "fake_hash \<Rightarrow> fake_sink \<Rightarrow> fake_sink" where
  "fs_remove h s = s\<lparr>fs_txs := fs_txs s |-| {|h|}\<rparr>"

text \<open>
  \<open>submit_and_watch\<close> records the transaction and hands out the stream; the closure mapped over the stream
  is \<open>fs_stream_item\<close>, run for each status when it is taken.
\<close>

definition fs_submit_and_watch ::
    "fake_transaction \<Rightarrow> fake_sink \<Rightarrow> (fake_sink \<times> (fake_hash transaction_status \<times> u32) list) res" where
  "fs_submit_and_watch t s =
     (let s' = fs_insert (ft_hash t) s in
      res_bind (ft_events t) (\<lambda>stream. Inr (s', stream)))"

definition fs_stream_item :: "fake_hash \<Rightarrow> fake_hash transaction_status \<Rightarrow> fake_sink \<Rightarrow> fake_sink" where
  "fs_stream_item h e s = (if is_terminal e then fs_remove h s else s)"

text \<open>
  \<open>submit\<close> up to its await, and from there on; \<open>fs_submit\<close> is the whole call when nothing else uses the
  sink meanwhile. A panic of the script leaves the transaction recorded, so only a result settles it.
\<close>

definition fs_submit_begin :: "fake_transaction \<Rightarrow> fake_sink \<Rightarrow> fake_sink" where
  "fs_submit_begin t s = fs_insert (ft_hash t) s"

definition fs_submit_end ::
    "fake_transaction \<Rightarrow> fake_sink \<Rightarrow> (fake_sink \<times> ('e error + fake_hash)) res" where
  "fs_submit_end t s = res_bind (submit_result t) (\<lambda>r. Inr (fs_remove (ft_hash t) s, r))"

definition fs_submit ::
    "fake_transaction \<Rightarrow> fake_sink \<Rightarrow> (fake_sink \<times> ('e error + fake_hash)) res" where
  "fs_submit t s = fs_submit_end t (fs_submit_begin t s)"

definition fs_pending_extrinsics :: "fake_sink \<Rightarrow> nat" where
  "fs_pending_extrinsics s = fcard (fs_txs s)"

text \<open>\<open>transaction_monitor\<close> of the fake sink is \<open>None\<close>: it has no monitor.\<close>

definition fs_transaction_monitor :: "fake_sink \<Rightarrow> unit option" where
  "fs_transaction_monitor s = None"

lemmas fs_defs = fs_insert_def fs_remove_def fs_submit_and_watch_def fs_stream_item_def
  fs_submit_begin_def fs_submit_end_def fs_submit_def fs_pending_extrinsics_def

interpretation fsink: transactions_sink "\<lambda>s. fset (fs_txs s)" fs_pending_extrinsics fs_insert
    fs_stream_item "\<lambda>h s. fs_remove h s"
  by unfold_locales (auto simp: fs_defs fcard.rep_eq)

text \<open>Taking all statuses of the stream of a watched submission.\<close>

definition fs_drain :: "fake_hash \<Rightarrow> fake_hash transaction_status list \<Rightarrow> fake_sink \<Rightarrow> fake_sink" where
  "fs_drain h es s = fold (fs_stream_item h) es s"

lemma fs_drain_txs:
  "fs_txs (fs_drain h es s) = (if \<exists>e \<in> set es. is_terminal e then fs_txs s |-| {|h|} else fs_txs s)"
  unfolding fs_drain_def
  by (induction es arbitrary: s) (auto simp: fs_defs)

lemma fs_drain_nonces [simp]: "fs_nonces (fs_drain h es s) = fs_nonces s"
  unfolding fs_drain_def
  by (induction es arbitrary: s) (auto simp: fs_defs)

text \<open>
  The pending count of the fake sink follows the life of a watched transaction. Submitting a new
  transaction adds one; the count goes back when the stream has yielded a terminal status, and stays up
  for a script without one.
\<close>

lemma watched_pending_count:
  assumes "fs_submit_and_watch t s = Inr (s', stream)" and "ft_hash t |\<notin>| fs_txs s"
  shows "fs_pending_extrinsics s' = Suc (fs_pending_extrinsics s) \<and>
    fs_pending_extrinsics (fs_drain (ft_hash t) (map fst stream) s') =
      (if \<exists>e \<in> set (map fst stream). is_terminal e then fs_pending_extrinsics s
       else Suc (fs_pending_extrinsics s))"
proof -
  have s': "fs_txs s' = finsert (ft_hash t) (fs_txs s)"
    using assms(1) by (auto simp: fs_submit_and_watch_def fs_insert_def Let_def res_bind_eq_Inr)
  have fresh: "finsert (ft_hash t) (fs_txs s) |-| {|ft_hash t|} = fs_txs s" using assms(2) by auto
  show ?thesis
    using assms(2) by (simp add: fs_pending_extrinsics_def fs_drain_txs s' fresh fcard_finsert_disjoint)
qed

lemma watched_pending_count_example:
  "\<exists>s' stream. fs_submit_and_watch (ft_new_finalizable 1 0) fs_default = Inr (s', stream) \<and>
     fs_pending_extrinsics s' = 1 \<and>
     fs_pending_extrinsics (fs_drain (to_le_bytes 1) (map fst stream) s') = 0"
proof -
  let ?t = "ft_new_finalizable 1 0"
  obtain s' stream where run: "fs_submit_and_watch ?t fs_default = Inr (s', stream)"
    and stream: "(Finalized (to_le_bytes 2), 2000) \<in> set stream"
    by (simp add: fs_submit_and_watch_def ft_events_def get_current_stream_def_def ft_constructor_defs
        event_def_defs)
  have fresh: "ft_hash ?t |\<notin>| fs_txs fs_default" by (simp add: fs_default_def)
  have empty: "fs_pending_extrinsics fs_default = 0" by (simp add: fs_default_def fs_pending_extrinsics_def)
  have hash: "ft_hash ?t = to_le_bytes 1" by (simp add: ft_constructor_defs)
  have "\<exists>e \<in> set (map fst stream). is_terminal e" using stream by force
  with watched_pending_count [OF run fresh] run show ?thesis by (simp add: empty hash)
qed

text \<open>
  An unwatched submission leaves the fake sink as it was (for a transaction that is not already in
  it) and returns the result that the script prescribes; when the script makes it panic, no state is
  returned at all.
\<close>

lemma unwatched_submit_settles:
  assumes "ft_hash t |\<notin>| fs_txs s"
  shows "fs_submit t s = res_bind (submit_result t) (\<lambda>r. Inr (s, r :: 'e error + fake_hash)) \<and>
    fs_pending_extrinsics (fs_submit_begin t s) = Suc (fs_pending_extrinsics s)"
proof -
  have "fs_remove (ft_hash t) (fs_insert (ft_hash t) s) = s"
    using assms by (cases s) (auto simp: fs_defs)
  then show ?thesis
    using assms
    by (simp add: fs_submit_def fs_submit_end_def fs_submit_begin_def)
      (simp add: fs_pending_extrinsics_def fs_insert_def fcard_finsert_disjoint)
qed

lemma unwatched_submit_settles_example:
  "fs_submit (ft_new_droppable 1 0 10) fs_default =
     Inr (fs_default, Inl (Other ''submit-error:dropped:xxx'') :: unit error + fake_hash)"
proof -
  have "ft_hash (ft_new_droppable 1 0 10) |\<notin>| fs_txs fs_default" by (simp add: fs_default_def)
  from unwatched_submit_settles [OF this, where 'e = unit]
  show ?thesis
    by (simp add: submit_result_def get_current_stream_def_def ft_constructor_defs event_def_defs)
qed

end
