(* ===== verification/Runner.thy ===== *)
theory Runner
  imports Tx_Task Fake_Sink
begin

section \<open>The runner\<close>

text \<open>
  The model of \<open>Runner\<close> of \<open>src/runner.rs\<close>: its state, \<open>new\<close>, \<open>pop\<close>, \<open>consume_pending\<close>, \<open>log_file_path\<close>
  and \<open>run\<close>. The tasks that a runner has started are kept in the list of workers, each at one of the
  await points of \<open>Tx_Task\<close>. \<open>run\<close> is its first loop (\<open>run_start\<close>) followed by any sequence of arms of its
  \<open>select!\<close>; what the outside world contributes to an arm (replies of the sink, the pending count, clock
  readings) is part of the arm, so the theorems hold for every sink and every scheduling.
\<close>

subsection \<open>State\<close>

type_synonym 'h worker = "'h tx_task \<times> 'h task_pc"

record 'h runner =
  send_threshold :: usize
  runner_logs :: "'h logs"
  transactions :: "'h tx_task list"
  done_hashes :: "'h list"
  error_hashes :: "'h list"
  timeout :: "duration option"
  event_counters :: counters
  last_displayed :: "nat option"
  log_file_name :: "string option"
  base_dir_path :: "string option"
  executor_id :: "string option"

definition runner_new ::
    "usize \<Rightarrow> 'h tx_task list \<Rightarrow> string option \<Rightarrow> string option \<Rightarrow> string option \<Rightarrow> duration option \<Rightarrow> 'h runner" where
  "runner_new threshold txs file_name base_dir executor limit =
     \<lparr>send_threshold = threshold,
      runner_logs = collect_map (map (\<lambda>t. (task_hash t, log_new_with_tx (task_tx t))) txs),
      transactions = txs, done_hashes = [], error_hashes = [], timeout = limit,
      event_counters = counters_default, last_displayed = None, log_file_name = file_name,
      base_dir_path = base_dir, executor_id = executor\<rparr>"

subsection \<open>Starting tasks\<close>

text \<open>\<open>Vec::pop\<close> takes the last element.\<close>

definition pop :: "'h runner \<Rightarrow> 'h tx_task option \<times> 'h runner" where
  "pop r = (if transactions r = [] then (None, r)
            else (Some (last (transactions r)), r\<lparr>transactions := butlast (transactions r)\<rparr>))"

text \<open>\<open>self.logs[&hash].clone()\<close> and \<open>log.push_event(ExecutionEvent::popped())\<close>.\<close>

definition log_popped :: "system_time \<Rightarrow> 'h tx_task \<Rightarrow> 'h runner \<Rightarrow> 'h runner res" where
  "log_popped now t r =
     res_bind (push_at (task_hash t) (event_popped now) (runner_logs r, event_counters r))
       (\<lambda>(logs, c). Inr (r\<lparr>runner_logs := logs, event_counters := c\<rparr>))"

text \<open>
  The \<open>for\<close> loop of \<open>run\<close> and the one of \<open>consume_pending\<close>. \<open>clock\<close> gives the time stamp of the \<open>Popped\<close>
  event of each transaction.
\<close>

fun initial_loop ::
    "('h \<Rightarrow> system_time) \<Rightarrow> nat \<Rightarrow> 'h runner \<Rightarrow> 'h worker list \<Rightarrow> ('h runner \<times> 'h worker list) res" where
  "initial_loop clock 0 r ws = Inr (r, ws)"
| "initial_loop clock (Suc n) r ws =
     (case pop r of
        (None, r') \<Rightarrow> Inr (r', ws)
      | (Some t, r') \<Rightarrow>
          res_bind (log_popped (clock (task_hash t)) t r')
            (\<lambda>r''. initial_loop clock n r'' (ws @ [(t, Not_Started)])))"

fun consume_loop ::
    "('h \<Rightarrow> system_time) \<Rightarrow> nat \<Rightarrow> 'h runner \<Rightarrow> 'h worker list \<Rightarrow> u128 list \<Rightarrow> nat \<Rightarrow>
       ('h runner \<times> 'h worker list \<times> u128 list \<times> nat) res" where
  "consume_loop clock 0 r ws nonces pushed = Inr (r, ws, nonces, pushed)"
| "consume_loop clock (Suc n) r ws nonces pushed =
     (case pop r of
        (None, r') \<Rightarrow> Inr (r', ws, nonces, pushed)
      | (Some t, r') \<Rightarrow>
          res_bind (log_popped (clock (task_hash t)) t r')
            (\<lambda>r''. consume_loop clock n r'' (ws @ [(t, Not_Started)]) (nonces @ [task_nonce t]) (Suc pushed)))"

text \<open>
  What the outside world contributes to one call of \<open>consume_pending\<close>: the answer of
  \<open>pending_extrinsics\<close> (only asked below the maximal threshold), the time stamps of the popped
  transactions, the two readings of the monotonic clock of the display, and how long the iteration of
  the event loop took.
\<close>

record 'h readings =
  pending_answer :: usize
  popped_at :: "'h \<Rightarrow> system_time"
  checked_at :: nat
  shown_at :: nat
  elapsed :: duration

record consume_report =
  report_current_count :: "usize option"
  report_pushed :: nat
  report_min_nonce :: "u128 option"
  report_counters :: string

definition usize_max :: usize where
  "usize_max = - 1"

definition to_consume :: "profile \<Rightarrow> usize \<Rightarrow> 'h runner \<Rightarrow> (usize \<times> usize option) res" where
  "to_consume prof pending r =
     (if send_threshold r = usize_max then Inr (usize_max, None)
      else res_bind (buffered prof (event_counters r))
        (\<lambda>b. Inr (saturating_sub (saturating_sub (send_threshold r) pending) b, Some pending)))"

definition consume_pending ::
    "profile \<Rightarrow> 'h readings \<Rightarrow> 'h runner \<Rightarrow> 'h worker list \<Rightarrow>
       ('h runner \<times> 'h worker list \<times> consume_report option) res" where
  "consume_pending prof rd r ws =
     res_bind (to_consume prof (pending_answer rd) r) (\<lambda>(n, current_count).
     let counters_displayed = counters_display (event_counters r) in
     res_bind (consume_loop (popped_at rd) (unat n) r ws [] 0) (\<lambda>(r', ws', nonces, pushed).
     let display = (case last_displayed r' of
           Some t \<Rightarrow> 200 * 10 ^ 6 < checked_at rd - t | None \<Rightarrow> True)
     in if display
        then Inr (r'\<lparr>last_displayed := Some (shown_at rd)\<rparr>, ws',
          Some \<lparr>report_current_count = current_count, report_pushed = pushed,
                report_min_nonce = (if nonces = [] then None else Some (Min (set nonces))),
                report_counters = counters_displayed\<rparr>)
        else Inr (r', ws', None)))"

subsection \<open>The name of the log file\<close>

definition log_file_path :: "string \<Rightarrow> 'h runner \<Rightarrow> string" where
  "log_file_path formatted_date r =
     (let default_file_name =
            (case executor_id r of
               Some i \<Rightarrow> ''ttxt_'' @ i @ ''_'' @ formatted_date @ ''.json''
             | None \<Rightarrow> ''ttxt_'' @ formatted_date @ ''.json'')
      in case base_dir_path r of
           Some basedir \<Rightarrow>
             (case log_file_name r of
                Some filename \<Rightarrow> basedir @ ''/'' @ filename @ ''_'' @ formatted_date
              | None \<Rightarrow> basedir @ ''/'' @ default_file_name)
         | None \<Rightarrow> default_file_name)"

subsection \<open>The event loop\<close>

datatype exit =
    Timeout_Reached
  | Stop_Requested
  | All_Futures_Done
  | Panicked panic

record 'h run_state =
  run_runner :: "'h runner"
  run_workers :: "'h worker list"
  run_timeout :: duration
  run_exit :: "exit option"

definition seconds :: "nat \<Rightarrow> duration" where
  "seconds n = n * 10 ^ 9"

definition millis :: "nat \<Rightarrow> duration" where
  "millis n = n * 10 ^ 6"

definition run_start :: "('h \<Rightarrow> system_time) \<Rightarrow> 'h runner \<Rightarrow> 'h run_state" where
  "run_start clock r =
     (let limit = (case timeout r of Some d \<Rightarrow> d | None \<Rightarrow> seconds (2 ^ 64 - 1))
      in case initial_loop clock (unat (send_threshold r)) r [] of
           Inl p \<Rightarrow> \<lparr>run_runner = r, run_workers = [], run_timeout = limit, run_exit = Some (Panicked p)\<rparr>
         | Inr (r', ws) \<Rightarrow> \<lparr>run_runner = r', run_workers = ws, run_timeout = limit, run_exit = None\<rparr>)"

text \<open>
  The ways the loop goes on: a worker is polled and makes progress inside \<open>workers.next()\<close>; a worker has
  returned and \<open>workers.next()\<close> yields its result; three seconds or the remaining timeout have passed in
  this iteration (the duration is how long it has waited); the stop channel yields; no worker is left.
\<close>

datatype ('e, 'h) arm =
    Worker_Polled nat system_time "('e, 'h) reply"
  | Worker_Returned nat "'h readings"
  | Tick "'h readings"
  | Timeout duration
  | Stop
  | No_Workers

fun record_result :: "'h execution_result \<Rightarrow> 'h runner \<Rightarrow> 'h runner" where
  "record_result (Exec_Done h) r = r\<lparr>done_hashes := done_hashes r @ [h]\<rparr>"
| "record_result (Exec_Error h) r = r\<lparr>error_hashes := error_hashes r @ [h]\<rparr>"

definition remove_nth :: "nat \<Rightarrow> 'a list \<Rightarrow> 'a list" where
  "remove_nth i xs = take i xs @ drop (Suc i) xs"

definition poll_worker ::
    "('e \<Rightarrow> string) \<Rightarrow> bool \<Rightarrow> nat \<Rightarrow> system_time \<Rightarrow> ('e, 'h) reply \<Rightarrow> 'h run_state \<Rightarrow> 'h run_state option" where
  "poll_worker show_subxt hm i now reply s =
     (if i < length (run_workers s)
      then (case run_workers s ! i of (task, pc) \<Rightarrow>
        (case task_step show_subxt hm task now pc reply of
           None \<Rightarrow> None
         | Some (es, pc') \<Rightarrow>
             (case push_many (map (\<lambda>e. (task_hash task, e)) es)
                     (runner_logs (run_runner s), event_counters (run_runner s)) of
                Inl p \<Rightarrow> Some (s\<lparr>run_exit := Some (Panicked p)\<rparr>)
              | Inr (logs, c) \<Rightarrow>
                  Some (s\<lparr>run_runner := (run_runner s)\<lparr>runner_logs := logs, event_counters := c\<rparr>,
                          run_workers := (run_workers s)[i := (task, pc')]\<rparr>))))
      else None)"

definition consume_then ::
    "profile \<Rightarrow> 'h readings \<Rightarrow> 'h worker list \<Rightarrow> ('h runner \<Rightarrow> 'h runner) \<Rightarrow> 'h run_state \<Rightarrow> 'h run_state" where
  "consume_then prof rd ws f s =
     (case consume_pending prof rd (run_runner s) ws of
        Inl p \<Rightarrow> s\<lparr>run_exit := Some (Panicked p)\<rparr>
      | Inr (r, ws', _) \<Rightarrow>
          s\<lparr>run_runner := f r, run_workers := ws', run_timeout := run_timeout s - elapsed rd\<rparr>)"

fun select_arm ::
    "profile \<Rightarrow> ('e \<Rightarrow> string) \<Rightarrow> bool \<Rightarrow> ('e, 'h) arm \<Rightarrow> 'h run_state \<Rightarrow> 'h run_state option" where
  "select_arm prof show_subxt hm (Worker_Polled i now reply) s =
     (if run_exit s = None then poll_worker show_subxt hm i now reply s else None)"
| "select_arm prof show_subxt hm (Worker_Returned i rd) s =
     (if run_exit s = None \<and> i < length (run_workers s)
      then (case snd (run_workers s ! i) of
              Returned result \<Rightarrow>
                Some (consume_then prof rd (remove_nth i (run_workers s)) (record_result result) s)
            | _ \<Rightarrow> None)
      else None)"
| "select_arm prof show_subxt hm (Tick rd) s =
     (if run_exit s = None \<and> millis 3000 \<le> elapsed rd
      then Some (consume_then prof rd (run_workers s) id s) else None)"
| "select_arm prof show_subxt hm (Timeout waited) s =
     (if run_exit s = None \<and> run_timeout s \<le> waited
      then Some (s\<lparr>run_exit := Some Timeout_Reached\<rparr>) else None)"
| "select_arm prof show_subxt hm Stop s =
     (if run_exit s = None then Some (s\<lparr>run_exit := Some Stop_Requested\<rparr>) else None)"
| "select_arm prof show_subxt hm No_Workers s =
     (if run_exit s = None \<and> run_workers s = []
      then Some (s\<lparr>run_exit := Some All_Futures_Done\<rparr>) else None)"

text \<open>The runs of the event loop, with the arms they take.\<close>

inductive runs ::
    "profile \<Rightarrow> ('e \<Rightarrow> string) \<Rightarrow> bool \<Rightarrow> 'h run_state \<Rightarrow> ('e, 'h) arm list \<Rightarrow> 'h run_state \<Rightarrow> bool"
  for prof show_subxt hm s0 where
  runs_start: "runs prof show_subxt hm s0 [] s0"
| runs_arm: "runs prof show_subxt hm s0 arms s \<Longrightarrow> select_arm prof show_subxt hm arm s = Some s' \<Longrightarrow>
     runs prof show_subxt hm s0 (arms @ [arm]) s'"

inductive_simps runs_Nil: "runs prof show_subxt hm s0 [] s"
inductive_simps runs_snoc: "runs prof show_subxt hm s0 (arms @ [arm]) s"

lemma select_arm_open: "select_arm prof show_subxt hm arm s = Some s' \<Longrightarrow> run_exit s = None"
  by (cases arm) (auto split: if_splits)

text \<open>The count of pending extrinsics that an arm has asked the sink for, if the run is throttled.\<close>

fun asks_pending :: "('e, 'h) arm \<Rightarrow> nat option" where
  "asks_pending (Worker_Returned _ rd) = Some (unat (pending_answer rd))"
| "asks_pending (Tick rd) = Some (unat (pending_answer rd))"
| "asks_pending _ = None"

lemma select_arm_returned:
  assumes "select_arm prof show_subxt hm (Worker_Returned i rd) s = Some s'"
  obtains t x where "i < length (run_workers s)" and "run_workers s ! i = (t, Returned x)"
  using assms by (cases "run_workers s ! i") (auto split: if_splits task_pc.splits)

subsection \<open>The two loops in closed form\<close>

text \<open>
  Both loops start the last \<open>n\<close> tasks of the vector (all of them, if there are fewer), last one first.
\<close>

definition started :: "nat \<Rightarrow> 'h runner \<Rightarrow> 'h tx_task list" where
  "started n r = take n (rev (transactions r))"

definition popped_events :: "('h \<Rightarrow> system_time) \<Rightarrow> 'h tx_task list \<Rightarrow> ('h \<times> 'h execution_event) list" where
  "popped_events clock ts = map (\<lambda>t. (task_hash t, event_popped (clock (task_hash t)))) ts"

definition after_start :: "nat \<Rightarrow> 'h logs \<times> counters \<Rightarrow> 'h runner \<Rightarrow> 'h runner" where
  "after_start n lc r =
     r\<lparr>transactions := take (length (transactions r) - n) (transactions r),
       runner_logs := fst lc, event_counters := snd lc\<rparr>"

lemma tl_rev: "tl (rev xs) = rev (butlast xs)"
  by (cases xs rule: rev_cases) auto

lemma started_simps:
  "started 0 r = []"
  "transactions r = [] \<Longrightarrow> started n r = []"
  "transactions r \<noteq> [] \<Longrightarrow> started (Suc n) r = last (transactions r) # started n (r\<lparr>transactions := butlast (transactions r)\<rparr>)"
  by (auto simp: started_def take_Suc hd_rev tl_rev)

lemma started_logs [simp]:
  "started n (r\<lparr>runner_logs := l\<rparr>) = started n r" "started n (r\<lparr>event_counters := c\<rparr>) = started n r"
  by (simp_all add: started_def)

lemma take_butlast_pred: "take (length xs - Suc n) xs = take (length (butlast xs) - n) (butlast xs)"
  by (simp add: butlast_conv_take)

lemma consume_loop_eq:
  "consume_loop clock n r ws nonces pushed =
     res_bind (push_many (popped_events clock (started n r)) (runner_logs r, event_counters r)) (\<lambda>lc.
       Inr (after_start n lc r, ws @ map (\<lambda>t. (t, Not_Started)) (started n r),
            nonces @ map task_nonce (started n r), pushed + length (started n r)))"
proof (induction n arbitrary: r ws nonces pushed)
  case 0
  show ?case by (simp add: started_simps popped_events_def after_start_def)
next
  case (Suc n)
  show ?case
  proof (cases "transactions r = []")
    case True
    then show ?thesis by (simp add: pop_def started_simps popped_events_def after_start_def)
  next
    case False
    then show ?thesis
      by (auto simp: pop_def started_simps popped_events_def log_popped_def res_bind_assoc Suc.IH
          after_start_def take_butlast_pred case_prod_beta intro!: res_bind_cong)
  qed
qed

lemma initial_loop_eq:
  "initial_loop clock n r ws =
     res_bind (push_many (popped_events clock (started n r)) (runner_logs r, event_counters r)) (\<lambda>lc.
       Inr (after_start n lc r, ws @ map (\<lambda>t. (t, Not_Started)) (started n r)))"
proof -
  have "initial_loop clock n r ws = res_bind (consume_loop clock n r ws nonces pushed) (\<lambda>(r, ws, _). Inr (r, ws))"
    for nonces pushed
    by (induction n arbitrary: r ws nonces pushed)
      (auto simp: res_bind_assoc split: prod.split option.split intro!: res_bind_cong)
  from this [of "[]" 0] show ?thesis by (simp add: consume_loop_eq res_bind_assoc)
qed

subsection \<open>No transaction is lost or sent twice\<close>

text \<open>
  The places of the transactions: not yet popped (a prefix of the vector), in a worker, done, or in error.
  \<open>placed\<close> says that together they are the transactions given to \<open>new\<close>, each once; it also keeps the
  log of every one of them in the map.
\<close>

definition places :: "'h runner \<Rightarrow> 'h worker list \<Rightarrow> 'h list" where
  "places r ws = map task_hash (transactions r) @ map (\<lambda>w. task_hash (fst w)) ws @ done_hashes r @ error_hashes r"

definition placed :: "'h tx_task list \<Rightarrow> 'h runner \<Rightarrow> 'h worker list \<Rightarrow> bool" where
  "placed txs r ws \<longleftrightarrow>
     transactions r = take (length (transactions r)) txs \<and>
     mset (places r ws) = mset (map task_hash txs) \<and>
     fst ` set ws \<subseteq> set txs \<and>
     (\<forall>w \<in> set ws. \<forall>x. snd w = Returned x \<longrightarrow> result_hash x = task_hash (fst w)) \<and>
     task_hash ` set txs \<subseteq> dom (runner_logs r)"

lemma placed_transactions: "placed txs r ws \<Longrightarrow> set (transactions r) \<subseteq> set txs"
  unfolding placed_def using set_take_subset by metis

lemma mset_split_last: "mset (map f xs) = mset (map f (take (length xs - n) xs)) + mset (map f (take n (rev xs)))"
proof -
  have "take n (rev xs) = rev (drop (length xs - n) xs)"
    by (cases "n \<le> length xs") (simp_all add: rev_drop)
  then have "mset (map f (take n (rev xs))) = mset (map f (drop (length xs - n) xs))" by (simp flip: rev_map)
  then show ?thesis by (metis append_take_drop_id map_append mset_append)
qed

lemma set_started: "placed txs r ws \<Longrightarrow> set (started n r) \<subseteq> set txs"
  using placed_transactions [of txs r ws] set_take_subset [of n "rev (transactions r)"]
  by (auto simp: started_def)

lemma placed_after_start:
  assumes "placed txs r ws"
    and "push_many (popped_events clock (started n r)) (runner_logs r, event_counters r) = Inr lc"
  shows "placed txs (after_start n lc r) (ws @ map (\<lambda>t. (t, Not_Started)) (started n r))"
proof -
  obtain l c where lc: "lc = (l, c)" by fastforce
  have dom: "dom l = dom (runner_logs r)" using push_many_dom assms(2) by (simp add: lc)
  have sub: "set (started n r) \<subseteq> set txs" by (rule set_started [OF assms(1)])
  have "mset (places (after_start n lc r) (ws @ map (\<lambda>t. (t, Not_Started)) (started n r))) = mset (places r ws)"
    using mset_split_last [of task_hash "transactions r" n]
    by (simp add: places_def after_start_def started_def comp_def)
  moreover have "transactions (after_start n lc r) = take (length (transactions (after_start n lc r))) txs"
    using assms(1) by (simp add: placed_def after_start_def) (metis min.absorb1 diff_le_self take_take)
  moreover have "take (min (length ys) m) ys = take m ys" for ys :: "'a tx_task list" and m
    by (simp add: min_def)
  ultimately show ?thesis
    using assms(1) sub by (auto simp: placed_def lc dom after_start_def)
qed

lemma popped_events_ok:
  assumes "placed txs r ws"
  shows "\<exists>lc. push_many (popped_events clock (started n r)) (runner_logs r, event_counters r) = Inr lc"
proof -
  have "fst ` set (popped_events clock (started n r)) = task_hash ` set (started n r)"
    by (auto simp: popped_events_def image_iff)
  also have "\<dots> \<subseteq> task_hash ` set txs" using set_started [OF assms] by (rule image_mono)
  also have "\<dots> \<subseteq> dom (runner_logs r)" using assms by (simp add: placed_def)
  finally have "fst ` set (popped_events clock (started n r)) \<subseteq> dom (runner_logs r)" .
  then show ?thesis using push_many_ok by metis
qed

lemma placed_display [simp]: "placed txs (r\<lparr>last_displayed := d\<rparr>) ws = placed txs r ws"
  by (simp add: placed_def places_def)

text \<open>What one call of \<open>consume_pending\<close> does when the log of every transaction is in the map.\<close>

lemma consume_pending_Inr:
  assumes "consume_pending prof rd r ws = Inr (r', ws', report)"
  obtains n cc lc where "to_consume prof (pending_answer rd) r = Inr (n, cc)"
    and "push_many (popped_events (popped_at rd) (started (unat n) r)) (runner_logs r, event_counters r) = Inr lc"
    and "r' = (after_start (unat n) lc r)\<lparr>last_displayed := last_displayed r'\<rparr>"
    and "ws' = ws @ map (\<lambda>t. (t, Not_Started)) (started (unat n) r)"
proof -
  obtain n cc where tc: "to_consume prof (pending_answer rd) r = Inr (n, cc)"
    using assms by (auto simp: consume_pending_def res_bind_eq_Inr)
  obtain lc where pm: "push_many (popped_events (popped_at rd) (started (unat n) r))
      (runner_logs r, event_counters r) = Inr lc"
    using assms by (auto simp: consume_pending_def consume_loop_eq tc res_bind_eq_Inr Let_def)
  have "r' = (after_start (unat n) lc r)\<lparr>last_displayed := last_displayed r'\<rparr>
      \<and> ws' = ws @ map (\<lambda>t. (t, Not_Started)) (started (unat n) r)"
    using assms by (auto simp: consume_pending_def consume_loop_eq tc pm Let_def split: if_splits)
  then show thesis using that [OF tc pm] by blast
qed

lemma consume_pending_Inl:
  assumes "consume_pending prof rd r ws = Inl p" and "placed txs r ws"
  shows "to_consume prof (pending_answer rd) r = Inl p"
proof (cases "to_consume prof (pending_answer rd) r")
  case (Inr x)
  obtain n cc where "x = (n, cc)" by fastforce
  moreover obtain lc where "push_many (popped_events (popped_at rd) (started (unat n) r))
      (runner_logs r, event_counters r) = Inr lc"
    using popped_events_ok [OF assms(2)] by blast
  ultimately show ?thesis
    using assms(1) Inr by (auto simp: consume_pending_def consume_loop_eq Let_def split: if_splits)
qed (use assms(1) in \<open>simp add: consume_pending_def\<close>)

lemma placed_consume:
  assumes "placed txs r ws" and "consume_pending prof rd r ws = Inr (r', ws', report)"
  shows "placed txs r' ws'"
  using assms(2) by (rule consume_pending_Inr) (metis assms(1) placed_after_start placed_display)

text \<open>
  Recording a result before or after \<open>consume_pending\<close> makes no difference to the state: the code's order,
  which refills the workers first, only shortens the time until the next submission.
\<close>

lemma started_record_result [simp]: "started n (record_result x r) = started n r"
  by (cases x) (simp_all add: started_def)

lemma after_start_record_result: "after_start n lc (record_result x r) = record_result x (after_start n lc r)"
  by (cases x) (simp_all add: after_start_def)

lemma record_result_keeps [simp]:
  "runner_logs (record_result x r) = runner_logs r"
  "event_counters (record_result x r) = event_counters r"
  "transactions (record_result x r) = transactions r"
  "send_threshold (record_result x r) = send_threshold r"
  "last_displayed (record_result x r) = last_displayed r"
  "record_result x (r\<lparr>last_displayed := d\<rparr>) = (record_result x r)\<lparr>last_displayed := d\<rparr>"
  by (cases x; simp)+

lemma to_consume_record_result [simp]: "to_consume prof p (record_result x r) = to_consume prof p r"
  by (simp add: to_consume_def)

lemma consume_record_result:
  "consume_pending prof rd (record_result x r) ws =
     (case consume_pending prof rd r ws of
        Inl p \<Rightarrow> Inl p | Inr (r', ws', report) \<Rightarrow> Inr (record_result x r', ws', report))"
proof (cases "to_consume prof (pending_answer rd) r")
  case (Inl p)
  then have "to_consume prof (pending_answer rd) (record_result x r) = Inl p"
    by simp
  with Inl show ?thesis by (simp add: consume_pending_def)
next
  case (Inr y)
  obtain n cc where y: "y = (n, cc)" by fastforce
  have tc: "to_consume prof (pending_answer rd) (record_result x r) = Inr (n, cc)"
    using Inr y by simp
  show ?thesis
    by (cases "push_many (popped_events (popped_at rd) (started (unat n) r)) (runner_logs r, event_counters r)")
      (simp_all add: consume_pending_def consume_loop_eq Inr y tc Let_def after_start_record_result)
qed

lemma consume_then_record_result:
  "consume_then prof rd ws (record_result x) s =
     (case consume_pending prof rd (record_result x (run_runner s)) ws of
        Inl p \<Rightarrow> s\<lparr>run_exit := Some (Panicked p)\<rparr>
      | Inr (r, ws', _) \<Rightarrow> s\<lparr>run_runner := r, run_workers := ws', run_timeout := run_timeout s - elapsed rd\<rparr>)"
  by (auto simp: consume_then_def consume_record_result split: sum.splits)

lemma mset_remove_nth: "i < length xs \<Longrightarrow> mset xs = add_mset (xs ! i) (mset (remove_nth i xs))"
  by (metis id_take_nth_drop mset_append mset.simps(2) remove_nth_def union_mset_add_mset_right)

lemma set_remove_nth: "set (remove_nth i xs) \<subseteq> set xs"
  unfolding remove_nth_def using set_take_subset set_drop_subset by fastforce

lemma placed_record_result:
  assumes "placed txs r ws" and "i < length ws" and "snd (ws ! i) = Returned x"
  shows "placed txs (record_result x r) (remove_nth i ws)"
proof -
  have hash: "result_hash x = task_hash (fst (ws ! i))"
    using assms by (auto simp: placed_def dest: nth_mem)
  have "mset (map (\<lambda>w. task_hash (fst w)) ws) =
      add_mset (result_hash x) (mset (map (\<lambda>w. task_hash (fst w)) (remove_nth i ws)))"
    using mset_remove_nth [OF assms(2)] by (simp add: hash)
  then have "mset (places (record_result x r) (remove_nth i ws)) = mset (places r ws)"
    by (cases x) (simp_all add: places_def)
  then show ?thesis
    using assms(1) set_remove_nth [of i ws] by (auto simp: placed_def)
qed

lemma task_step_result:
  "task_step show_subxt hm task now pc r = Some (es, Returned x) \<Longrightarrow> result_hash x = task_hash task"
  by (cases "(show_subxt, hm, task, now, pc, r)" rule: task_step.cases) (auto split: if_splits)

lemma places_update:
  "i < length ws \<Longrightarrow> ws ! i = (t, pc) \<Longrightarrow> map (\<lambda>w. task_hash (fst w)) (ws[i := (t, pc')]) = map (\<lambda>w. task_hash (fst w)) ws"
  by (metis (no_types, lifting) fst_conv list_update_id map_update)

lemma placed_poll:
  assumes "placed txs r ws" and "i < length ws" and "ws ! i = (t, pc)"
    and "task_step show_subxt hm t now pc reply = Some (es, pc')"
    and "push_many ps (runner_logs r, event_counters r) = Inr (logs, c)"
  shows "placed txs (r\<lparr>runner_logs := logs, event_counters := c\<rparr>) (ws[i := (t, pc')])"
proof -
  have "t \<in> fst ` set ws" using assms(2,3) by (metis fst_conv image_eqI nth_mem)
  then have t: "t \<in> set txs" using assms(1) by (auto simp: placed_def)
  have set: "w = (t, pc') \<or> w \<in> set ws" if "w \<in> set (ws[i := (t, pc')])" for w
    using that set_update_subset_insert [of ws i "(t, pc')"] by blast
  have sub: "fst ` set (ws[i := (t, pc')]) \<subseteq> set txs"
  proof (rule image_subsetI)
    show "fst w \<in> set txs" if "w \<in> set (ws[i := (t, pc')])" for w
      using set [OF that] t assms(1) by (auto simp: placed_def)
  qed
  have "\<forall>w \<in> set (ws[i := (t, pc')]). \<forall>x. snd w = Returned x \<longrightarrow> result_hash x = task_hash (fst w)"
  proof (intro ballI allI impI)
    fix w x
    assume w: "w \<in> set (ws[i := (t, pc')])" and x: "snd w = Returned x"
    from set [OF w] show "result_hash x = task_hash (fst w)"
    proof
      assume "w = (t, pc')"
      with x assms(4) task_step_result show ?thesis by fastforce
    next
      assume "w \<in> set ws"
      with x assms(1) show ?thesis by (simp add: placed_def)
    qed
  qed
  moreover have "places (r\<lparr>runner_logs := logs, event_counters := c\<rparr>) (ws[i := (t, pc')]) = places r ws"
    by (simp add: places_def places_update [OF assms(2,3)])
  ultimately show ?thesis
    using assms(1) push_many_dom [OF assms(5)] sub by (simp add: placed_def)
qed

lemma worker_push_ok:
  assumes "placed txs r ws" and "i < length ws" and "ws ! i = (t, pc)"
  shows "\<exists>logs c. push_many (map (Pair (task_hash t)) es) (runner_logs r, event_counters r) = Inr (logs, c)"
proof -
  have "t \<in> set txs" using assms by (force simp: placed_def dest: nth_mem)
  then have "fst ` set (map (Pair (task_hash t)) es) \<subseteq> dom (runner_logs r)"
    using assms(1) by (auto simp: placed_def)
  then show ?thesis using push_many_ok by metis
qed

text \<open>
  The shape of one arm of the loop, for a state in which every transaction has its log: a worker makes
  progress, or \<open>consume_pending\<close> runs (after a worker's result has been recorded, or on a tick), or it
  panics because the number of buffered transactions cannot be computed, or the loop is left.
\<close>

definition may_consume :: "'h run_state \<Rightarrow> 'h runner \<Rightarrow> 'h worker list \<Rightarrow> bool" where
  "may_consume s r0 ws0 \<longleftrightarrow>
     r0 = run_runner s \<and> ws0 = run_workers s \<or>
     (\<exists>i t x. i < length (run_workers s) \<and> run_workers s ! i = (t, Returned x) \<and>
        r0 = record_result x (run_runner s) \<and> ws0 = remove_nth i (run_workers s))"

lemma placed_may_consume:
  "may_consume s r0 ws0 \<Longrightarrow> placed txs (run_runner s) (run_workers s) \<Longrightarrow> placed txs r0 ws0"
  unfolding may_consume_def by (auto intro!: placed_record_result)

lemma consume_then_cases:
  assumes "placed txs r0 ws0" and "may_consume s r0 ws0" and "r0 = record_result x (run_runner s) \<and> f = record_result x \<or>
    r0 = run_runner s \<and> f = id"
  obtains r' ws' report where "consume_pending prof rd r0 ws0 = Inr (r', ws', report)"
      and "consume_then prof rd ws0 f s =
        s\<lparr>run_runner := r', run_workers := ws', run_timeout := run_timeout s - elapsed rd\<rparr>"
  | p where "to_consume prof (pending_answer rd) (run_runner s) = Inl p"
      and "consume_then prof rd ws0 f s = s\<lparr>run_exit := Some (Panicked p)\<rparr>"
proof (cases "consume_pending prof rd r0 ws0")
  case (Inl p)
  have "to_consume prof (pending_answer rd) r0 = Inl p" by (rule consume_pending_Inl [OF Inl assms(1)])
  moreover have "consume_then prof rd ws0 f s = s\<lparr>run_exit := Some (Panicked p)\<rparr>"
    using assms(3) Inl by (auto simp: consume_then_record_result) (simp add: consume_then_def)
  ultimately show ?thesis using that(2) assms(3) by auto
next
  case (Inr y)
  obtain r' ws' report where y: "y = (r', ws', report)" by (cases y)
  have "consume_then prof rd ws0 f s =
      s\<lparr>run_runner := r', run_workers := ws', run_timeout := run_timeout s - elapsed rd\<rparr>"
    using assms(3) Inr y by (auto simp: consume_then_record_result) (simp add: consume_then_def)
  with Inr y that(1) show ?thesis by blast
qed

lemma select_arm_cases:
  assumes "select_arm prof show_subxt hm arm s = Some s'" and "placed txs (run_runner s) (run_workers s)"
  obtains (polled) i now reply t pc es pc' logs c where "arm = Worker_Polled i now reply"
      and "i < length (run_workers s)" and "run_workers s ! i = (t, pc)"
      and "task_step show_subxt hm t now pc reply = Some (es, pc')"
      and "push_many (map (Pair (task_hash t)) es) (runner_logs (run_runner s), event_counters (run_runner s)) = Inr (logs, c)"
      and "s' = s\<lparr>run_runner := (run_runner s)\<lparr>runner_logs := logs, event_counters := c\<rparr>,
                  run_workers := (run_workers s)[i := (t, pc')]\<rparr>"
  | (consumed) rd r0 ws0 r' ws' report where "arm = Tick rd \<or> (\<exists>i. arm = Worker_Returned i rd)"
      and "may_consume s r0 ws0" and "placed txs r0 ws0"
      and "consume_pending prof rd r0 ws0 = Inr (r', ws', report)"
      and "s' = s\<lparr>run_runner := r', run_workers := ws', run_timeout := run_timeout s - elapsed rd\<rparr>"
  | (panicked) rd p where "arm = Tick rd \<or> (\<exists>i. arm = Worker_Returned i rd)"
      and "to_consume prof (pending_answer rd) (run_runner s) = Inl p"
      and "s' = s\<lparr>run_exit := Some (Panicked p)\<rparr>"
  | (left) x where "s' = s\<lparr>run_exit := Some x\<rparr>"
      and "arm = Stop \<and> x = Stop_Requested \<or> arm = No_Workers \<and> x = All_Futures_Done \<and> run_workers s = [] \<or>
        (\<exists>waited. arm = Timeout waited \<and> x = Timeout_Reached \<and> run_timeout s \<le> waited)"
proof (cases arm)
  case (Worker_Polled i now reply)
  obtain t pc where w: "run_workers s ! i = (t, pc)" by fastforce
  have step: "poll_worker show_subxt hm i now reply s = Some s'" and i: "i < length (run_workers s)"
    using assms(1) by (auto simp: Worker_Polled poll_worker_def split: if_splits)
  obtain es pc' where ts: "task_step show_subxt hm t now pc reply = Some (es, pc')"
    using step i w by (auto simp: poll_worker_def split: option.splits)
  obtain logs c where push: "push_many (map (Pair (task_hash t)) es)
      (runner_logs (run_runner s), event_counters (run_runner s)) = Inr (logs, c)"
    using worker_push_ok [OF assms(2) i w] by blast
  have "s' = s\<lparr>run_runner := (run_runner s)\<lparr>runner_logs := logs, event_counters := c\<rparr>,
      run_workers := (run_workers s)[i := (t, pc')]\<rparr>"
    using step i by (simp add: poll_worker_def w ts push)
  with polled Worker_Polled i w ts push show thesis by blast
next
  case (Worker_Returned i rd)
  then have i: "i < length (run_workers s)"
    using assms(1) by (auto split: if_splits)
  obtain t x where w: "run_workers s ! i = (t, Returned x)"
    using assms(1) Worker_Returned by (cases "run_workers s ! i") (auto split: if_splits task_pc.splits)
  let ?r = "record_result x (run_runner s)" and ?ws = "remove_nth i (run_workers s)"
  have s': "s' = consume_then prof rd ?ws (record_result x) s"
    using assms(1) by (simp add: Worker_Returned w split: if_splits)
  have may: "may_consume s ?r ?ws" using i w by (auto simp: may_consume_def)
  note placed = placed_may_consume [OF may assms(2)]
  show thesis
    by (rule consume_then_cases [OF placed may, of x "record_result x" prof rd])
      (use s' may placed Worker_Returned consumed panicked in \<open>blast+\<close>)
next
  case (Tick rd)
  have s': "s' = consume_then prof rd (run_workers s) id s"
    using assms(1) by (simp add: Tick split: if_splits)
  have may: "may_consume s (run_runner s) (run_workers s)" by (simp add: may_consume_def)
  show thesis
    by (rule consume_then_cases [OF assms(2) may, of undefined id prof rd])
      (use s' may assms(2) Tick consumed panicked in \<open>blast+\<close>)
qed (use assms(1) left in \<open>auto split: if_splits\<close>)

subsection \<open>Where the transactions are\<close>

definition run_new ::
    "('h \<Rightarrow> system_time) \<Rightarrow> usize \<Rightarrow> 'h tx_task list \<Rightarrow> duration option \<Rightarrow> 'h run_state" where
  "run_new clock threshold txs limit = run_start clock (runner_new threshold txs None None None limit)"

lemma placed_new: "placed txs (runner_new threshold txs f b e limit) []"
  by (auto simp: placed_def places_def runner_new_def image_image)

lemma run_new_eq:
  obtains lc where "push_many (popped_events clock (take (unat threshold) (rev txs)))
      (collect_map (map (\<lambda>t. (task_hash t, log_new_with_tx (task_tx t))) txs), counters_default) = Inr lc"
    and "run_new clock threshold txs limit =
      \<lparr>run_runner = after_start (unat threshold) lc (runner_new threshold txs None None None limit),
       run_workers = map (\<lambda>t. (t, Not_Started)) (take (unat threshold) (rev txs)),
       run_timeout = (case limit of Some d \<Rightarrow> d | None \<Rightarrow> seconds (2 ^ 64 - 1)), run_exit = None\<rparr>"
proof -
  let ?r = "runner_new threshold txs None None None limit"
  obtain lc where push: "push_many (popped_events clock (started (unat threshold) ?r))
      (runner_logs ?r, event_counters ?r) = Inr lc"
    using popped_events_ok [OF placed_new] by blast
  have start: "started (unat threshold) ?r = take (unat threshold) (rev txs)"
    by (simp add: started_def runner_new_def)
  have fields: "runner_logs ?r = collect_map (map (\<lambda>t. (task_hash t, log_new_with_tx (task_tx t))) txs)"
    "event_counters ?r = counters_default" "send_threshold ?r = threshold" "timeout ?r = limit"
    by (simp_all add: runner_new_def)
  show thesis
    by (rule that [of lc]) (use push in \<open>simp_all add: run_new_def run_start_def initial_loop_eq start fields\<close>)
qed

lemma placed_run_new: "placed txs (run_runner (run_new clock threshold txs limit)) (run_workers (run_new clock threshold txs limit))"
proof -
  let ?r = "runner_new threshold txs None None None limit"
  obtain lc where push: "push_many (popped_events clock (take (unat threshold) (rev txs)))
      (collect_map (map (\<lambda>t. (task_hash t, log_new_with_tx (task_tx t))) txs), counters_default) = Inr lc"
    and eq: "run_new clock threshold txs limit =
      \<lparr>run_runner = after_start (unat threshold) lc ?r,
       run_workers = map (\<lambda>t. (t, Not_Started)) (take (unat threshold) (rev txs)),
       run_timeout = (case limit of Some d \<Rightarrow> d | None \<Rightarrow> seconds (2 ^ 64 - 1)), run_exit = None\<rparr>"
    by (rule run_new_eq)
  have start: "started (unat threshold) ?r = take (unat threshold) (rev txs)"
    by (simp add: started_def runner_new_def)
  have "placed txs (after_start (unat threshold) lc ?r) ([] @ map (\<lambda>t. (t, Not_Started)) (started (unat threshold) ?r))"
    by (rule placed_after_start [OF placed_new, where clock = clock]) (simp add: start, simp add: push runner_new_def)
  then show ?thesis by (simp add: eq start)
qed

lemma placed_arm:
  assumes "select_arm prof show_subxt hm arm s = Some s'" and "placed txs (run_runner s) (run_workers s)"
  shows "placed txs (run_runner s') (run_workers s')"
  using assms
  by (cases rule: select_arm_cases) (simp_all add: assms(2) placed_poll placed_consume)

lemma placed_runs:
  "runs prof show_subxt hm (run_new clock threshold txs limit) arms s \<Longrightarrow>
     placed txs (run_runner s) (run_workers s)"
  by (induction rule: runs.induct) (auto simp: placed_run_new dest: placed_arm)

lemma consume_threshold:
  assumes "consume_pending prof rd r ws = Inr (r', ws', report)"
  shows "send_threshold r' = send_threshold r"
  using assms by (rule consume_pending_Inr) (metis after_start_def runner.select_convs(1) runner.surjective runner.update_convs)

lemma buffered_Inl: "buffered prof c = Inl p \<Longrightarrow> p = Arithmetic_Overflow \<and> prof = Debug"
  by (cases prof) (auto simp: buffered_def u_add_def u_sub_def res_bind_def split: sum.splits if_splits)

lemma to_consume_Inl:
  "to_consume prof n r = Inl p \<Longrightarrow>
     p = Arithmetic_Overflow \<and> prof = Debug \<and> send_threshold r \<noteq> usize_max \<and> buffered prof (event_counters r) = Inl p"
  using buffered_Inl by (cases "buffered prof (event_counters r)") (auto simp: to_consume_def split: if_splits)

lemma transactions_conserved:
  assumes "runs prof show_subxt hm (run_new clock threshold txs limit) arms s"
  shows "(\<exists>k \<le> length txs. transactions (run_runner s) = take k txs \<and>
      mset (map (\<lambda>w. task_hash (fst w)) (run_workers s)) + mset (done_hashes (run_runner s)) +
        mset (error_hashes (run_runner s)) = mset (map task_hash (drop k txs))) \<and>
    send_threshold (run_runner s) = threshold \<and>
    (\<forall>p. run_exit s = Some (Panicked p) \<longrightarrow>
      p = Arithmetic_Overflow \<and> prof = Debug \<and> threshold \<noteq> usize_max)"
proof (intro conjI)
  have placed: "placed txs (run_runner s) (run_workers s)" by (rule placed_runs [OF assms])
  define k where "k = length (transactions (run_runner s))"
  have prefix: "transactions (run_runner s) = take k txs" using placed by (simp add: placed_def k_def)
  have "mset (map task_hash txs) = mset (map task_hash (take k txs)) + mset (map task_hash (drop k txs))"
    by (metis append_take_drop_id map_append mset_append)
  then have "mset (map (\<lambda>w. task_hash (fst w)) (run_workers s)) + mset (done_hashes (run_runner s)) +
        mset (error_hashes (run_runner s)) = mset (map task_hash (drop k txs))"
    using placed prefix by (simp add: placed_def places_def add.assoc)
  moreover have "k \<le> length txs" using prefix k_def by (metis length_take min.cobounded1)
  ultimately show "\<exists>k \<le> length txs. transactions (run_runner s) = take k txs \<and>
      mset (map (\<lambda>w. task_hash (fst w)) (run_workers s)) + mset (done_hashes (run_runner s)) +
        mset (error_hashes (run_runner s)) = mset (map task_hash (drop k txs))"
    using prefix by blast
next
  have "send_threshold (run_runner s) = threshold \<and>
    (\<forall>p. run_exit s = Some (Panicked p) \<longrightarrow> p = Arithmetic_Overflow \<and> prof = Debug \<and> threshold \<noteq> usize_max)"
    using assms
  proof (induction rule: runs.induct)
    case runs_start
    show ?case
      by (rule run_new_eq [of clock threshold txs limit]) (simp add: after_start_def runner_new_def)
  next
    case (runs_arm arms s arm s')
    from runs_arm(2) placed_runs [OF runs_arm(1)] show ?case
    proof (cases rule: select_arm_cases)
      case (consumed rd r0 ws0 r' ws' report)
      have "send_threshold r0 = threshold"
        using consumed(2) runs_arm.IH by (auto simp: may_consume_def)
      then show ?thesis using consumed runs_arm.IH consume_threshold [OF consumed(4)] by simp
    next
      case (panicked rd p)
      then show ?thesis using to_consume_Inl [OF panicked(2)] runs_arm.IH by auto
    qed (use runs_arm.IH in auto)
  qed
  then show "send_threshold (run_runner s) = threshold"
    and "\<forall>p. run_exit s = Some (Panicked p) \<longrightarrow> p = Arithmetic_Overflow \<and> prof = Debug \<and> threshold \<noteq> usize_max"
    by auto
qed

text \<open>
  C2: the runner never loses or duplicates a transaction. In every state of every run, whatever the sink
  answers and however the tasks are interleaved, the transactions not yet popped are a prefix of the
  vector given to \<open>new\<close>, and the hashes of the workers, of \<open>done\<close> and of \<open>errors\<close> are together, with their
  multiplicities, those of the rest. No log lookup panics: a run can only panic by an arithmetic
  overflow of \<open>buffered\<close> in a build with overflow checks, below the maximal threshold.
\<close>

theorem runner_conserves_transactions:
  assumes "runs prof show_subxt hm (run_new clock threshold txs limit) arms s"
  shows "(\<exists>k \<le> length txs. transactions (run_runner s) = take k txs \<and>
      mset (map (\<lambda>w. task_hash (fst w)) (run_workers s)) + mset (done_hashes (run_runner s)) +
        mset (error_hashes (run_runner s)) = mset (map task_hash (drop k txs))) \<and>
    send_threshold (run_runner s) = threshold \<and>
    (\<forall>p. run_exit s = Some (Panicked p) \<longrightarrow>
      p = Arithmetic_Overflow \<and> prof = Debug \<and> threshold \<noteq> usize_max)"
  by (rule transactions_conserved [OF assms])

subsection \<open>Concrete runs\<close>

fun run_arms ::
    "profile \<Rightarrow> ('e \<Rightarrow> string) \<Rightarrow> bool \<Rightarrow> ('e, 'h) arm list \<Rightarrow> 'h run_state \<Rightarrow> 'h run_state option" where
  "run_arms prof show_subxt hm [] s = Some s"
| "run_arms prof show_subxt hm (arm # arms) s =
     (case select_arm prof show_subxt hm arm s of
        None \<Rightarrow> None | Some s' \<Rightarrow> run_arms prof show_subxt hm arms s')"

lemma runs_trans:
  "runs prof show_subxt hm s1 arms' s2 \<Longrightarrow> runs prof show_subxt hm s0 arms s1 \<Longrightarrow>
   runs prof show_subxt hm s0 (arms @ arms') s2"
proof (induction rule: runs.induct)
  case (runs_arm arms' s arm s')
  then show ?case using runs.runs_arm [of prof show_subxt hm s0 "arms @ arms'" s arm s'] by simp
qed simp

lemma run_arms_runs:
  "run_arms prof show_subxt hm arms s = Some s' \<Longrightarrow> runs prof show_subxt hm s arms s'"
proof (induction arms arbitrary: s)
  case Nil
  then show ?case by (simp add: runs_start)
next
  case (Cons arm arms)
  then obtain s1 where step: "select_arm prof show_subxt hm arm s = Some s1"
    and rest: "run_arms prof show_subxt hm arms s1 = Some s'"
    by (auto split: option.splits)
  have "runs prof show_subxt hm s [arm] s1"
    using runs_arm [OF runs_start step] by simp
  from runs_trans [OF Cons.IH [OF rest] this] show ?case by simp
qed

definition example_task :: "bool \<Rightarrow> nat \<Rightarrow> nat tx_task" where
  "example_task watched h =
     \<lparr>task_tx = \<lparr>tx_hash = h, tx_nonce = of_nat h, tx_valid_until = None, tx_account_metadata = No_Account\<rparr>,
      task_watched = watched\<rparr>"

definition example_readings :: "usize \<Rightarrow> nat readings" where
  "example_readings n =
     \<lparr>pending_answer = n, popped_at = (\<lambda>_. System_Time 0), checked_at = 0, shown_at = 0, elapsed = millis 3000\<rparr>"

text \<open>Two watched transactions with threshold 1: one is finalized, the other one is then started.\<close>

definition example_arms :: "(unit, nat) arm list" where
  "example_arms =
     [Worker_Polled 0 (System_Time 1) Poll,
      Worker_Polled 0 (System_Time 2) (Watch_Reply (Inr ())),
      Worker_Polled 0 (System_Time 3) (Stream_Reply (Some (Finalized 9))),
      Worker_Returned 0 (example_readings 0),
      Stop]"

definition show_unit :: "unit \<Rightarrow> string" where
  "show_unit _ = ''e''"

definition example_end :: "nat run_state option" where
  "example_end = run_arms Debug show_unit False example_arms
     (run_new (\<lambda>_. System_Time 0) 1 [example_task True 1, example_task True 2] None)"

lemmas run_eval = run_new_def run_start_def initial_loop_eq runner_new_def started_def popped_events_def
  after_start_def poll_worker_def consume_then_def consume_pending_def to_consume_def consume_loop_eq
  buffered_def u_add_def u_sub_def push_at_def push_event_def in_blocks_def inc_def counters_default_def
  example_task_def example_readings_def event_defs remove_nth_def usize_max_def log_new_with_tx_def
  saturating_sub_def millis_def seconds_def show_unit_def

lemma example_end_summary:
  "map_option (\<lambda>s. (done_hashes (run_runner s), map (\<lambda>w. task_hash (fst w)) (run_workers s),
      transactions (run_runner s), run_exit s)) example_end = Some ([2], [1], [], Some Stop_Requested)"
  by (simp add: example_end_def example_arms_def run_eval)

theorem runner_conserves_transactions_witness:
  "\<exists>s. example_end = Some s \<and> send_threshold (run_runner s) = 1 \<and> transactions (run_runner s) = [] \<and>
     mset (map (\<lambda>w. task_hash (fst w)) (run_workers s)) + mset (done_hashes (run_runner s)) +
        mset (error_hashes (run_runner s)) = {#1, 2#}"
proof -
  from example_end_summary obtain s where s: "example_end = Some s" and none: "transactions (run_runner s) = []"
    by auto
  from run_arms_runs [OF s [unfolded example_end_def]]
  have "runs Debug show_unit False
      (run_new (\<lambda>_. System_Time 0) 1 [example_task True 1, example_task True 2] None) example_arms s" .
  from runner_conserves_transactions [OF this] s none show ?thesis
    by (auto simp: example_task_def take_Cons' split: if_splits)
qed

subsection \<open>The maximal threshold and the timeout\<close>

text \<open>With a threshold that all transactions fit under, the first loop starts all of them.\<close>

lemma all_started:
  assumes "runs prof show_subxt hm (run_new clock threshold txs limit) arms s" and "length txs \<le> unat threshold"
  shows "transactions (run_runner s) = [] \<and> (run_exit s = Some All_Futures_Done \<longrightarrow> run_workers s = [])"
  using assms(1)
proof (induction rule: runs.induct)
  case runs_start
  show ?case
    by (rule run_new_eq [of clock threshold txs limit])
      (use assms(2) in \<open>simp add: after_start_def runner_new_def\<close>)
next
  case (runs_arm arms s arm s')
  have running: "run_exit s = None" using runs_arm(2) by (rule select_arm_open)
  from runs_arm(2) placed_runs [OF runs_arm(1)] show ?case
  proof (cases rule: select_arm_cases)
    case (consumed rd r0 ws0 r' ws' report)
    have empty: "transactions r0 = []"
      using consumed(2) runs_arm.IH by (auto simp: may_consume_def)
    obtain n lc where "r' = (after_start n lc r0)\<lparr>last_displayed := last_displayed r'\<rparr>"
      using consumed(4) by (rule consume_pending_Inr)
    then have "transactions r' = []"
      using empty by (metis (no_types, lifting) after_start_def runner.select_convs(3) runner.surjective
          runner.update_convs take_Nil)
    then show ?thesis using consumed(5) running by simp
  qed (use runs_arm.IH running in auto)
qed

text \<open>
  C34: with the threshold \<open>usize::MAX\<close>, which turns the throttling off, \<open>run\<close> starts every transaction before
  it enters its event loop; so when the loop ends because no future is left, every transaction is in
  \<open>done\<close> or in \<open>errors\<close>, and such a run never panics.
\<close>

theorem unthrottled_run_sends_all:
  assumes "runs prof show_subxt hm (run_new clock usize_max txs limit) arms s" and "length txs < 2 ^ 64"
  shows "transactions (run_runner s) = [] \<and> (\<forall>p. run_exit s \<noteq> Some (Panicked p)) \<and>
    (run_exit s = Some All_Futures_Done \<longrightarrow>
      mset (done_hashes (run_runner s)) + mset (error_hashes (run_runner s)) = mset (map task_hash txs))"
proof -
  have big: "length txs \<le> unat usize_max" using assms(2) by (simp add: usize_max_def unsigned_minus_1_eq_mask mask_eq_exp_minus_1)
  have inv: "transactions (run_runner s) = [] \<and> (run_exit s = Some All_Futures_Done \<longrightarrow> run_workers s = [])"
    using assms(1) big by (rule all_started)
  from transactions_conserved [OF assms(1)] inv show ?thesis by auto
qed

theorem unthrottled_run_sends_all_witness:
  "\<exists>s. run_arms Release show_unit False
       [Worker_Polled 0 (System_Time 1) Poll,
        Worker_Polled 0 (System_Time 2) (Submit_Reply (Inr 1)),
        Worker_Returned 0 (example_readings 0),
        No_Workers]
       (run_new (\<lambda>_. System_Time 0) usize_max [example_task False 1] None) = Some s \<and>
     mset (done_hashes (run_runner s)) + mset (error_hashes (run_runner s)) = {#1#}"
proof -
  let ?arms = "[Worker_Polled 0 (System_Time 1) Poll,
        Worker_Polled 0 (System_Time 2) (Submit_Reply (Inr 1)),
        Worker_Returned 0 (example_readings 0),
        No_Workers] :: (unit, nat) arm list"
  let ?s0 = "run_new (\<lambda>_. System_Time 0) usize_max [example_task False 1] None"
  have big: "unat usize_max = 2 ^ 64 - 1"
    by (simp add: usize_max_def unsigned_minus_1_eq_mask mask_eq_exp_minus_1)
  obtain s where s: "run_arms Release show_unit False ?arms ?s0 = Some s"
    and exit: "run_exit s = Some All_Futures_Done"
    by (simp add: run_eval(1,2) initial_loop_eq runner_new_def started_def popped_events_def big)
      (simp add: run_eval)
  from unthrottled_run_sends_all [OF run_arms_runs [OF s]] s exit show ?thesis
    by (simp add: example_task_def)
qed

fun arm_time :: "('e, 'h) arm \<Rightarrow> duration" where
  "arm_time (Worker_Returned _ rd) = elapsed rd"
| "arm_time (Tick rd) = elapsed rd"
| "arm_time (Timeout waited) = waited"
| "arm_time _ = 0"

text \<open>
  C35: the timeout is a lower bound on the life of a run. The remaining timeout is reduced by what each
  iteration took, so a run given the limit \<open>d\<close> reports \<open>timeout_reached\<close> only after its iterations have
  taken at least \<open>d\<close> together.
\<close>

theorem timeout_not_early:
  assumes "runs prof show_subxt hm (run_new clock threshold txs (Some d)) arms s"
    and "run_exit s = Some Timeout_Reached"
  shows "d \<le> sum_list (map arm_time arms)"
proof -
  have "d \<le> run_timeout s + sum_list (map arm_time arms) \<and>
      (run_exit s = Some Timeout_Reached \<longrightarrow> d \<le> sum_list (map arm_time arms))"
    using assms(1)
  proof (induction rule: runs.induct)
    case runs_start
    show ?case by (rule run_new_eq [of clock threshold txs "Some d"]) simp
  next
    case (runs_arm arms s arm s')
    have running: "run_exit s = None" using runs_arm(2) by (rule select_arm_open)
    from runs_arm(2) placed_runs [OF runs_arm(1)] show ?case
    proof (cases rule: select_arm_cases)
      case (consumed rd r0 ws0 r' ws' report)
      then have "arm_time arm = elapsed rd" by auto
      then show ?thesis using runs_arm.IH consumed(5) running by auto
    next
      case (left x)
      then show ?thesis using runs_arm.IH by auto
    qed (use runs_arm.IH running in auto)
  qed
  with assms(2) show ?thesis by blast
qed

theorem timeout_not_early_witness:
  "run_exit (the (run_arms Debug show_unit False [Tick (example_readings 1), Timeout (millis 2000)]
     (run_new (\<lambda>_. System_Time 0) 1 [example_task True 1] (Some (millis 5000))))) = Some Timeout_Reached \<and>
   millis 5000 \<le> sum_list (map arm_time [Tick (example_readings 1), Timeout (millis 2000) :: (unit, nat) arm])"
proof -
  let ?arms = "[Tick (example_readings 1), Timeout (millis 2000)] :: (unit, nat) arm list"
  let ?s0 = "run_new (\<lambda>_. System_Time 0) 1 [example_task True 1] (Some (millis 5000))"
  obtain s where s: "run_arms Debug show_unit False ?arms ?s0 = Some s"
    and exit: "run_exit s = Some Timeout_Reached"
    by (simp add: run_eval)
  from timeout_not_early [OF run_arms_runs [OF s] exit] s exit show ?thesis by simp
qed

subsection \<open>Two ways of ending with unsent transactions\<close>

text \<open>
  The loop ends as soon as no worker is left, also when transactions remain: if the sink still reports
  the threshold as pending when the last worker returns, \<open>consume_pending\<close> starts nothing.
\<close>

lemma ends_with_unsent:
  "\<exists>s. runs Debug show_unit False (run_new (\<lambda>_. System_Time 0) 1 [example_task False 1, example_task False 2] None)
      [Worker_Polled 0 (System_Time 1) Poll,
       Worker_Polled 0 (System_Time 2) (Submit_Reply (Inr 2)),
       Worker_Returned 0 (example_readings 1),
       No_Workers] s \<and>
     run_exit s = Some All_Futures_Done \<and> transactions (run_runner s) = [example_task False 1]"
  by (rule exI, rule conjI, rule run_arms_runs, simp add: run_eval) (simp add: run_eval)

text \<open>
  A monitor error that is not the end of the mortal lifetime makes the task record a second submission
  result, and \<open>buffered\<close> then subtracts more than was popped: with overflow checks the runner panics;
  without them the wrapped value is larger than any threshold, and nothing is sent any more.
\<close>

definition double_result_arms :: "(unit, nat) arm list" where
  "double_result_arms =
     [Worker_Polled 0 (System_Time 1) Poll,
      Worker_Polled 0 (System_Time 2) (Submit_Reply (Inr 2)),
      Worker_Polled 0 (System_Time 3) (Monitor_Reply (Inl (Other ''recv''))),
      Worker_Returned 0 (example_readings 0)]"

lemma double_result_panics:
  "\<exists>s. runs Debug show_unit True (run_new (\<lambda>_. System_Time 0) 1 [example_task False 1, example_task False 2] None)
      double_result_arms s \<and> run_exit s = Some (Panicked Arithmetic_Overflow)"
  by (rule exI, rule conjI, rule run_arms_runs, simp add: run_eval double_result_arms_def word_le_nat_alt) (simp add: run_eval word_le_nat_alt)

lemma double_result_stalls:
  "\<exists>s. runs Release show_unit True (run_new (\<lambda>_. System_Time 0) 1 [example_task False 1, example_task False 2] None)
      (double_result_arms @ [No_Workers]) s \<and>
     run_exit s = Some All_Futures_Done \<and> transactions (run_runner s) = [example_task False 1] \<and>
     buffered Release (event_counters (run_runner s)) = Inr (- 1)"
  by (rule exI, rule conjI, rule run_arms_runs, simp add: run_eval double_result_arms_def word_le_nat_alt unsigned_minus_1_eq_mask mask_eq_exp_minus_1) (simp add: run_eval word_le_nat_alt)

end
