(* ===== verification/Runner_Logs.thy ===== *)
theory Runner_Logs
  imports Runner
begin

section \<open>What the logs of a run record\<close>

text \<open>
  The logs and the counters of a runner, related to its tasks: in every state of a run over transactions
  with distinct hashes, the log of a transaction holds exactly the events that its task has pushed so
  far. From this follow what \<open>buffered\<close> counts, and that \<open>make_stats\<close> can report a finished run.
\<close>

subsection \<open>The invariant\<close>

definition events_at :: "'h logs \<Rightarrow> 'h \<Rightarrow> 'h execution_event list" where
  "events_at logs h = log_events (the (logs h))"

definition logged ::
    "('e \<Rightarrow> string) \<Rightarrow> bool \<Rightarrow> 'h logs \<Rightarrow> 'h tx_task \<Rightarrow> 'h task_pc \<Rightarrow> bool" where
  "logged show_subxt hm logs t pc \<longleftrightarrow>
     (\<exists>now rs es. events_at logs (task_hash t) = Popped now # es \<and>
        task_run show_subxt hm t Not_Started rs = Some (es, pc))"

definition recorded ::
    "('e \<Rightarrow> string) \<Rightarrow> bool \<Rightarrow> 'h tx_task list \<Rightarrow> 'h runner \<Rightarrow> 'h worker list \<Rightarrow> bool" where
  "recorded show_subxt hm txs r ws \<longleftrightarrow>
     dom (runner_logs r) = task_hash ` set txs \<and>
     counters_agree (runner_logs r) (event_counters r) \<and>
     (\<forall>t \<in> set (transactions r). events_at (runner_logs r) (task_hash t) = []) \<and>
     (\<forall>w \<in> set ws. logged show_subxt hm (runner_logs r) (fst w) (snd w)) \<and>
     (\<forall>t \<in> set txs. task_hash t \<in> set (done_hashes r) \<longrightarrow>
        logged show_subxt hm (runner_logs r) t (Returned (Exec_Done (task_hash t)))) \<and>
     (\<forall>t \<in> set txs. task_hash t \<in> set (error_hashes r) \<longrightarrow>
        logged show_subxt hm (runner_logs r) t (Returned (Exec_Error (task_hash t))))"

lemma events_at_push:
  assumes "push_many ps (logs, c) = Inr (logs', c')" and "x \<in> dom logs"
  shows "events_at logs' x = events_at logs x @ map snd (filter (\<lambda>p. fst p = x) ps)"
proof -
  obtain l where "logs x = Some l" using assms(2) by auto
  with push_many_log [OF assms(1) this] show ?thesis by (auto simp: events_at_def)
qed

lemma events_at_frame:
  assumes "push_many ps (logs, c) = Inr (logs', c')" and "x \<in> dom logs" and "x \<notin> fst ` set ps"
  shows "events_at logs' x = events_at logs x"
proof -
  have "filter (\<lambda>p. fst p = x) ps = []" using assms(3) by (auto simp: filter_empty_conv)
  then show ?thesis using events_at_push [OF assms(1,2)] by simp
qed

lemma logged_frame:
  "events_at logs' (task_hash t) = events_at logs (task_hash t) \<Longrightarrow>
   logged show_subxt hm logs' t pc = logged show_subxt hm logs t pc"
  by (simp add: logged_def)

lemma distinct_places:
  "placed txs r ws \<Longrightarrow> distinct (map task_hash txs) \<Longrightarrow> distinct (places r ws)"
  unfolding placed_def by (metis mset_eq_imp_distinct_iff)

lemma set_places: "placed txs r ws \<Longrightarrow> set (places r ws) = task_hash ` set txs"
  unfolding placed_def by (metis list.set_map set_mset_mset)

lemma recorded_change:
  assumes "recorded show_subxt hm txs r ws" and "placed txs r ws"
    and "counters_agree logs c" and "dom logs = dom (runner_logs r)"
    and "runner_logs r' = logs" and "event_counters r' = c"
    and "done_hashes r' = done_hashes r" and "error_hashes r' = error_hashes r"
    and unsent: "\<And>u. u \<in> set (transactions r') \<Longrightarrow>
        u \<in> set (transactions r) \<and> events_at logs (task_hash u) = events_at (runner_logs r) (task_hash u)"
    and finished: "\<And>h. h \<in> set (done_hashes r) \<union> set (error_hashes r) \<Longrightarrow> h \<in> dom (runner_logs r) \<Longrightarrow>
        events_at logs h = events_at (runner_logs r) h"
    and workers: "\<And>w. w \<in> set ws' \<Longrightarrow> logged show_subxt hm logs (fst w) (snd w)"
  shows "recorded show_subxt hm txs r' ws'"
proof -
  have dom: "dom (runner_logs r) = task_hash ` set txs" using assms(1) by (simp add: recorded_def)
  have keep: "logged show_subxt hm logs u x = logged show_subxt hm (runner_logs r) u x"
    if "u \<in> set txs" "task_hash u \<in> set (done_hashes r) \<union> set (error_hashes r)" for u x
    by (rule logged_frame, rule finished) (use that dom in auto)
  note old = assms(1) [unfolded recorded_def]
  show ?thesis
    unfolding recorded_def assms(5-8)
  proof (intro conjI ballI impI)
    show "dom logs = task_hash ` set txs" using assms(4) dom by simp
    show "events_at logs (task_hash u) = []" if "u \<in> set (transactions r')" for u
      using unsent [OF that] old by simp
    show "logged show_subxt hm logs t (Returned (Exec_Done (task_hash t)))"
      if "t \<in> set txs" "task_hash t \<in> set (done_hashes r)" for t
      using that keep [of t] old by simp
    show "logged show_subxt hm logs t (Returned (Exec_Error (task_hash t)))"
      if "t \<in> set txs" "task_hash t \<in> set (error_hashes r)" for t
      using that keep [of t] old by simp
  qed (use workers assms(3) in simp_all)
qed

lemma logged_others:
  assumes "recorded show_subxt hm txs r ws" and "w \<in> set ws"
    and "events_at logs (task_hash (fst w)) = events_at (runner_logs r) (task_hash (fst w))"
  shows "logged show_subxt hm logs (fst w) (snd w)"
  using assms(1,2) by (intro iffD2 [OF logged_frame [OF assms(3)]]) (simp add: recorded_def)

lemma recorded_poll:
  assumes "recorded show_subxt hm txs r ws" and "placed txs r ws" and "distinct (map task_hash txs)"
    and "i < length ws" and "ws ! i = (t, pc)"
    and "task_step show_subxt hm t now pc reply = Some (es, pc')"
    and "push_many (map (Pair (task_hash t)) es) (runner_logs r, event_counters r) = Inr (logs, c)"
  shows "recorded show_subxt hm txs (r\<lparr>runner_logs := logs, event_counters := c\<rparr>) (ws[i := (t, pc')])"
proof -
  let ?h = "task_hash t"
  have dist: "distinct (places r ws)" by (rule distinct_places [OF assms(2,3)])
  have dom: "dom (runner_logs r) = task_hash ` set txs" using assms(1) by (simp add: recorded_def)
  have w: "(t, pc) \<in> set ws" using assms(4,5) by (metis nth_mem)
  have txs: "fst ` set ws \<subseteq> set txs" using assms(2) by (simp add: placed_def)
  have h: "?h \<in> dom (runner_logs r)" using w txs dom by force
  have in_ws: "?h \<in> set (map (\<lambda>w. task_hash (fst w)) ws)" using w by force
  have other: "events_at logs x = events_at (runner_logs r) x" if "x \<in> dom (runner_logs r)" "x \<noteq> ?h" for x
    by (rule events_at_frame [OF assms(7) that(1)]) (use that(2) in auto)
  have mine: "events_at logs ?h = events_at (runner_logs r) ?h @ es"
    using events_at_push [OF assms(7) h] by (simp add: comp_def)
  have "logged show_subxt hm (runner_logs r) t pc" using assms(1) w by (auto simp: recorded_def)
  then have here: "logged show_subxt hm logs t pc'"
    using mine task_run_snoc [OF _ assms(6)] unfolding logged_def by fastforce
  have apart: "?h \<notin> task_hash ` set (transactions r) \<union> set (done_hashes r) \<union> set (error_hashes r)"
    using in_ws dist unfolding places_def distinct_append set_append set_map by blast
  show ?thesis
  proof (rule recorded_change [OF assms(1,2)])
    show "counters_agree logs c" and "dom logs = dom (runner_logs r)"
      using push_many_agree [OF assms(7)] assms(1) dom by (auto simp: recorded_def)
    show "logged show_subxt hm logs (fst v) (snd v)" if "v \<in> set (ws[i := (t, pc')])" for v
    proof -
      have "distinct (map (\<lambda>w. task_hash (fst w)) ws)" using dist by (simp add: places_def)
      from set_update_distinct [OF this assms(4) that]
      consider "v = (t, pc')" | "v \<in> set ws" "task_hash (fst v) \<noteq> ?h" using assms(5) by auto
      then show ?thesis
      proof cases
        case 2
        then have "task_hash (fst v) \<in> dom (runner_logs r)" using txs dom by force
        then show ?thesis using 2 by (intro logged_others [OF assms(1)] other)
      qed (simp add: here)
    qed
    show "u \<in> set (transactions r) \<and> events_at logs (task_hash u) = events_at (runner_logs r) (task_hash u)"
      if "u \<in> set (transactions (r\<lparr>runner_logs := logs, event_counters := c\<rparr>))" for u
    proof
      show tx: "u \<in> set (transactions r)" using that by simp
      then have "task_hash u \<in> dom (runner_logs r)" using placed_transactions [OF assms(2)] dom by auto
      moreover have "task_hash u \<noteq> ?h" using apart tx by (metis UnI1 imageI)
      ultimately show "events_at logs (task_hash u) = events_at (runner_logs r) (task_hash u)" by (rule other)
    qed
    show "events_at logs h = events_at (runner_logs r) h"
      if "h \<in> set (done_hashes r) \<union> set (error_hashes r)" "h \<in> dom (runner_logs r)" for h
      using that(1) apart by (intro other [OF that(2)]) auto
  qed simp_all
qed

lemma split_transactions:
  "mset (map f (transactions r)) = mset (map f (transactions (after_start n lc r))) + mset (map f (started n r))"
  using mset_split_last [of f "transactions r" n] by (simp add: after_start_def started_def)

lemma filter_popped:
  "distinct (map task_hash ts) \<Longrightarrow>
     map snd (filter (\<lambda>p. fst p = x) (popped_events clock ts)) =
       (if x \<in> task_hash ` set ts then [Popped (clock x)] else [])"
  by (induction ts) (auto simp: popped_events_def event_defs)

lemma recorded_after_start:
  assumes "recorded show_subxt hm txs r ws" and "placed txs r ws" and "distinct (map task_hash txs)"
    and "push_many (popped_events clock (started n r)) (runner_logs r, event_counters r) = Inr lc"
  shows "recorded show_subxt hm txs (after_start n lc r) (ws @ map (\<lambda>t. (t, Not_Started)) (started n r))"
proof -
  obtain logs c where lc: "lc = (logs, c)" by fastforce
  note push = assms(4) [unfolded lc]
  have dom: "dom (runner_logs r) = task_hash ` set txs" using assms(1) by (simp add: recorded_def)
  have agree: "counters_agree logs c" "dom logs = dom (runner_logs r)"
    using push_many_agree [OF push] assms(1) dom by (auto simp: recorded_def)
  have "mset (places r ws) = mset (map task_hash (transactions (after_start n lc r)) @ map task_hash (started n r) @
      map (\<lambda>w. task_hash (fst w)) ws @ done_hashes r @ error_hashes r)"
    using split_transactions [of task_hash r n lc] by (simp add: places_def)
  then have dist: "distinct (map task_hash (transactions (after_start n lc r)) @ map task_hash (started n r) @
      map (\<lambda>w. task_hash (fst w)) ws @ done_hashes r @ error_hashes r)"
    using distinct_places [OF assms(2,3)] by (metis mset_eq_imp_distinct_iff)
  then have "distinct (map task_hash (started n r))" by simp
  note popped = filter_popped [OF this, of _ clock]
  have events: "events_at logs x = events_at (runner_logs r) x @
      (if x \<in> task_hash ` set (started n r) then [Popped (clock x)] else [])"
    if "x \<in> dom (runner_logs r)" for x
    using events_at_push [OF push that] popped by simp
  have new: "logged show_subxt hm logs t Not_Started" if "t \<in> set (started n r)" for t
  proof -
    have "t \<in> set (transactions r)" using that set_take_subset [of n "rev (transactions r)"] by (auto simp: started_def)
    then have "events_at (runner_logs r) (task_hash t) = []" using assms(1) by (simp add: recorded_def)
    moreover have "task_hash t \<in> dom (runner_logs r)" using set_started [OF assms(2)] that dom by auto
    ultimately have "events_at logs (task_hash t) = [Popped (clock (task_hash t))]"
      using events that by simp
    then show ?thesis unfolding logged_def by (metis task_run.simps(1))
  qed
  have frame: "events_at logs x = events_at (runner_logs r) x"
    if "x \<in> dom (runner_logs r)" "x \<notin> task_hash ` set (started n r)" for x
    using events [OF that(1)] that(2) by simp
  show ?thesis
  proof (rule recorded_change [OF assms(1,2) agree])
    show "u \<in> set (transactions r) \<and> events_at logs (task_hash u) = events_at (runner_logs r) (task_hash u)"
      if u: "u \<in> set (transactions (after_start n lc r))" for u
    proof
      show tx: "u \<in> set (transactions r)" using u set_take_subset by (fastforce simp: after_start_def)
      show "events_at logs (task_hash u) = events_at (runner_logs r) (task_hash u)"
        by (rule frame) (use u tx dist placed_transactions [OF assms(2)] dom in auto)
    qed
    show "logged show_subxt hm logs (fst w) (snd w)"
      if w: "w \<in> set (ws @ map (\<lambda>t. (t, Not_Started)) (started n r))" for w
    proof -
      consider "w \<in> set ws" | t where "t \<in> set (started n r)" "w = (t, Not_Started)"
        using w by auto
      then show ?thesis
      proof cases
        case 1
        then have "fst w \<in> set txs" using assms(2) by (auto simp: placed_def)
        then show ?thesis using 1 dist dom by (intro logged_others [OF assms(1)] frame) auto
      qed (simp add: new)
    qed
    show "events_at logs h = events_at (runner_logs r) h"
      if "h \<in> set (done_hashes r) \<union> set (error_hashes r)" "h \<in> dom (runner_logs r)" for h
      by (rule frame [OF that(2)]) (use that(1) dist in auto)
  qed (simp_all add: after_start_def lc)
qed

lemma recorded_may_consume:
  assumes "recorded show_subxt hm txs (run_runner s) (run_workers s)" and "may_consume s r0 ws0"
    and "placed txs (run_runner s) (run_workers s)" and "distinct (map task_hash txs)"
  shows "recorded show_subxt hm txs r0 ws0"
proof -
  consider "r0 = run_runner s" "ws0 = run_workers s"
    | i t x where "i < length (run_workers s)" "run_workers s ! i = (t, Returned x)"
        "r0 = record_result x (run_runner s)" "ws0 = remove_nth i (run_workers s)"
    using assms(2) by (auto simp: may_consume_def)
  then show ?thesis
  proof cases
    case 1
    then show ?thesis using assms(1) by simp
  next
    case 2
    have w: "(t, Returned x) \<in> set (run_workers s)" using 2(1,2) by (metis nth_mem)
    then have t: "t \<in> set txs" and x: "result_hash x = task_hash t"
      using assms(3) by (force simp: placed_def)+
    have "logged show_subxt hm (runner_logs (run_runner s)) t (Returned x)"
      using assms(1) w by (auto simp: recorded_def)
    moreover have "u = t" if "u \<in> set txs" "task_hash u = task_hash t" for u
      using assms(4) t that by (auto simp: distinct_map inj_on_def)
    ultimately show ?thesis
      using assms(1) x set_remove_nth [of i "run_workers s"]
      by (cases x) (auto simp: recorded_def 2(3,4))
  qed
qed

lemma recorded_display [simp]:
  "recorded show_subxt hm txs (r\<lparr>last_displayed := d\<rparr>) ws = recorded show_subxt hm txs r ws"
  by (simp add: recorded_def)

lemma recorded_consume:
  assumes "consume_pending prof rd r ws = Inr (r', ws', report)"
    and "recorded show_subxt hm txs r ws" and "placed txs r ws" and "distinct (map task_hash txs)"
  shows "recorded show_subxt hm txs r' ws'"
  using assms(1) by (rule consume_pending_Inr) (metis assms(2-4) recorded_after_start recorded_display)

lemma recorded_new:
  assumes "distinct (map task_hash txs)"
  shows "recorded show_subxt hm txs (runner_new threshold txs f b e limit) []"
proof -
  let ?logs = "collect_map (map (\<lambda>t. (task_hash t, log_new_with_tx (task_tx t))) txs)"
  have logs: "?logs = map_of (map (\<lambda>t. (task_hash t, log_new_with_tx (task_tx t))) txs)"
    by (rule collect_map_distinct) (use assms in \<open>simp add: comp_def\<close>)
  have empty: "log_events l = []" if "?logs h = Some l" for h l
    using map_of_SomeD [OF that [unfolded logs]] by (auto simp: log_new_with_tx_def)
  have dom: "dom ?logs = task_hash ` set txs" by (simp add: image_image)
  have "events_at ?logs (task_hash t) = []" if "t \<in> set txs" for t
  proof -
    have "task_hash t \<in> dom ?logs" using that dom by blast
    then obtain l where "?logs (task_hash t) = Some l" by blast
    then show ?thesis using empty by (simp add: events_at_def)
  qed
  then show ?thesis
    using counters_agree_fresh [of ?logs] empty dom by (auto simp: recorded_def runner_new_def)
qed

lemma recorded_run_new:
  assumes "distinct (map task_hash txs)"
  shows "recorded show_subxt hm txs (run_runner (run_new clock threshold txs limit))
    (run_workers (run_new clock threshold txs limit))"
proof -
  let ?r = "runner_new threshold txs None None None limit"
  obtain lc where push: "push_many (popped_events clock (take (unat threshold) (rev txs)))
      (collect_map (map (\<lambda>t. (task_hash t, log_new_with_tx (task_tx t))) txs), counters_default) = Inr lc"
    and eq: "run_new clock threshold txs limit =
      \<lparr>run_runner = after_start (unat threshold) lc ?r,
       run_workers = map (\<lambda>t. (t, Not_Started)) (take (unat threshold) (rev txs)),
       run_timeout = (case limit of Some d \<Rightarrow> d | None \<Rightarrow> seconds (2 ^ 64 - 1)), run_exit = None\<rparr>"
    by (rule run_new_eq)
  have start: "started (unat threshold) ?r = take (unat threshold) (rev txs)"
    by (simp add: started_def runner_new_def)
  have "recorded show_subxt hm txs (after_start (unat threshold) lc ?r)
      ([] @ map (\<lambda>t. (t, Not_Started)) (started (unat threshold) ?r))"
    by (rule recorded_after_start [OF recorded_new [OF assms] placed_new assms, where clock = clock])
      (simp add: start, simp add: push runner_new_def)
  then show ?thesis by (simp add: eq start)
qed

lemma recorded_runs:
  assumes "runs prof show_subxt hm (run_new clock threshold txs limit) arms s"
    and "distinct (map task_hash txs)"
  shows "recorded show_subxt hm txs (run_runner s) (run_workers s)"
  using assms(1)
proof (induction rule: runs.induct)
  case runs_start
  show ?case by (rule recorded_run_new [OF assms(2)])
next
  case (runs_arm arms s arm s')
  note placed = placed_runs [OF runs_arm(1)]
  from runs_arm(2) placed show ?case
  proof (cases rule: select_arm_cases)
    case (polled i now reply t pc es pc' logs c)
    then show ?thesis
      using recorded_poll [OF runs_arm.IH placed assms(2) polled(2-5)] by simp
  next
    case (consumed rd r0 ws0 r' ws' report)
    then show ?thesis
      using recorded_consume [OF consumed(4) _ consumed(3) assms(2)]
        recorded_may_consume [OF runs_arm.IH consumed(2) placed assms(2)] by simp
  qed (use runs_arm.IH in auto)
qed

text \<open>
  C3: the logs record what happened, for transactions with distinct hashes. In every state of a run the
  log of a transaction that was not popped is empty; the log of a worker is \<open>Popped\<close> followed by exactly
  the events its task has pushed on the way to its await point; the log of a transaction in \<open>done\<close> or
  \<open>errors\<close> is \<open>Popped\<close> followed by the events of one complete execution of its task, with that result.
\<close>

theorem run_logs_record_tasks:
  assumes "runs prof show_subxt hm (run_new clock threshold txs limit) arms s"
    and "distinct (map task_hash txs)"
  defines "events t \<equiv> log_events (the (runner_logs (run_runner s) (task_hash t)))"
  shows "(\<forall>t \<in> set (transactions (run_runner s)). events t = []) \<and>
    (\<forall>(t, pc) \<in> set (run_workers s). \<exists>now rs es.
      events t = Popped now # es \<and> task_run show_subxt hm t Not_Started rs = Some (es, pc)) \<and>
    (\<forall>t \<in> set txs. task_hash t \<in> set (done_hashes (run_runner s)) \<longrightarrow> (\<exists>now a.
      (monitor_answer a \<noteq> None) = hm \<and> events t = Popped now # fst (execute show_subxt t a) \<and>
      snd (execute show_subxt t a) = Exec_Done (task_hash t))) \<and>
    (\<forall>t \<in> set txs. task_hash t \<in> set (error_hashes (run_runner s)) \<longrightarrow> (\<exists>now a.
      (monitor_answer a \<noteq> None) = hm \<and> events t = Popped now # fst (execute show_subxt t a) \<and>
      snd (execute show_subxt t a) = Exec_Error (task_hash t)))"
proof -
  have rec: "recorded show_subxt hm txs (run_runner s) (run_workers s)" by (rule recorded_runs [OF assms(1,2)])
  have ex: "\<exists>now a. (monitor_answer a \<noteq> None) = hm \<and> events t = Popped now # fst (execute show_subxt t a) \<and>
      snd (execute show_subxt t a) = x"
    if "logged show_subxt hm (runner_logs (run_runner s)) t (Returned x)" for t x
    using that steps_execute [of show_subxt hm t _ _ x]
    unfolding logged_def events_at_def events_def by (metis fst_conv snd_conv)
  show ?thesis
  proof (intro conjI ballI impI)
    show "events t = []" if "t \<in> set (transactions (run_runner s))" for t
      using rec that by (simp add: recorded_def events_at_def events_def)
    show "case w of (t, pc) \<Rightarrow> \<exists>now rs es.
        events t = Popped now # es \<and> task_run show_subxt hm t Not_Started rs = Some (es, pc)"
      if "w \<in> set (run_workers s)" for w
    proof -
      have "logged show_subxt hm (runner_logs (run_runner s)) (fst w) (snd w)"
        using rec that by (simp add: recorded_def)
      then show ?thesis by (simp add: logged_def events_at_def events_def case_prod_beta)
    qed
  qed (use rec ex in \<open>simp_all add: recorded_def\<close>)
qed

subsection \<open>What buffered counts\<close>

text \<open>
  Transaction by transaction: a popped one that is awaiting its result, or has one result, or two.
\<close>

definition awaiting_hashes :: "'h worker list \<Rightarrow> 'h set" where
  "awaiting_hashes ws = {task_hash t | t pc. (t, pc) \<in> set ws \<and> awaiting pc}"

definition double_hashes :: "'h runner \<Rightarrow> 'h set" where
  "double_hashes r = {h \<in> dom (runner_logs r). submit_results (events_at (runner_logs r) h) = 2}"

lemma awaiting_worker:
  assumes "distinct (places r ws)" and "(t, pc) \<in> set ws"
  shows "task_hash t \<in> awaiting_hashes ws \<longleftrightarrow> awaiting pc"
proof
  assume "task_hash t \<in> awaiting_hashes ws"
  then obtain u pc' where u: "(u, pc') \<in> set ws" "awaiting pc'" "task_hash u = task_hash t"
    by (auto simp: awaiting_hashes_def)
  have "inj_on (\<lambda>w. task_hash (fst w)) (set ws)" using assms(1) by (simp add: places_def distinct_map)
  from inj_onD [OF this _ u(1) assms(2)] show "awaiting pc" using u(2,3) by simp
next
  assume "awaiting pc"
  then show "task_hash t \<in> awaiting_hashes ws" using assms(2) unfolding awaiting_hashes_def by blast
qed

lemma recorded_balance:
  assumes "recorded show_subxt hm txs r ws" and "placed txs r ws" and "distinct (map task_hash txs)"
    and "h \<in> dom (runner_logs r)"
  defines "es \<equiv> events_at (runner_logs r) h"
  shows "count_kind K_Popped es + (if h \<in> double_hashes r then 1 else 0) =
      watch_results es + submit_results es + (if h \<in> awaiting_hashes ws then 1 else 0) \<and>
    watch_results es \<le> count_kind K_Popped es \<and> count_kind K_Popped es \<le> 1 \<and> (h \<in> double_hashes r \<longrightarrow> hm)"
proof -
  have dist: "distinct (places r ws)" by (rule distinct_places [OF assms(2,3)])
  have dom: "dom (runner_logs r) = task_hash ` set txs" using assms(1) by (simp add: recorded_def)
  have double: "h \<in> double_hashes r \<longleftrightarrow> submit_results es = 2"
    using assms(4) by (simp add: double_hashes_def es_def)
  have logged_case: ?thesis
    if t: "logged show_subxt hm (runner_logs r) t pc" "task_hash t = h"
      and aw: "h \<in> awaiting_hashes ws \<longleftrightarrow> awaiting pc" for t pc
  proof -
    obtain now rs es' where es: "es = Popped now # es'"
      and run: "task_run show_subxt hm t Not_Started rs = Some (es', pc)"
      using t by (auto simp: logged_def es_def)
    from task_run_inv [OF run] show ?thesis
      using aw unfolding task_inv_def double
      by (auto simp: es watch_results_def submit_results_def split: if_splits)
  qed
  have "h \<in> set (places r ws)" using assms(4) dom set_places [OF assms(2)] by simp
  then consider t where "t \<in> set (transactions r)" "task_hash t = h"
    | t pc where "(t, pc) \<in> set ws" "task_hash t = h"
    | "h \<in> set (done_hashes r)" | "h \<in> set (error_hashes r)"
    by (auto simp: places_def)
  then show ?thesis
  proof cases
    case 1
    have "es = []" using assms(1) 1 by (auto simp: recorded_def es_def)
    moreover have "h \<notin> awaiting_hashes ws"
      using dist 1 by (force simp: places_def awaiting_hashes_def)
    ultimately show ?thesis unfolding double by (simp add: watch_results_def submit_results_def)
  next
    case 2
    have aw: "h \<in> awaiting_hashes ws \<longleftrightarrow> awaiting pc" using awaiting_worker [OF dist 2(1)] 2(2) by simp
    have "logged show_subxt hm (runner_logs r) (fst (t, pc)) (snd (t, pc))"
      using assms(1) 2(1) unfolding recorded_def by blast
    then show ?thesis using logged_case [of t pc] 2(2) aw by simp
  next
    case 3
    obtain t where t: "t \<in> set txs" "task_hash t = h" using assms(4) dom by auto
    have "h \<notin> awaiting_hashes ws" using dist 3 by (force simp: places_def awaiting_hashes_def)
    then show ?thesis using logged_case [of t "Returned (Exec_Done h)"] 3 t assms(1) by (auto simp: recorded_def)
  next
    case 4
    obtain t where t: "t \<in> set txs" "task_hash t = h" using assms(4) dom by auto
    have "h \<notin> awaiting_hashes ws" using dist 4 by (force simp: places_def awaiting_hashes_def)
    then show ?thesis using logged_case [of t "Returned (Exec_Error h)"] 4 t assms(1) by (auto simp: recorded_def)
  qed
qed

lemma awaiting_hashes_image: "awaiting_hashes ws = (\<lambda>w. task_hash (fst w)) ` {w \<in> set ws. awaiting (snd w)}"
  by (force simp: awaiting_hashes_def)

lemma card_awaiting:
  assumes "distinct (places r ws)"
  shows "card (awaiting_hashes ws) = length (filter (\<lambda>w. awaiting (snd w)) ws)"
proof -
  have "awaiting_hashes ws = set (map (\<lambda>w. task_hash (fst w)) (filter (\<lambda>w. awaiting (snd w)) ws))"
    by (force simp: awaiting_hashes_def)
  moreover have "distinct (map (\<lambda>w. task_hash (fst w)) (filter (\<lambda>w. awaiting (snd w)) ws))"
    using assms by (simp add: places_def distinct_map_filter)
  ultimately show ?thesis using distinct_card by fastforce
qed

lemma awaiting_in_dom: "placed txs r ws \<Longrightarrow> awaiting_hashes ws \<subseteq> dom (runner_logs r)"
  unfolding placed_def awaiting_hashes_def by force

lemma counter_sum:
  assumes "counters_agree logs c" and "k \<noteq> K_In_Block"
  shows "counter_of k c = of_nat (\<Sum>h\<in>dom logs. count_kind k (events_at logs h))"
  using assms
  by (simp add: counters_agree_def total_occurrences_def occurrences_def kind_count_events events_at_def)

lemma counters_sums:
  assumes "counters_agree logs c"
  defines "k kind \<equiv> (\<Sum>h\<in>dom logs. count_kind kind (events_at logs h))"
  shows "popped c = of_nat (k K_Popped)" and "submit_and_watch_success c = of_nat (k K_Watch_Success)"
    and "submit_and_watch_error c = of_nat (k K_Watch_Error)" and "submit_success c = of_nat (k K_Submit_Success)"
    and "submit_error c = of_nat (k K_Submit_Error)"
  using counter_sum [OF assms(1)] unfolding k_def by (metis counter_of.simps counter_kind.distinct)+

lemma buffered_formula:
  assumes "popped c = of_nat p" and "submit_and_watch_success c = of_nat ws"
    and "submit_and_watch_error c = of_nat we" and "submit_success c = of_nat ss"
    and "submit_error c = of_nat se" and "p < 2 ^ 62" and "ws + we \<le> p"
    and "p + d = ws + we + (ss + se) + a" and "d \<le> p"
  shows "buffered prof c =
    (if d \<le> a then Inr (of_nat (a - d)) else on_overflow prof (of_nat a - of_nat d))"
proof -
  have p: "p < 2 ^ LENGTH(64)" "ws + we < 2 ^ LENGTH(64)" "ss + se < 2 ^ LENGTH(64)" using assms by auto
  have "buffered prof c = u_sub prof (of_nat (p - (ws + we)) :: usize) (of_nat (ss + se))"
    using assms(7) p
    by (simp only: buffered_def assms(1-5) u_add_of_nat u_sub_of_nat res_bind_Inr)
  moreover have "u_sub prof (of_nat (p - (ws + we)) :: usize) (of_nat (ss + se)) =
      (if d \<le> a then Inr (of_nat (a - d)) else on_overflow prof (of_nat a - of_nat d))"
  proof (cases "d \<le> a")
    case True
    then have "ss + se \<le> p - (ws + we)" and "p - (ws + we) - (ss + se) = a - d" using assms(7,8) by auto
    then show ?thesis using True p(1) by (simp add: u_sub_of_nat del: of_nat_add of_nat_diff)
  next
    case False
    have small: "p - (ws + we) < 2 ^ LENGTH(64)" using p(1) by simp
    have less: "\<not> ss + se \<le> p - (ws + we)" using False assms(7,8) by auto
    have "p - (ws + we) + d = (ss + se) + a" using assms(7,8) by auto
    then have "(of_nat (p - (ws + we)) :: usize) + of_nat d = of_nat (ss + se) + of_nat a"
      by (metis of_nat_add)
    then have "(of_nat (p - (ws + we)) :: usize) - of_nat (ss + se) = of_nat a - of_nat d"
      by (simp add: algebra_simps)
    moreover have "\<not> (of_nat (ss + se) :: usize) \<le> of_nat (p - (ws + we))"
      unfolding word_le_nat_alt unat_of_nat_small [OF small] unat_of_nat_small [OF p(3)] by (rule less)
    ultimately show ?thesis using False by (simp add: u_sub_def)
  qed
  ultimately show ?thesis by simp
qed

lemma recorded_buffered:
  assumes "recorded show_subxt hm txs r ws" and "placed txs r ws" and "distinct (map task_hash txs)"
    and "length txs < 2 ^ 62"
  defines "a \<equiv> length (filter (\<lambda>w. awaiting (snd w)) ws)" and "d \<equiv> card (double_hashes r)"
  shows "buffered prof (event_counters r) =
      (if d \<le> a then Inr (of_nat (a - d)) else on_overflow prof (of_nat a - of_nat d)) \<and>
    (\<not> hm \<longrightarrow> d = 0)"
proof -
  let ?dom = "dom (runner_logs r)"
  let ?k = "\<lambda>k. (\<Sum>h\<in>?dom. count_kind k (events_at (runner_logs r) h))"
  have dom: "?dom = task_hash ` set txs" and agree: "counters_agree (runner_logs r) (event_counters r)"
    using assms(1) by (auto simp: recorded_def)
  have fin: "finite ?dom" and card: "card ?dom \<le> length txs"
    using dom card_image_le [of "set txs" task_hash] card_length [of txs] by auto
  note bal = recorded_balance [OF assms(1-3)]
  have a: "a = (\<Sum>h\<in>?dom. if h \<in> awaiting_hashes ws then 1 else 0)"
    using card_awaiting [OF distinct_places [OF assms(2,3)]] awaiting_in_dom [OF assms(2)] fin
    by (simp add: a_def sum.If_cases Int_absorb1)
  have d: "d = (\<Sum>h\<in>?dom. if h \<in> double_hashes r then 1 else 0)"
    using fin by (simp add: d_def sum.If_cases double_hashes_def Int_def)
  have p: "?k K_Popped \<le> card ?dom"
    using sum_bounded_above [of ?dom "\<lambda>h. count_kind K_Popped (events_at (runner_logs r) h)" 1] bal by simp
  have w: "?k K_Watch_Success + ?k K_Watch_Error = (\<Sum>h\<in>?dom. watch_results (events_at (runner_logs r) h))"
    and s: "?k K_Submit_Success + ?k K_Submit_Error = (\<Sum>h\<in>?dom. submit_results (events_at (runner_logs r) h))"
    by (simp_all add: watch_results_def submit_results_def sum.distrib)
  have "buffered prof (event_counters r) =
      (if d \<le> a then Inr (of_nat (a - d)) else on_overflow prof (of_nat a - of_nat d))"
  proof (rule buffered_formula [OF counters_sums [OF agree]])
    show "?k K_Popped < 2 ^ 62" using p card assms(4) by linarith
    show "?k K_Watch_Success + ?k K_Watch_Error \<le> ?k K_Popped"
      unfolding w by (rule sum_mono) (use bal in auto)
    show "?k K_Popped + d = ?k K_Watch_Success + ?k K_Watch_Error + (?k K_Submit_Success + ?k K_Submit_Error) + a"
      unfolding w s a d sum.distrib [symmetric]
      by (rule sum.cong) (use bal in \<open>auto simp: watch_results_def submit_results_def\<close>)
    show "d \<le> ?k K_Popped"
      unfolding d by (rule sum_mono) (use bal in \<open>fastforce simp: double_hashes_def\<close>)
  qed
  moreover have "d = 0" if "\<not> hm"
  proof -
    have "double_hashes r = {}" using bal that by (auto simp: double_hashes_def)
    then show ?thesis by (simp add: d_def)
  qed
  ultimately show ?thesis by simp
qed

text \<open>
  C14: \<open>buffered\<close>, which the code computes from five global counters, is the number of the started tasks
  that still wait for the result of their submission, less the number of tasks that recorded a second
  result; if that is negative it is an overflow. For a sink without a monitor there are no second
  results, so it is exact.
\<close>

theorem buffered_counts_awaiting:
  assumes "runs prof show_subxt hm (run_new clock threshold txs limit) arms s"
    and "distinct (map task_hash txs)" and "length txs < 2 ^ 62"
  shows "let a = length (filter (\<lambda>w. awaiting (snd w)) (run_workers s));
      d = card {h \<in> dom (runner_logs (run_runner s)).
            submit_results (log_events (the (runner_logs (run_runner s) h))) = 2}
    in buffered prof (event_counters (run_runner s)) =
        (if d \<le> a then Inr (of_nat (a - d)) else on_overflow prof (of_nat a - of_nat d)) \<and>
      (\<not> hm \<longrightarrow> d = 0)"
  using recorded_buffered [OF recorded_runs [OF assms(1,2)] placed_runs [OF assms(1)] assms(2,3)]
  by (simp add: Let_def double_hashes_def events_at_def)

lemma awaiting_remove_returned:
  assumes "i < length ws" and "ws ! i = (t, Returned x)"
  shows "filter (\<lambda>w. awaiting (snd w)) (remove_nth i ws) = filter (\<lambda>w. awaiting (snd w)) ws"
proof -
  have "ws = take i ws @ (t, Returned x) # drop (Suc i) ws"
    using assms by (metis id_take_nth_drop)
  then have "filter (\<lambda>w. awaiting (snd w)) ws =
      filter (\<lambda>w. awaiting (snd w)) (take i ws @ (t, Returned x) # drop (Suc i) ws)"
    by (rule arg_cong)
  then show ?thesis by (simp add: remove_nth_def)
qed

lemma consume_pending_value:
  assumes "to_consume prof (pending_answer rd) r = Inr (n, cc)"
    and "push_many (popped_events (popped_at rd) (started (unat n) r)) (runner_logs r, event_counters r) = Inr lc"
  shows "\<exists>d report. consume_pending prof rd r ws =
    Inr ((after_start (unat n) lc r)\<lparr>last_displayed := d\<rparr>,
         ws @ map (\<lambda>t. (t, Not_Started)) (started (unat n) r), report)"
proof -
  have "r' = r'\<lparr>last_displayed := last_displayed r'\<rparr>" for r' :: "'a runner" by simp
  then show ?thesis
    using assms by (cases "last_displayed (after_start (unat n) lc r)")
      (auto simp: consume_pending_def consume_loop_eq Let_def intro: exI [of _ "last_displayed (after_start (unat n) lc r)"])
qed

lemma to_consume_value:
  assumes "runs prof show_subxt False (run_new clock threshold txs limit) arms s"
    and "distinct (map task_hash txs)" and "length txs < 2 ^ 62" and "threshold \<noteq> usize_max"
  defines "a \<equiv> length (filter (\<lambda>w. awaiting (snd w)) (run_workers s))"
  shows "\<exists>n. to_consume prof pending (run_runner s) = Inr (n, Some pending) \<and>
    unat n = unat threshold - unat pending - a"
proof -
  note rec = recorded_runs [OF assms(1,2)] and placed = placed_runs [OF assms(1)]
  have b: "buffered prof (event_counters (run_runner s)) = Inr (of_nat a)"
    using recorded_buffered [OF rec placed assms(2,3), of prof] by (simp add: a_def)
  have th: "send_threshold (run_runner s) = threshold"
    using assms(1)
  proof (induction rule: runs.induct)
    case runs_start
    show ?case by (rule run_new_eq [of clock threshold txs limit]) (simp add: after_start_def runner_new_def)
  next
    case (runs_arm arms s arm s')
    from runs_arm(2) placed_runs [OF runs_arm(1)] show ?case
    proof (cases rule: select_arm_cases)
      case (consumed rd r0 ws0 r' ws' report)
      then show ?thesis using runs_arm.IH consume_threshold [OF consumed(4)] by (auto simp: may_consume_def)
    qed (use runs_arm.IH in auto)
  qed
  have "length (run_workers s) \<le> length (places (run_runner s) (run_workers s))" by (simp add: places_def)
  also have "\<dots> = length txs"
    using placed unfolding placed_def by (metis length_map size_mset)
  finally have "length (run_workers s) \<le> length txs" .
  moreover have "a \<le> length (run_workers s)" by (simp add: a_def)
  moreover have "(2 :: nat) ^ 62 \<le> 2 ^ LENGTH(64)" by simp
  ultimately have "a < 2 ^ LENGTH(64)" using assms(3) by linarith
  then have "unat (of_nat a :: usize) = a" by (rule unat_of_nat_small)
  then show ?thesis using assms(4) by (simp add: to_consume_def th b)
qed

lemma throttle_step:
  assumes "runs prof show_subxt False (run_new clock threshold txs limit) arms s"
    and "distinct (map task_hash txs)" and "length txs < 2 ^ 62" and "threshold \<noteq> usize_max"
    and "select_arm prof show_subxt False arm s = Some s'"
    and "arm = Tick rd \<and> ws0 = run_workers s \<or> arm = Worker_Returned i rd \<and> ws0 = remove_nth i (run_workers s)"
  shows "let n = unat threshold - unat (pending_answer rd) -
        length (filter (\<lambda>w. awaiting (snd w)) (run_workers s))
    in run_workers s' = ws0 @ map (\<lambda>t. (t, Not_Started)) (take n (rev (transactions (run_runner s)))) \<and>
      transactions (run_runner s') =
        take (length (transactions (run_runner s)) - n) (transactions (run_runner s)) \<and>
      run_exit s' = None"
proof -
  obtain n where n: "to_consume prof (pending_answer rd) (run_runner s) = Inr (n, Some (pending_answer rd))"
    and val: "unat n = unat threshold - unat (pending_answer rd) -
        length (filter (\<lambda>w. awaiting (snd w)) (run_workers s))"
    using to_consume_value [OF assms(1-4)] by blast
  have running: "run_exit s = None" using assms(5) by (rule select_arm_open)
  obtain lc where push: "push_many (popped_events (popped_at rd) (started (unat n) (run_runner s)))
      (runner_logs (run_runner s), event_counters (run_runner s)) = Inr lc"
    using popped_events_ok [OF placed_runs [OF assms(1)]] by blast
  obtain f where s': "s' = consume_then prof rd ws0 f s"
    and f: "\<And>r. transactions (f r) = transactions r"
  proof (cases "arm = Tick rd")
    case True
    then show thesis using that [of id] assms(5,6) by (auto split: if_splits)
  next
    case False
    then have arm: "arm = Worker_Returned i rd" and ws0: "ws0 = remove_nth i (run_workers s)"
      using assms(6) by auto
    obtain x where "s' = consume_then prof rd ws0 (record_result x) s"
      using assms(5) by (auto simp: arm ws0 split: if_splits task_pc.splits)
    then show thesis using that [of "record_result x"] by simp
  qed
  obtain d report where "consume_pending prof rd (run_runner s) ws0 =
      Inr ((after_start (unat n) lc (run_runner s))\<lparr>last_displayed := d\<rparr>,
           ws0 @ map (\<lambda>t. (t, Not_Started)) (started (unat n) (run_runner s)), report)"
    using consume_pending_value [OF n push] by blast
  then show ?thesis
    unfolding Let_def val [symmetric]
    by (simp add: s' consume_then_def f after_start_def started_def running)
qed

lemma no_panic_runs:
  assumes "runs prof show_subxt False (run_new clock threshold txs limit) arms s"
    and "distinct (map task_hash txs)" and "length txs < 2 ^ 62" and "threshold \<noteq> usize_max"
  shows "\<forall>p. run_exit s \<noteq> Some (Panicked p)"
  using assms(1)
proof (induction rule: runs.induct)
  case runs_start
  show ?case by (rule run_new_eq [of clock threshold txs limit]) simp
next
  case (runs_arm arms s arm s')
  have running: "run_exit s = None" using runs_arm(2) by (rule select_arm_open)
  from runs_arm(2) placed_runs [OF runs_arm(1)] show ?case
  proof (cases rule: select_arm_cases)
    case (panicked rd p)
    then show ?thesis using to_consume_value [OF runs_arm(1) assms(2-4), of "pending_answer rd"] by auto
  qed (use running in auto)
qed

text \<open>
  C18: what the throttle lets through, for a sink without a monitor. In every state of a run, a tick or a
  finished task starts exactly the next \<open>threshold - pending - awaiting\<close> tasks of the vector (none, if this
  is negative; all, if there are fewer), from its end, and neither panics.
\<close>

theorem throttle_starts:
  assumes "runs prof show_subxt False (run_new clock threshold txs limit) arms s"
    and "distinct (map task_hash txs)" and "length txs < 2 ^ 62" and "threshold \<noteq> usize_max"
    and "select_arm prof show_subxt False arm s = Some s'"
    and "arm = Tick rd \<and> ws0 = run_workers s \<or> arm = Worker_Returned i rd \<and> ws0 = remove_nth i (run_workers s)"
  shows "let n = unat threshold - unat (pending_answer rd) -
        length (filter (\<lambda>w. awaiting (snd w)) (run_workers s))
    in run_workers s' = ws0 @ map (\<lambda>t. (t, Not_Started)) (take n (rev (transactions (run_runner s)))) \<and>
      transactions (run_runner s') =
        take (length (transactions (run_runner s)) - n) (transactions (run_runner s)) \<and>
      run_exit s' = None"
  using assms by (rule throttle_step)

subsection \<open>Witnesses\<close>

theorem run_logs_record_tasks_witness:
  "\<exists>s. example_end = Some s \<and> (\<exists>now a. log_events (the (runner_logs (run_runner s) 2)) =
      Popped now # fst (execute show_unit (example_task True 2) a) \<and>
      snd (execute show_unit (example_task True 2) a) = Exec_Done 2)"
proof -
  from example_end_summary obtain s where s: "example_end = Some s" and dn: "done_hashes (run_runner s) = [2]"
    by auto
  from run_arms_runs [OF s [unfolded example_end_def]]
  have run: "runs Debug show_unit False
      (run_new (\<lambda>_. System_Time 0) 1 [example_task True 1, example_task True 2] None) example_arms s" .
  have hashes: "task_hash (example_task True n) = n" for n by (simp add: example_task_def)
  have "distinct (map task_hash [example_task True 1, example_task True 2])" by (simp add: hashes)
  from run_logs_record_tasks [OF run this]
  have "\<exists>now a. log_events (the (runner_logs (run_runner s) (task_hash (example_task True 2)))) =
      Popped now # fst (execute show_unit (example_task True 2) a) \<and>
      snd (execute show_unit (example_task True 2) a) = Exec_Done (task_hash (example_task True 2))"
    by (simp add: dn hashes) blast
  then show ?thesis using s unfolding hashes by blast
qed

definition example_running :: "nat run_state" where
  "example_running = run_new (\<lambda>_. System_Time 0) 2
     [example_task False 1, example_task False 2, example_task True 3] None"

lemma example_running_simps:
  "run_workers example_running = [(example_task True 3, Not_Started), (example_task False 2, Not_Started)]"
  "transactions (run_runner example_running) = [example_task False 1]"
  "run_exit example_running = None"
  by (simp_all add: example_running_def run_eval)

lemma example_hashes: "distinct (map task_hash [example_task False 1, example_task False 2, example_task True 3])"
  by (simp add: example_task_def)

theorem buffered_counts_awaiting_witness:
  "buffered Debug (event_counters (run_runner example_running)) = Inr 2"
proof -
  let ?D = "{h \<in> dom (runner_logs (run_runner example_running)).
      submit_results (log_events (the (runner_logs (run_runner example_running) h))) = 2}"
  have "runs Debug show_unit False example_running [] example_running" by (rule runs_start)
  note run = this [unfolded example_running_def]
  have "length [example_task False 1, example_task False 2, example_task True 3] < 2 ^ 62" by simp
  note counts = buffered_counts_awaiting [OF run example_hashes this]
  have "buffered Debug (event_counters (run_runner example_running)) =
      (if card ?D \<le> length (filter (\<lambda>w. awaiting (snd w)) (run_workers example_running))
       then Inr (of_nat (length (filter (\<lambda>w. awaiting (snd w)) (run_workers example_running)) - card ?D))
       else on_overflow Debug (of_nat (length (filter (\<lambda>w. awaiting (snd w)) (run_workers example_running))) - of_nat (card ?D))) \<and>
      (\<not> False \<longrightarrow> card ?D = 0)"
    using counts unfolding Let_def example_running_def [symmetric] .
  then have "card ?D = 0" and k: "buffered Debug (event_counters (run_runner example_running)) =
      (if card ?D \<le> length (filter (\<lambda>w. awaiting (snd w)) (run_workers example_running))
       then Inr (of_nat (length (filter (\<lambda>w. awaiting (snd w)) (run_workers example_running)) - card ?D))
       else on_overflow Debug (of_nat (length (filter (\<lambda>w. awaiting (snd w)) (run_workers example_running))) - of_nat (card ?D)))"
    by blast+
  from k show ?thesis unfolding \<open>card ?D = 0\<close> by (simp add: example_running_simps)
qed

theorem throttle_starts_witness:
  "\<exists>s'. select_arm Debug show_unit False (Tick (example_readings 0)) example_running = Some s' \<and>
     transactions (run_runner s') = [example_task False 1] \<and> run_exit s' = None"
proof -
  obtain s' where s': "select_arm Debug show_unit False (Tick (example_readings 0)) example_running = Some s'"
    by (simp add: example_running_simps example_readings_def)
  have "runs Debug show_unit False example_running [] example_running" by (rule runs_start)
  moreover have "(2 :: usize) \<noteq> usize_max" by (simp add: usize_max_def)
  ultimately have "let n = unat (2 :: usize) - unat (pending_answer (example_readings 0)) -
        length (filter (\<lambda>w. awaiting (snd w)) (run_workers example_running))
    in run_workers s' = run_workers example_running @
        map (\<lambda>t. (t, Not_Started)) (take n (rev (transactions (run_runner example_running)))) \<and>
      transactions (run_runner s') =
        take (length (transactions (run_runner example_running)) - n) (transactions (run_runner example_running)) \<and>
      run_exit s' = None"
    unfolding example_running_def
    by (intro throttle_starts [OF _ example_hashes _ _ s' [unfolded example_running_def]]) auto
  then show ?thesis using s' by (simp add: example_running_simps)
qed

end
