(* ===== verification/Fake_Run.thy ===== *)
theory Fake_Run
  imports Runner_Logs
begin

section \<open>A runner on the fake sink\<close>

text \<open>
  The runner of \<open>src/runner.rs\<close> and the sink of \<open>src/fake_transaction_sink.rs\<close> together, as the tests run
  them: the sink's state changes where the task's calls change it, and \<open>pending_extrinsics\<close> is what the
  sink then holds. The bound on the transactions in the sink is proved with the laws of the interface
  \<open>transactions_sink\<close>, which the fake sink satisfies.
\<close>

subsection \<open>The composed system\<close>

text \<open>
  A first poll runs \<open>submit\<close> or \<open>submit_and_watch\<close> up to its first await, which records the transaction; a
  status taken from the stream runs the closure mapped over it; the result of \<open>submit\<close> comes after the
  transaction has been removed.
\<close>

fun sink_effect :: "fake_hash \<Rightarrow> ('e, fake_hash) reply \<Rightarrow> fake_sink \<Rightarrow> fake_sink" where
  "sink_effect h Poll fs = fs_insert h fs"
| "sink_effect h (Stream_Reply (Some status)) fs = fs_stream_item h status fs"
| "sink_effect h (Submit_Reply _) fs = fs_remove h fs"
| "sink_effect h _ fs = fs"

definition effect_of :: "('e, fake_hash) arm \<Rightarrow> fake_hash run_state \<Rightarrow> fake_sink \<Rightarrow> fake_sink" where
  "effect_of arm s fs =
     (case arm of
        Worker_Polled i now reply \<Rightarrow> sink_effect (task_hash (fst (run_workers s ! i))) reply fs
      | _ \<Rightarrow> fs)"

inductive fake_runs ::
    "profile \<Rightarrow> ('e \<Rightarrow> string) \<Rightarrow> fake_hash run_state \<Rightarrow> ('e, fake_hash) arm list \<Rightarrow>
       fake_hash run_state \<Rightarrow> fake_sink \<Rightarrow> bool"
  for prof show_subxt s0 where
  fake_runs_start: "fake_runs prof show_subxt s0 [] s0 fs_default"
| fake_runs_arm: "fake_runs prof show_subxt s0 arms s fs \<Longrightarrow>
     select_arm prof show_subxt (fs_transaction_monitor fs \<noteq> None) arm s = Some s' \<Longrightarrow>
     asks_pending arm \<in> {None, Some (fs_pending_extrinsics fs)} \<Longrightarrow>
     fake_runs prof show_subxt s0 (arms @ [arm]) s' (effect_of arm s fs)"

lemma fake_runs_runs:
  "fake_runs prof show_subxt s0 arms s fs \<Longrightarrow> runs prof show_subxt False s0 arms s"
  by (induction rule: fake_runs.induct) (auto simp: fs_transaction_monitor_def intro: runs.intros)

subsection \<open>The bound\<close>

lemma awaiting_step:
  "task_step show_subxt hm t now pc reply = Some (es, pc') \<Longrightarrow> awaiting pc' \<Longrightarrow> awaiting pc"
  by (cases "(show_subxt, hm, t, now, pc, reply)" rule: task_step.cases) (auto split: if_splits)

lemma awaiting_hashes_poll:
  assumes "i < length ws" and "ws ! i = (t, pc)" and "awaiting pc' \<Longrightarrow> awaiting pc"
  shows "awaiting_hashes (ws[i := (t, pc')]) \<subseteq> awaiting_hashes ws"
proof
  fix h
  assume "h \<in> awaiting_hashes (ws[i := (t, pc')])"
  then obtain u q where u: "(u, q) \<in> set (ws[i := (t, pc')])" "awaiting q" "h = task_hash u"
    by (auto simp: awaiting_hashes_def)
  have w: "(t, pc) \<in> set ws" using assms(1,2) by (metis nth_mem)
  from u(1) set_update_subset_insert [of ws i "(t, pc')"] have "(u, q) = (t, pc') \<or> (u, q) \<in> set ws" by blast
  then show "h \<in> awaiting_hashes ws" using u w assms(3) unfolding awaiting_hashes_def by blast
qed

lemma finite_awaiting: "finite (awaiting_hashes ws)"
proof -
  have "awaiting_hashes ws \<subseteq> (\<lambda>w. task_hash (fst w)) ` set ws" by (force simp: awaiting_hashes_def)
  then show ?thesis by (rule finite_subset) simp
qed

lemma awaiting_hashes_append_new:
  "awaiting_hashes (ws @ map (\<lambda>t. (t, Not_Started)) ts) = awaiting_hashes ws \<union> task_hash ` set ts"
proof -
  have "{w \<in> set (ws @ map (\<lambda>t. (t, Not_Started)) ts). awaiting (snd w)} =
      {w \<in> set ws. awaiting (snd w)} \<union> (\<lambda>t. (t, Not_Started)) ` set ts"
    by auto
  then show ?thesis by (simp add: awaiting_hashes_image image_Un image_image)
qed

lemma awaiting_hashes_filter: "awaiting_hashes ws = awaiting_hashes (filter (\<lambda>w. awaiting (snd w)) ws)"
  by (auto simp: awaiting_hashes_def)

lemma sink_effect_bound:
  assumes "card (fset (fs_txs fs) \<union> held) \<le> bound" and "finite held" and "reply = Poll \<Longrightarrow> h \<in> held"
  shows "card (fset (fs_txs (sink_effect h reply fs)) \<union> held) \<le> bound"
proof (cases "(h, reply, fs)" rule: sink_effect.cases)
  case 1
  then have "h \<in> held" using assms(3) by simp
  from fsink.accept_held_back [OF this, of fs] assms(1) 1 show ?thesis by simp
next
  case (2 h' status fs')
  then show ?thesis using fsink.deliver_bound [OF assms(1,2), of h status] by simp
next
  case (3 h' r fs')
  then show ?thesis using fsink.settle_bound [OF assms(1,2), of h] by simp
qed (use assms in auto)

lemma awaiting_after_consume:
  assumes "runs prof show_subxt False (run_new clock threshold txs limit) arms s"
    and "distinct (map task_hash txs)" and "length txs < 2 ^ 62" and "threshold \<noteq> usize_max"
    and "select_arm prof show_subxt False arm s = Some s'" and "asks_pending arm = Some pending"
  shows "\<exists>ts. awaiting_hashes (run_workers s') = awaiting_hashes (run_workers s) \<union> task_hash ` set ts \<and>
    length ts \<le> unat threshold - pending - card (awaiting_hashes (run_workers s))"
proof -
  define a where "a = length (filter (\<lambda>w. awaiting (snd w)) (run_workers s))"
  define ts where "ts = take (unat threshold - pending - a) (rev (transactions (run_runner s)))"
  have a: "card (awaiting_hashes (run_workers s)) = a"
    unfolding a_def by (rule card_awaiting [OF distinct_places [OF placed_runs [OF assms(1)] assms(2)]])
  have "\<exists>ws0. run_workers s' = ws0 @ map (\<lambda>t. (t, Not_Started)) ts \<and>
      filter (\<lambda>w. awaiting (snd w)) ws0 = filter (\<lambda>w. awaiting (snd w)) (run_workers s)"
  proof (cases arm)
    case (Worker_Returned i rd)
    obtain t x where "i < length (run_workers s)" "run_workers s ! i = (t, Returned x)"
      using assms(5) unfolding Worker_Returned by (rule select_arm_returned)
    note same = awaiting_remove_returned [OF this]
    have "pending = unat (pending_answer rd)" using assms(6) by (simp add: Worker_Returned)
    with throttle_step [OF assms(1-5), of rd "remove_nth i (run_workers s)" i] same show ?thesis
      by (auto simp: Worker_Returned Let_def ts_def a_def)
  next
    case (Tick rd)
    have "pending = unat (pending_answer rd)" using assms(6) by (simp add: Tick)
    with throttle_step [OF assms(1-5), of rd "run_workers s" undefined] show ?thesis
      by (auto simp: Tick Let_def ts_def a_def)
  qed (use assms(6) in auto)
  then obtain ws0 where ws: "run_workers s' = ws0 @ map (\<lambda>t. (t, Not_Started)) ts"
    and ws0: "awaiting_hashes ws0 = awaiting_hashes (run_workers s)"
    using awaiting_hashes_filter by metis
  have "length ts \<le> unat threshold - pending - card (awaiting_hashes (run_workers s))"
    unfolding a by (simp add: ts_def)
  then show ?thesis using ws ws0 by (auto simp: awaiting_hashes_append_new)
qed

lemma fake_run_step_bound:
  assumes "fake_runs prof show_subxt (run_new clock threshold txs limit) arms s fs"
    and "distinct (map task_hash txs)" and "length txs < 2 ^ 62" and "threshold \<noteq> usize_max"
    and "select_arm prof show_subxt False arm s = Some s'"
    and "asks_pending arm \<in> {None, Some (fs_pending_extrinsics fs)}"
    and bound: "card (fset (fs_txs fs) \<union> awaiting_hashes (run_workers s)) \<le> unat threshold"
  shows "card (fset (fs_txs (effect_of arm s fs)) \<union> awaiting_hashes (run_workers s')) \<le> unat threshold"
proof -
  note run = fake_runs_runs [OF assms(1)]
  show ?thesis
  proof (cases "asks_pending arm")
    case (Some pending)
    then have pending: "pending = fs_pending_extrinsics fs" using assms(6) by auto
    have same: "effect_of arm s fs = fs" using Some by (cases arm) (auto simp: effect_of_def)
    obtain ts where ts: "awaiting_hashes (run_workers s') = awaiting_hashes (run_workers s) \<union> task_hash ` set ts"
      and len: "length ts \<le> unat threshold - pending - card (awaiting_hashes (run_workers s))"
      using awaiting_after_consume [OF run assms(2-5) Some] by blast
    have "card (task_hash ` set ts) \<le> length ts"
      using card_image_le [of "set ts" task_hash] card_length [of ts] by simp
    then have "card (task_hash ` set ts) \<le> unat threshold - fs_pending_extrinsics fs - card (awaiting_hashes (run_workers s))"
      using len pending by simp
    from fsink.admit_bound [OF bound finite_awaiting _ this] show ?thesis by (simp add: same ts)
  next
    case None
    show ?thesis
    proof (cases arm)
      case (Worker_Polled i now reply)
      from assms(5) placed_runs [OF run] show ?thesis
      proof (cases rule: select_arm_cases)
        case (polled i now reply t pc es pc' logs c)
        have sub: "awaiting_hashes (run_workers s') \<subseteq> awaiting_hashes (run_workers s)"
          using awaiting_hashes_poll [OF polled(2,3)] awaiting_step [OF polled(4)] by (simp add: polled(6))
        have "task_hash t \<in> awaiting_hashes (run_workers s)" if "reply = Poll"
        proof -
          have "pc = Not_Started" using polled(4) that by (cases pc) auto
          then show ?thesis using polled(2,3) unfolding awaiting_hashes_def
            by (metis (mono_tags, lifting) awaiting.simps(1) mem_Collect_eq nth_mem)
        qed
        from sink_effect_bound [OF bound finite_awaiting this]
        have "card (fset (fs_txs (sink_effect (task_hash t) reply fs)) \<union> awaiting_hashes (run_workers s)) \<le> unat threshold" .
        from fsink.release_bound [OF this finite_awaiting sub] show ?thesis
          by (simp add: effect_of_def polled(1,3))
      qed (use Worker_Polled in auto)
    next
      case (Timeout waited)
      then show ?thesis using assms(5) bound by (auto simp: effect_of_def split: if_splits)
    next
      case Stop
      then show ?thesis using assms(5) bound by (auto simp: effect_of_def split: if_splits)
    next
      case No_Workers
      then show ?thesis using assms(5) bound by (auto simp: effect_of_def split: if_splits)
    qed (use None in auto)
  qed
qed

text \<open>
  C1: the throttle works. When a runner with threshold below \<open>usize::MAX\<close> drives distinct transactions
  through the fake sink, then in every state of every run, whatever statuses the scripts yield and in
  whatever order the tasks are polled, the sink never holds more than \<open>threshold\<close> transactions; and this
  remains so even if all started tasks that still wait for their result are counted as well. As long as
  the scripts let no call of the sink panic, the run does not panic either; \<open>Scripted_Run\<close> has the panics.
\<close>

theorem fake_sink_never_overfilled:
  assumes "fake_runs prof show_subxt (run_new clock threshold txs limit) arms s fs"
    and "distinct (map task_hash txs)" and "length txs < 2 ^ 62" and "threshold \<noteq> usize_max"
  shows "fs_pending_extrinsics fs \<le> unat threshold \<and>
    card (fset (fs_txs fs) \<union> {task_hash t | t pc. (t, pc) \<in> set (run_workers s) \<and> awaiting pc}) \<le> unat threshold \<and>
    (\<forall>p. run_exit s \<noteq> Some (Panicked p))"
proof -
  have bound: "card (fset (fs_txs fs) \<union> awaiting_hashes (run_workers s)) \<le> unat threshold"
    using assms(1)
  proof (induction rule: fake_runs.induct)
    case fake_runs_start
    obtain ws where ws: "run_workers (run_new clock threshold txs limit) = ws" and len: "length ws \<le> unat threshold"
      by (rule run_new_eq [of clock threshold txs limit]) simp
    have "awaiting_hashes ws \<subseteq> set (map (\<lambda>w. task_hash (fst w)) ws)" by (force simp: awaiting_hashes_def)
    then have "card (awaiting_hashes ws) \<le> length (map (\<lambda>w. task_hash (fst w)) ws)"
      by (meson List.finite_set card_length card_mono le_trans)
    then show ?case using len by (simp add: ws fs_default_def)
  next
    case (fake_runs_arm arms s fs arm s')
    then show ?case
      using fake_run_step_bound [OF fake_runs_arm(1) assms(2-4)] by (simp add: fs_transaction_monitor_def)
  qed
  moreover have "fs_pending_extrinsics fs \<le> card (fset (fs_txs fs) \<union> awaiting_hashes (run_workers s))"
    unfolding fsink.pending_card by (rule card_mono) (auto simp: finite_awaiting)
  moreover have "\<forall>p. run_exit s \<noteq> Some (Panicked p)"
    using no_panic_runs [OF fake_runs_runs [OF assms(1)] assms(2-4)] .
  ultimately show ?thesis by (simp add: awaiting_hashes_def)
qed

theorem fake_sink_never_overfilled_witness:
  "\<exists>s fs. fake_runs Debug show_unit
       (run_new (\<lambda>_. System_Time 0) 1 [new_watched (fake_as_transaction (ft_new_finalizable 1 0))] None)
       [Worker_Polled 0 (System_Time 1) Poll] s fs \<and>
     fs_txs fs = {|to_le_bytes 1|} \<and> fs_pending_extrinsics fs \<le> 1"
proof -
  let ?t = "new_watched (fake_as_transaction (ft_new_finalizable 1 0))"
  let ?arm = "Worker_Polled 0 (System_Time 1) Poll :: (unit, fake_hash) arm"
  let ?s0 = "run_new (\<lambda>_. System_Time 0) 1 [?t] None"
  have ws: "run_workers ?s0 = [(?t, Not_Started)]"
    by (rule run_new_eq [of "\<lambda>_. System_Time 0" 1 "[?t]" None]) simp
  have exit: "run_exit ?s0 = None"
    by (rule run_new_eq [of "\<lambda>_. System_Time 0" 1 "[?t]" None]) simp
  have hash: "task_hash ?t = to_le_bytes 1"
    by (simp add: new_watched_def fake_as_transaction_def ft_constructor_defs)
  have "poll_worker show_unit False 0 (System_Time 1) Poll ?s0 \<noteq> None"
    by (simp add: poll_worker_def ws split: sum.split)
  then obtain s where sel: "select_arm Debug show_unit False (?arm) ?s0 = Some s"
    by (auto simp: exit)
  have run: "fake_runs Debug show_unit ?s0 ([] @ [?arm]) s
      (effect_of (?arm) ?s0 fs_default)"
    by (rule fake_runs_arm [OF fake_runs_start]) (use sel in \<open>simp_all add: fs_transaction_monitor_def\<close>)
  have fs: "fs_txs (effect_of (?arm) ?s0 fs_default) = {|to_le_bytes 1|}"
    by (simp add: effect_of_def ws hash fs_insert_def fs_default_def)
  have "fs_pending_extrinsics (effect_of (?arm) ?s0 fs_default) \<le> unat (1 :: usize)"
    by (rule fake_sink_never_overfilled [OF run, THEN conjunct1]) (simp_all add: usize_max_def)
  with run fs show ?thesis by auto
qed

end
