(* ===== verification/Scripted_Run.thy ===== *)
theory Scripted_Run
  imports Fake_Run
begin

section \<open>Runs of fake transactions to the end of their scripts\<close>

text \<open>
  A runner over the fake transactions of \<open>src/fake_transaction.rs\<close>, each played from its own script by the
  fake sink: what a task is replied is what its transaction's script says, and a call of the sink that
  panics ends the run, as a panic inside a future unwinds through \<open>workers.next()\<close> and through \<open>run\<close>.
  The result of every task turns out to be determined by its script, whatever order the tasks are polled in.
\<close>

subsection \<open>The tasks and their scripts\<close>

text \<open>A task is watched or not, and has the transaction that it submits.\<close>

fun fake_task :: "bool \<times> fake_transaction \<Rightarrow> fake_hash tx_task" where
  "fake_task (watched, ft) =
     (if watched then new_watched (fake_as_transaction ft) else new_unwatched (fake_as_transaction ft))"

text \<open>The concrete transaction behind a task, which the sink gets by \<open>downcast_ref\<close>.\<close>

definition fake_of :: "(bool \<times> fake_transaction) list \<Rightarrow> fake_hash \<rightharpoonup> fake_transaction" where
  "fake_of fts = map_of (map (\<lambda>(watched, ft). (ft_hash ft, ft)) fts)"

text \<open>The streams that are open, with the statuses they have not yielded yet.\<close>

type_synonym open_streams = "fake_hash \<rightharpoonup> fake_hash transaction_status list"

text \<open>
  What a poll of a task finds at its await point: the reply, the sink and the open streams after it, or
  the panic of the call. \<open>submit_and_watch\<close> makes its stream at the first poll, and \<open>submit\<close> waits for the
  delay of the last event of the script.
\<close>

fun fake_poll ::
    "bool \<Rightarrow> fake_transaction \<Rightarrow> fake_hash task_pc \<Rightarrow> fake_sink \<times> open_streams \<Rightarrow>
       ((unit, fake_hash) reply \<times> fake_sink \<times> open_streams) res option" where
  "fake_poll watched ft Not_Started (fs, streams) =
     Some (if watched
           then res_bind (fs_submit_and_watch ft fs)
             (\<lambda>(fs', stream). Inr (Poll, fs', streams(ft_hash ft \<mapsto> map fst stream)))
           else Inr (Poll, fs_submit_begin ft fs, streams))"
| "fake_poll watched ft At_Submit_And_Watch (fs, streams) = Some (Inr (Watch_Reply (Inr ()), fs, streams))"
| "fake_poll watched ft At_Stream_Next (fs, streams) =
     (case streams (ft_hash ft) of
        None \<Rightarrow> None
      | Some [] \<Rightarrow> Some (Inr (Stream_Reply None, fs, streams))
      | Some (status # rest) \<Rightarrow>
          Some (Inr (Stream_Reply (Some status), fs_stream_item (ft_hash ft) status fs,
            streams(ft_hash ft \<mapsto> rest))))"
| "fake_poll watched ft At_Submit (fs, streams) =
     Some (res_bind (fs_submit_end ft fs) (\<lambda>(fs', r). Inr (Submit_Reply r, fs', streams)))"
| "fake_poll watched ft At_Monitor_Wait x = None"
| "fake_poll watched ft (Returned r) x = None"

subsection \<open>The runs\<close>

record scripted =
  sc_run :: "fake_hash run_state"
  sc_sink :: fake_sink
  sc_streams :: open_streams

datatype fake_event =
    Poll_Task nat system_time
  | Select_Arm "(unit, fake_hash) arm"

text \<open>
  A first poll that panics has logged \<open>Sent\<close> before. The sink is left as it was, since nothing looks at it
  any more.
\<close>

definition panicked_poll ::
    "(unit \<Rightarrow> string) \<Rightarrow> nat \<Rightarrow> system_time \<Rightarrow> panic \<Rightarrow> fake_hash run_state \<Rightarrow> fake_hash run_state" where
  "panicked_poll show_subxt i now p s =
     (case poll_worker show_subxt False i now Poll s of None \<Rightarrow> s | Some s' \<Rightarrow> s')\<lparr>run_exit := Some (Panicked p)\<rparr>"

definition poll_task ::
    "profile \<Rightarrow> (unit \<Rightarrow> string) \<Rightarrow> (bool \<times> fake_transaction) list \<Rightarrow> nat \<Rightarrow> system_time \<Rightarrow> scripted \<Rightarrow> scripted option" where
  "poll_task prof show_subxt fts i now x =
     (let s = sc_run x
      in if run_exit s = None \<and> i < length (run_workers s)
      then (case run_workers s ! i of (task, pc) \<Rightarrow>
        (case fake_of fts (task_hash task) of
           None \<Rightarrow> None
         | Some ft \<Rightarrow>
             (case fake_poll (task_watched task) ft pc (sc_sink x, sc_streams x) of
                None \<Rightarrow> None
              | Some (Inl p) \<Rightarrow> Some (x\<lparr>sc_run := panicked_poll show_subxt i now p s\<rparr>)
              | Some (Inr (reply, fs, streams)) \<Rightarrow>
                  map_option (\<lambda>s'. \<lparr>sc_run = s', sc_sink = fs, sc_streams = streams\<rparr>)
                    (select_arm prof show_subxt False (Worker_Polled i now reply) s))))
      else None)"

fun scripted_step ::
    "profile \<Rightarrow> (unit \<Rightarrow> string) \<Rightarrow> (bool \<times> fake_transaction) list \<Rightarrow> fake_event \<Rightarrow> scripted \<Rightarrow> scripted option" where
  "scripted_step prof show_subxt fts (Poll_Task i now) x = poll_task prof show_subxt fts i now x"
| "scripted_step prof show_subxt fts (Select_Arm (Worker_Polled i now reply)) x = None"
| "scripted_step prof show_subxt fts (Select_Arm arm) x =
     (if asks_pending arm \<in> {None, Some (fs_pending_extrinsics (sc_sink x))}
      then map_option (\<lambda>s. x\<lparr>sc_run := s\<rparr>) (select_arm prof show_subxt False arm (sc_run x)) else None)"

inductive scripted_runs ::
    "profile \<Rightarrow> (unit \<Rightarrow> string) \<Rightarrow> (bool \<times> fake_transaction) list \<Rightarrow> fake_hash run_state \<Rightarrow> fake_event list \<Rightarrow>
       scripted \<Rightarrow> bool"
  for prof show_subxt fts s0 where
  scripted_start: "scripted_runs prof show_subxt fts s0 [] \<lparr>sc_run = s0, sc_sink = fs_default, sc_streams = Map.empty\<rparr>"
| scripted_event: "scripted_runs prof show_subxt fts s0 evs x \<Longrightarrow> scripted_step prof show_subxt fts ev x = Some x' \<Longrightarrow>
     scripted_runs prof show_subxt fts s0 (evs @ [ev]) x'"

text \<open>
  An event is an arm of the event loop on the fake sink, with the reply of the script, or the panic of a
  call of the sink.
\<close>

lemma fake_task_fields [simp]: "task_hash (fake_task v) = ft_hash (snd v)" "task_watched (fake_task v) = fst v"
  by (cases v; simp add: new_watched_def new_unwatched_def fake_as_transaction_def)+

declare fake_task.simps [simp del]

lemma fake_poll_effect:
  assumes "fake_poll w ft pc (fs, streams) = Some (Inr (reply, fs', streams'))"
  shows "fs' = sink_effect (ft_hash ft) reply fs \<and> (\<forall>h. h \<noteq> ft_hash ft \<longrightarrow> streams' h = streams h)"
  using assms
  by (cases pc) (auto simp: fs_submit_and_watch_def fs_submit_begin_def fs_submit_end_def Let_def res_bind_eq_Inr
      split: if_splits option.splits list.splits)

lemma fake_of_task:
  assumes "distinct (map (ft_hash \<circ> snd) fts)" and "(w, ft) \<in> set fts"
  shows "fake_of fts (ft_hash ft) = Some ft"
proof -
  have "(ft_hash ft, ft) \<in> set (map (\<lambda>(watched, ft). (ft_hash ft, ft)) fts)" using assms(2) by force
  moreover have "distinct (map fst (map (\<lambda>(watched, ft). (ft_hash ft, ft)) fts))"
    using assms(1) by (simp add: comp_def case_prod_beta)
  ultimately show ?thesis unfolding fake_of_def by (metis map_of_is_SomeI)
qed

lemma fake_task_inj:
  assumes "distinct (map (ft_hash \<circ> snd) fts)" and "(w, ft) \<in> set fts" and "(w', ft') \<in> set fts"
    and "ft_hash ft = ft_hash ft'"
  shows "w = w' \<and> ft = ft'"
proof -
  have "inj_on (ft_hash \<circ> snd) (set fts)" using assms(1) by (simp add: distinct_map)
  from inj_onD [OF this _ assms(2,3)] show ?thesis using assms(4) by simp
qed

lemma scripted_step_cases:
  assumes "scripted_step prof show_subxt fts ev x = Some x'"
    and "distinct (map (ft_hash \<circ> snd) fts)" and "fst ` set (run_workers (sc_run x)) \<subseteq> set (map fake_task fts)"
  obtains (polled) i now w ft pc reply where "i < length (run_workers (sc_run x))"
      and "run_workers (sc_run x) ! i = (fake_task (w, ft), pc)" and "(w, ft) \<in> set fts"
      and "fake_poll w ft pc (sc_sink x, sc_streams x) = Some (Inr (reply, sc_sink x', sc_streams x'))"
      and "select_arm prof show_subxt False (Worker_Polled i now reply) (sc_run x) = Some (sc_run x')"
      and "sc_sink x' = sink_effect (ft_hash ft) reply (sc_sink x)"
  | (panicked) i now w ft pc p where "i < length (run_workers (sc_run x))" and "run_exit (sc_run x) = None"
      and "run_workers (sc_run x) ! i = (fake_task (w, ft), pc)" and "(w, ft) \<in> set fts"
      and "fake_poll w ft pc (sc_sink x, sc_streams x) = Some (Inl p)"
      and "x' = x\<lparr>sc_run := panicked_poll show_subxt i now p (sc_run x)\<rparr>"
  | (arm) arm s where "\<nexists>i now reply. arm = Worker_Polled i now reply"
      and "asks_pending arm \<in> {None, Some (fs_pending_extrinsics (sc_sink x))}"
      and "select_arm prof show_subxt False arm (sc_run x) = Some s" and "x' = x\<lparr>sc_run := s\<rparr>"
proof (cases ev)
  case (Poll_Task i now)
  have step: "poll_task prof show_subxt fts i now x = Some x'" using assms(1) Poll_Task by simp
  then have running: "run_exit (sc_run x) = None" and i: "i < length (run_workers (sc_run x))"
    by (auto simp: poll_task_def Let_def split: if_splits)
  obtain t pc where w: "run_workers (sc_run x) ! i = (t, pc)" by fastforce
  then have "t \<in> fst ` set (run_workers (sc_run x))" using i by (metis fst_conv imageI nth_mem)
  then obtain w ft where t: "t = fake_task (w, ft)" and ft: "(w, ft) \<in> set fts" using assms(3) by auto
  note of = fake_of_task [OF assms(2) ft]
  show thesis
  proof (cases "fake_poll w ft pc (sc_sink x, sc_streams x)")
    case None
    then show thesis using step running i w of by (simp add: poll_task_def t)
  next
    case (Some r)
    show thesis
    proof (cases r)
      case (Inl p)
      then have "x' = x\<lparr>sc_run := panicked_poll show_subxt i now p (sc_run x)\<rparr>"
        using step running i w of Some by (simp add: poll_task_def t)
      then show thesis using panicked i running w t ft Some Inl by blast
    next
      case (Inr y)
      obtain reply fs streams where y: "y = (reply, fs, streams)" by (cases y)
      from step running i w of Some obtain s'
        where "select_arm prof show_subxt False (Worker_Polled i now reply) (sc_run x) = Some s'"
          and "x' = \<lparr>sc_run = s', sc_sink = fs, sc_streams = streams\<rparr>"
        by (auto simp: poll_task_def t Inr y  select_arm.simps)
      then show thesis
        using polled [OF i w [unfolded t] ft] Some fake_poll_effect [of w ft pc _ _ reply fs streams]
        by (simp add: Inr y)
    qed
  qed
next
  case (Select_Arm a)
  then have "\<nexists>i now reply. a = Worker_Polled i now reply" using assms(1) by auto
  moreover from this have "asks_pending a \<in> {None, Some (fs_pending_extrinsics (sc_sink x))}"
    and "\<exists>s. select_arm prof show_subxt False a (sc_run x) = Some s \<and> x' = x\<lparr>sc_run := s\<rparr>"
    using assms(1) Select_Arm by (cases a; auto split: if_splits simp del: select_arm.simps)+
  ultimately show thesis using arm by blast
qed

subsection \<open>The results that the scripts determine\<close>

text \<open>
  The verdict on a transaction, from its script alone: a watched one is done if the first terminal status
  of its stream is \<open>Finalized\<close>; an unwatched one is done if its submission succeeds. A script that is missing
  or, for an unwatched transaction, does not end with a terminal event makes the sink panic.
\<close>

fun stream_verdict :: "'h \<Rightarrow> 'h transaction_status list \<Rightarrow> 'h execution_result" where
  "stream_verdict h [] = Exec_Error h"
| "stream_verdict h (s # ss) =
     (if is_finalized s then Exec_Done h else if is_error s then Exec_Error h else stream_verdict h ss)"

definition fake_verdict :: "bool \<Rightarrow> fake_transaction \<Rightarrow> fake_hash execution_result res" where
  "fake_verdict watched ft =
     (if watched then res_bind (ft_events ft) (\<lambda>stream. Inr (stream_verdict (ft_hash ft) (map fst stream)))
      else res_bind (submit_result ft :: (unit error + fake_hash) res)
        (\<lambda>r. Inr (case r of Inl _ \<Rightarrow> Exec_Error (ft_hash ft) | Inr _ \<Rightarrow> Exec_Done (ft_hash ft))))"

lemma scripted_same [simp]: "x\<lparr>sc_run := sc_run x\<rparr> = (x :: scripted)"
  by (cases x) simp

text \<open>What is known of a task that has been played up to an await point.\<close>

fun on_script :: "bool \<Rightarrow> fake_transaction \<Rightarrow> fake_hash task_pc \<Rightarrow> fake_hash transaction_status list option \<Rightarrow> bool" where
  "on_script w ft Not_Started rest = True"
| "on_script w ft At_Submit rest = (\<not> w)"
| "on_script w ft At_Monitor_Wait rest = False"
| "on_script w ft (Returned r) rest = (fake_verdict w ft = Inr r)"
| "on_script w ft pc rest = (w \<and> (\<exists>ss. rest = Some ss \<and> fake_verdict w ft = Inr (stream_verdict (ft_hash ft) ss)))"

lemma on_script_step:
  assumes "fake_poll w ft pc (fs, streams) = Some (Inr (reply, fs', streams'))"
    and "task_step show_subxt False (fake_task (w, ft)) now pc reply = Some (es, pc')"
    and "on_script w ft pc (streams (ft_hash ft))"
  shows "on_script w ft pc' (streams' (ft_hash ft))"
proof (cases pc)
  case At_Submit
  then obtain r where "submit_result ft = Inr r" and "reply = Submit_Reply r"
    using assms(1) by (auto simp: fs_submit_end_def res_bind_eq_Inr)
  then show ?thesis
    using assms(2,3) At_Submit by (cases r) (auto simp: fake_verdict_def)
qed (use assms in \<open>auto simp: fs_submit_and_watch_def fake_verdict_def Let_def res_bind_eq_Inr
     split: if_splits option.splits list.splits\<close>)

lemma on_script_panic:
  assumes "fake_poll w ft pc (fs, streams) = Some (Inl p)" and "on_script w ft pc rest"
  shows "fake_verdict w ft = Inl p"
  using assms
  by (cases pc) (auto simp: fs_submit_and_watch_def fs_submit_end_def fake_verdict_def Let_def res_bind_def
      split: if_splits option.splits list.splits sum.splits)

definition on_scripts :: "(bool \<times> fake_transaction) list \<Rightarrow> scripted \<Rightarrow> bool" where
  "on_scripts fts x \<longleftrightarrow> (\<forall>(w, ft) \<in> set fts.
     (\<forall>pc. (fake_task (w, ft), pc) \<in> set (run_workers (sc_run x)) \<longrightarrow> on_script w ft pc (sc_streams x (ft_hash ft))) \<and>
     (ft_hash ft \<in> set (done_hashes (run_runner (sc_run x))) \<longrightarrow> fake_verdict w ft = Inr (Exec_Done (ft_hash ft))) \<and>
     (ft_hash ft \<in> set (error_hashes (run_runner (sc_run x))) \<longrightarrow> fake_verdict w ft = Inr (Exec_Error (ft_hash ft))))"

lemma poll_worker_lists:
  assumes "poll_worker show_subxt hm i now reply s = Some s'"
  shows "done_hashes (run_runner s') = done_hashes (run_runner s)"
    and "error_hashes (run_runner s') = error_hashes (run_runner s)"
    and "transactions (run_runner s') = transactions (run_runner s)"
    and "map fst (run_workers s') = map fst (run_workers s)"
  using assms
  by (auto simp: poll_worker_def map_update list_update_id split: if_splits option.splits sum.splits prod.splits
      intro!: nth_equalityI simp: nth_list_update)

lemma panicked_poll_lists [simp]:
  "run_exit (panicked_poll show_subxt i now p s) = Some (Panicked p)"
  "done_hashes (run_runner (panicked_poll show_subxt i now p s)) = done_hashes (run_runner s)"
  "error_hashes (run_runner (panicked_poll show_subxt i now p s)) = error_hashes (run_runner s)"
  "transactions (run_runner (panicked_poll show_subxt i now p s)) = transactions (run_runner s)"
  "map fst (run_workers (panicked_poll show_subxt i now p s)) = map fst (run_workers s)"
  by (auto simp: panicked_poll_def poll_worker_lists split: option.splits)

lemma on_scriptsI:
  assumes "\<And>w ft pc. (w, ft) \<in> set fts \<Longrightarrow> (fake_task (w, ft), pc) \<in> set (run_workers (sc_run x)) \<Longrightarrow>
        on_script w ft pc (sc_streams x (ft_hash ft))"
    and "\<And>w ft. (w, ft) \<in> set fts \<Longrightarrow> ft_hash ft \<in> set (done_hashes (run_runner (sc_run x))) \<Longrightarrow>
        fake_verdict w ft = Inr (Exec_Done (ft_hash ft))"
    and "\<And>w ft. (w, ft) \<in> set fts \<Longrightarrow> ft_hash ft \<in> set (error_hashes (run_runner (sc_run x))) \<Longrightarrow>
        fake_verdict w ft = Inr (Exec_Error (ft_hash ft))"
  shows "on_scripts fts x"
  using assms by (auto simp: on_scripts_def)

lemma on_scriptsD:
  assumes "on_scripts fts x" and "(w, ft) \<in> set fts"
  shows "(fake_task (w, ft), pc) \<in> set (run_workers (sc_run x)) \<Longrightarrow> on_script w ft pc (sc_streams x (ft_hash ft))"
    and "ft_hash ft \<in> set (done_hashes (run_runner (sc_run x))) \<Longrightarrow> fake_verdict w ft = Inr (Exec_Done (ft_hash ft))"
    and "ft_hash ft \<in> set (error_hashes (run_runner (sc_run x))) \<Longrightarrow> fake_verdict w ft = Inr (Exec_Error (ft_hash ft))"
  using assms by (auto simp: on_scripts_def)

lemma on_scripts_polled:
  assumes "on_scripts fts x" and "(w, ft) \<in> set fts" and "distinct (map (ft_hash \<circ> snd) fts)"
    and "distinct (map (\<lambda>v. task_hash (fst v)) (run_workers (sc_run x)))"
    and "i < length (run_workers (sc_run x))" and "run_workers (sc_run x) ! i = (fake_task (w, ft), pc)"
    and "fake_poll w ft pc (sc_sink x, sc_streams x) = Some (Inr (reply, sc_sink x', sc_streams x'))"
    and "task_step show_subxt False (fake_task (w, ft)) now pc reply = Some (es, pc')"
    and "run_workers (sc_run x') = (run_workers (sc_run x))[i := (fake_task (w, ft), pc')]"
    and "done_hashes (run_runner (sc_run x')) = done_hashes (run_runner (sc_run x))"
    and "error_hashes (run_runner (sc_run x')) = error_hashes (run_runner (sc_run x))"
  shows "on_scripts fts x'"
proof (rule on_scriptsI)
  fix v gt q assume v: "(v, gt) \<in> set fts" and q: "(fake_task (v, gt), q) \<in> set (run_workers (sc_run x'))"
  have "(fake_task (w, ft), pc) \<in> set (run_workers (sc_run x))" using assms(5,6) by (metis nth_mem)
  note here = on_script_step [OF assms(7,8) on_scriptsD(1) [OF assms(1,2) this]]
  from set_update_distinct [OF assms(4,5) q [unfolded assms(9)]]
  consider "fake_task (v, gt) = fake_task (w, ft)" "q = pc'"
    | "(fake_task (v, gt), q) \<in> set (run_workers (sc_run x))" "ft_hash gt \<noteq> ft_hash ft"
    by (auto simp: assms(6))
  then show "on_script v gt q (sc_streams x' (ft_hash gt))"
  proof cases
    case 1
    then have "ft_hash gt = ft_hash ft" by (metis fake_task_fields(1) snd_conv)
    then show ?thesis using here fake_task_inj [OF assms(3) v assms(2)] 1(2) by simp
  next
    case 2
    then show ?thesis using on_scriptsD(1) [OF assms(1) v] fake_poll_effect [OF assms(7)] by simp
  qed
qed (use assms(1,10,11) in \<open>auto dest: on_scriptsD\<close>)

lemma on_scripts_consumed:
  assumes "on_scripts fts x" and "distinct (map (ft_hash \<circ> snd) fts)"
    and "placed (map fake_task fts) (run_runner (sc_run x)) (run_workers (sc_run x))"
    and "may_consume (sc_run x) r0 ws0" and "consume_pending prof rd r0 ws0 = Inr (r', ws', report)"
    and "run_runner (sc_run x') = r'" and "run_workers (sc_run x') = ws'" and "sc_streams x' = sc_streams x"
  shows "on_scripts fts x'"
proof -
  obtain n :: usize and lc where "r' = (after_start (unat n) lc r0)\<lparr>last_displayed := last_displayed r'\<rparr>"
    and ws': "ws' = ws0 @ map (\<lambda>t. (t, Not_Started)) (started (unat n) r0)"
    by (rule consume_pending_Inr [OF assms(5)]) blast
  then have lists: "done_hashes r' = done_hashes r0" "error_hashes r' = error_hashes r0"
    by (metis (no_types, lifting) after_start_def runner.select_convs(4,5) runner.surjective runner.update_convs)+
  have sub: "set ws0 \<subseteq> set (run_workers (sc_run x))"
    using assms(4) set_remove_nth [of _ "run_workers (sc_run x)"] by (auto simp: may_consume_def simp del: split_paired_All)
  have results: "(h \<in> set (done_hashes r0) \<longrightarrow> h \<in> set (done_hashes (run_runner (sc_run x))) \<or>
        (\<exists>t. (t, Returned (Exec_Done h)) \<in> set (run_workers (sc_run x)) \<and> task_hash t = h)) \<and>
      (h \<in> set (error_hashes r0) \<longrightarrow> h \<in> set (error_hashes (run_runner (sc_run x))) \<or>
        (\<exists>t. (t, Returned (Exec_Error h)) \<in> set (run_workers (sc_run x)) \<and> task_hash t = h))" for h
    using assms(4)
  proof (unfold may_consume_def, elim disjE exE conjE)
    fix i t y
    assume i: "i < length (run_workers (sc_run x))" "run_workers (sc_run x) ! i = (t, Returned y)"
      and r0: "r0 = record_result y (run_runner (sc_run x))"
    then have w: "(t, Returned y) \<in> set (run_workers (sc_run x))" by (metis nth_mem)
    then have "result_hash y = task_hash t" using assms(3) by (fastforce simp: placed_def)
    with w r0 show ?thesis by (cases y) auto
  qed simp
  have own: "\<exists>v. t = fake_task v \<and> v \<in> set fts" if "(t, q) \<in> set (run_workers (sc_run x))" for t q
  proof -
    have "t \<in> set (map fake_task fts)" using assms(3) that by (force simp: placed_def)
    then show ?thesis by auto
  qed
  have verdict: "fake_verdict w ft = Inr y"
    if ft: "(w, ft) \<in> set fts" and t: "(t, Returned y) \<in> set (run_workers (sc_run x))" "task_hash t = ft_hash ft"
    for w ft t y
  proof -
    obtain v gt where gt: "t = fake_task (v, gt)" "(v, gt) \<in> set fts" using own [OF t(1)] by auto
    then have "v = w \<and> gt = ft" using fake_task_inj [OF assms(2) gt(2) ft] t(2) by simp
    then show ?thesis using on_scriptsD(1) [OF assms(1) ft] t(1) gt(1) by fastforce
  qed
  show ?thesis
  proof (rule on_scriptsI)
    show "on_script w ft q (sc_streams x' (ft_hash ft))"
      if "(w, ft) \<in> set fts" "(fake_task (w, ft), q) \<in> set (run_workers (sc_run x'))" for w ft q
      using that sub on_scriptsD(1) [OF assms(1) that(1)] by (auto simp: assms(7,8) ws')
  qed (use results lists verdict on_scriptsD(2,3) [OF assms(1)] in \<open>auto simp: assms(6); blast\<close>)+
qed


subsection \<open>Scripted runs are runs of the fake sink\<close>

text \<open>Up to a panic of the sink, a scripted run is one of the runs that the throttle is proved for.\<close>

lemma distinct_fake_tasks:
  "distinct (map (ft_hash \<circ> snd) fts) \<Longrightarrow> distinct (map task_hash (map fake_task fts))"
  by (simp add: comp_def)

lemma scripted_step_open: "scripted_step prof show_subxt fts ev x = Some x' \<Longrightarrow> run_exit (sc_run x) = None"
  by (cases "(prof, show_subxt, fts, ev, x)" rule: scripted_step.cases)
    (auto simp: poll_task_def Let_def dest: select_arm_open split: if_splits simp del: select_arm.simps)

lemma scripted_fake_runs:
  fixes fts
  defines "s0 \<equiv> \<lambda>clock threshold limit. run_new clock threshold (map fake_task fts) limit"
  assumes "scripted_runs prof show_subxt fts (s0 clock threshold limit) evs x"
    and "distinct (map (ft_hash \<circ> snd) fts)"
  shows "\<exists>arms s. fake_runs prof show_subxt (s0 clock threshold limit) arms s (sc_sink x) \<and>
      on_scripts fts (x\<lparr>sc_run := s\<rparr>) \<and>
      (sc_run x = s \<or> (\<exists>i now p w ft. (w, ft) \<in> set fts \<and> fake_verdict w ft = Inl p \<and>
        sc_run x = panicked_poll show_subxt i now p s))"
  using assms(2)
proof (induction rule: scripted_runs.induct)
  case scripted_start
  have "on_scripts fts \<lparr>sc_run = s0 clock threshold limit, sc_sink = fs_default, sc_streams = Map.empty\<rparr>"
    unfolding s0_def
    by (rule run_new_eq [of clock threshold "map fake_task fts" limit], rule on_scriptsI)
      (auto simp: after_start_def runner_new_def)
  then show ?case by (intro exI [of _ "[]"] exI [of _ "s0 clock threshold limit"]) (simp add: fake_runs_start)
next
  case (scripted_event evs x ev x')
  from scripted_event.IH scripted_step_open [OF scripted_event.hyps(2)] obtain arms
    where run: "fake_runs prof show_subxt (s0 clock threshold limit) arms (sc_run x) (sc_sink x)" and inv: "on_scripts fts x"
    by auto
  have placed: "placed (map fake_task fts) (run_runner (sc_run x)) (run_workers (sc_run x))"
    using placed_runs [OF fake_runs_runs [OF run [unfolded s0_def]]] .
  have workers: "distinct (map (\<lambda>v. task_hash (fst v)) (run_workers (sc_run x)))"
    using distinct_places [OF placed distinct_fake_tasks [OF assms(3)]] by (simp add: places_def)
  have tasks: "fst ` set (run_workers (sc_run x)) \<subseteq> set (map fake_task fts)" using placed by (simp add: placed_def)
  from scripted_event.hyps(2) assms(3) tasks show ?case
  proof (cases rule: scripted_step_cases)
    case (polled i now w ft pc reply)
    note ft = polled(3) and poll = polled(4)
    have "fake_runs prof show_subxt (s0 clock threshold limit) (arms @ [Worker_Polled i now reply]) (sc_run x')
        (effect_of (Worker_Polled i now reply) (sc_run x) (sc_sink x))"
      by (rule fake_runs_arm [OF run]) (use polled(5) in \<open>simp_all add: fs_transaction_monitor_def del: select_arm.simps\<close>)
    then have next_run: "fake_runs prof show_subxt (s0 clock threshold limit) (arms @ [Worker_Polled i now reply])
        (sc_run x') (sc_sink x')"
      using polled(2,6) by (simp add: effect_of_def)
    from polled(5) placed have "on_scripts fts x'"
    proof (cases rule: select_arm_cases)
      case (polled j now' reply' t pc0 es pc' logs c)
      then show ?thesis
        using on_scripts_polled [OF inv ft assms(3) workers _ _ poll, of i show_subxt now es pc']
          \<open>run_workers (sc_run x) ! i = (fake_task (w, ft), pc)\<close> by (simp)
    qed auto
    with next_run show ?thesis by (intro exI [of _ "arms @ [Worker_Polled i now reply]"] exI [of _ "sc_run x'"]) simp
  next
    case (panicked i now w ft pc p)
    have "(fake_task (w, ft), pc) \<in> set (run_workers (sc_run x))" using panicked(1,3) by (metis nth_mem)
    then have "fake_verdict w ft = Inl p"
      using on_script_panic [OF panicked(5)] on_scriptsD(1) [OF inv panicked(4)] by blast
    then have "\<exists>i now p w ft. (w, ft) \<in> set fts \<and> fake_verdict w ft = Inl p \<and>
        sc_run x' = panicked_poll show_subxt i now p (sc_run x)"
      using panicked(4,6) by force
    then show ?thesis using run inv panicked(6) by (intro exI [of _ arms] exI [of _ "sc_run x"]) simp
  next
    case (arm a s)
    have other: "effect_of a t fs = fs" for t fs using arm(1) by (cases a) (auto simp: effect_of_def)
    have next_run: "fake_runs prof show_subxt (s0 clock threshold limit) (arms @ [a]) s (sc_sink x)"
      using fake_runs_arm [OF run, of a s] arm(2,3) other by (simp add: fs_transaction_monitor_def del: select_arm.simps)
    from arm(3) placed have "on_scripts fts x'"
    proof (cases rule: select_arm_cases)
      case (consumed rd r0 ws0 r' ws' report)
      then show ?thesis by (intro on_scripts_consumed [OF inv assms(3) placed consumed(2,4)]) (simp_all add: arm(4))
    qed (use arm(1,4) inv in \<open>auto simp: on_scripts_def\<close>)
    with next_run show ?thesis using arm(4) by auto
  qed
qed

subsection \<open>What a run reports\<close>

text \<open>
  C4: the result that a run reports for a fake transaction is the one that its script determines, whatever the
  order in which the tasks are polled and however the throttle spreads them. A transaction in \<open>done\<close> is a
  watched one whose stream comes to \<open>Finalized\<close> before any other terminal status, or an unwatched one whose
  submission succeeds; one in \<open>errors\<close> is any other. A run panics only with the panic of a transaction whose
  script is missing or, for an unwatched one, stops short of a terminal event.
\<close>

theorem scripted_run_outcome:
  assumes "scripted_runs prof show_subxt fts (run_new clock threshold (map fake_task fts) limit) evs x"
    and "distinct (map (ft_hash \<circ> snd) fts)" and "length fts < 2 ^ 62" and "threshold \<noteq> usize_max"
  shows "(\<forall>(w, ft) \<in> set fts.
      (ft_hash ft \<in> set (done_hashes (run_runner (sc_run x))) \<longrightarrow> fake_verdict w ft = Inr (Exec_Done (ft_hash ft))) \<and>
      (ft_hash ft \<in> set (error_hashes (run_runner (sc_run x))) \<longrightarrow> fake_verdict w ft = Inr (Exec_Error (ft_hash ft)))) \<and>
    (\<forall>p. run_exit (sc_run x) = Some (Panicked p) \<longrightarrow> (\<exists>(w, ft) \<in> set fts. fake_verdict w ft = Inl p))"
proof -
  obtain arms s where run: "fake_runs prof show_subxt (run_new clock threshold (map fake_task fts) limit) arms s (sc_sink x)"
    and inv: "on_scripts fts (x\<lparr>sc_run := s\<rparr>)"
    and s: "sc_run x = s \<or> (\<exists>i now p w ft. (w, ft) \<in> set fts \<and> fake_verdict w ft = Inl p \<and>
        sc_run x = panicked_poll show_subxt i now p s)"
    using scripted_fake_runs [OF assms(1,2)] by blast
  have "\<forall>p. run_exit s \<noteq> Some (Panicked p)"
    using no_panic_runs [OF fake_runs_runs [OF run] distinct_fake_tasks [OF assms(2)]] assms(3,4) by simp
  then have "\<forall>p. run_exit (sc_run x) = Some (Panicked p) \<longrightarrow> (\<exists>(w, ft) \<in> set fts. fake_verdict w ft = Inl p)"
    using s by fastforce
  moreover have "done_hashes (run_runner (sc_run x)) = done_hashes (run_runner s)"
    and "error_hashes (run_runner (sc_run x)) = error_hashes (run_runner s)"
    using s by auto
  ultimately show ?thesis using inv by (auto simp: on_scripts_def)
qed

end
