(* ===== verification/Scripted_End.thy ===== *)
theory Scripted_End
  imports Scripted_Run
begin

section \<open>Fake runs that end have sent everything\<close>

text \<open>
  When every script ends, a runner over fake transactions leaves its event loop for want of futures only
  when all transactions have been sent and the sink is empty: the situation in which the loop gives up
  with transactions unsent (\<open>ends_with_unsent\<close> in \<open>Runner\<close>) needs a sink that still counts as pending what
  no worker waits for.
\<close>

subsection \<open>What the sink holds\<close>

text \<open>Every transaction can be played to the end of its task: the sink does not panic, and a stream comes to
  a terminal status, at which the sink forgets the transaction.\<close>

definition ends_script :: "bool \<Rightarrow> fake_transaction \<Rightarrow> bool" where
  "ends_script w ft =
     (if w then (case ft_events ft of Inl _ \<Rightarrow> False | Inr stream \<Rightarrow> \<exists>s \<in> set stream. is_terminal (fst s))
      else (case (submit_result ft :: (unit error + fake_hash) res) of Inl _ \<Rightarrow> False | Inr _ \<Rightarrow> True))"

fun in_sink :: "'h task_pc \<Rightarrow> bool" where
  "in_sink At_Submit_And_Watch = True"
| "in_sink At_Stream_Next = True"
| "in_sink At_Submit = True"
| "in_sink _ = False"

fun stream_open :: "'h task_pc \<Rightarrow> fake_hash transaction_status list option \<Rightarrow> bool" where
  "stream_open At_Submit_And_Watch rest = (\<exists>ss. rest = Some ss \<and> (\<exists>s \<in> set ss. is_terminal s))"
| "stream_open At_Stream_Next rest = (\<exists>ss. rest = Some ss \<and> (\<exists>s \<in> set ss. is_terminal s))"
| "stream_open _ rest = True"

lemma fake_poll_sink:
  assumes "fake_poll w ft pc (fs, streams) = Some (Inr (reply, fs', streams'))"
    and "task_step show_subxt False (fake_task (w, ft)) now pc reply = Some (es, pc')"
    and "ends_script w ft" and "stream_open pc (streams (ft_hash ft))"
  shows "stream_open pc' (streams' (ft_hash ft)) \<and> (ft_hash ft |\<in>| fs_txs fs' \<longrightarrow> in_sink pc') \<and>
    (\<forall>h. h \<noteq> ft_hash ft \<longrightarrow> h |\<in>| fs_txs fs' \<longrightarrow> h |\<in>| fs_txs fs)"
proof (cases pc)
  case Not_Started
  then show ?thesis
    using assms(1-3) by (cases w) (auto simp: fs_submit_and_watch_def fs_submit_begin_def ends_script_def fs_insert_def
        Let_def res_bind_eq_Inr)
next
  case At_Stream_Next
  then obtain s ss where "streams (ft_hash ft) = Some (s # ss)"
    and "is_terminal s \<or> (\<exists>u \<in> set ss. is_terminal u)"
    using assms(4) by (cases "streams (ft_hash ft)"; cases "the (streams (ft_hash ft))") auto
  then show ?thesis
    using assms(1,2) At_Stream_Next txs.terminal_iff [of s]
    by (auto simp: fs_stream_item_def fs_remove_def split: if_splits)
next
  case At_Submit
  then obtain r where "submit_result ft = Inr r" "reply = Submit_Reply r" "fs' = fs_remove (ft_hash ft) fs"
    using assms(1) by (auto simp: fs_submit_end_def res_bind_eq_Inr)
  then show ?thesis
    using assms(2) At_Submit by (cases r) (auto simp: fs_remove_def)
qed (use assms in auto)

subsection \<open>The invariant\<close>

definition drained :: "(bool \<times> fake_transaction) list \<Rightarrow> scripted \<Rightarrow> bool" where
  "drained fts x \<longleftrightarrow>
     (\<forall>h. h |\<in>| fs_txs (sc_sink x) \<longrightarrow> (\<exists>v \<in> set (run_workers (sc_run x)). task_hash (fst v) = h \<and> in_sink (snd v))) \<and>
     (\<forall>(w, ft) \<in> set fts. \<forall>pc. (fake_task (w, ft), pc) \<in> set (run_workers (sc_run x)) \<longrightarrow>
       stream_open pc (sc_streams x (ft_hash ft))) \<and>
     (run_workers (sc_run x) = [] \<longrightarrow> transactions (run_runner (sc_run x)) = []) \<and>
     (run_exit (sc_run x) = Some All_Futures_Done \<longrightarrow> run_workers (sc_run x) = [])"

lemma drained_polled:
  assumes "drained fts x" and "(w, ft) \<in> set fts" and "distinct (map (ft_hash \<circ> snd) fts)" and "ends_script w ft"
    and "distinct (map (\<lambda>v. task_hash (fst v)) (run_workers (sc_run x)))"
    and "i < length (run_workers (sc_run x))" and "run_workers (sc_run x) ! i = (fake_task (w, ft), pc)"
    and "fake_poll w ft pc (sc_sink x, sc_streams x) = Some (Inr (reply, sc_sink x', sc_streams x'))"
    and "task_step show_subxt False (fake_task (w, ft)) now pc reply = Some (es, pc')"
    and "run_workers (sc_run x') = (run_workers (sc_run x))[i := (fake_task (w, ft), pc')]"
    and "run_exit (sc_run x') = None"
  shows "drained fts x'"
proof -
  let ?ws = "run_workers (sc_run x)" and ?ws' = "run_workers (sc_run x')"
  have me: "(fake_task (w, ft), pc) \<in> set ?ws" using assms(6,7) by (metis nth_mem)
  have me': "(fake_task (w, ft), pc') \<in> set ?ws'" using assms(6) by (simp add: assms(10) set_update_memI)
  have "stream_open pc (sc_streams x (ft_hash ft))" using assms(1,2) me by (fastforce simp: drained_def)
  note here = fake_poll_sink [OF assms(8,9,4) this]
  have "\<exists>v \<in> set ?ws'. task_hash (fst v) = h \<and> in_sink (snd v)" if h: "h |\<in>| fs_txs (sc_sink x')" for h
  proof (cases "h = ft_hash ft")
    case True
    then show ?thesis using here h me' by force
  next
    case False
    then obtain v where v: "v \<in> set ?ws" "task_hash (fst v) = h" "in_sink (snd v)"
      using here h assms(1) unfolding drained_def by blast
    then obtain j where j: "j < length ?ws" "v = ?ws ! j" by (auto simp: in_set_conv_nth)
    moreover have "j \<noteq> i" using j v(2) False assms(7) by auto
    ultimately have "v \<in> set ?ws'" using assms(10) by (metis length_list_update nth_list_update_neq nth_mem)
    then show ?thesis using v(2,3) by blast
  qed
  moreover have "stream_open q (sc_streams x' (ft_hash gt))"
    if v: "(v, gt) \<in> set fts" and q: "(fake_task (v, gt), q) \<in> set ?ws'" for v gt q
  proof -
    from set_update_distinct [OF assms(5,6) q [unfolded assms(10)]]
    consider "fake_task (v, gt) = fake_task (w, ft)" "q = pc'"
      | "(fake_task (v, gt), q) \<in> set ?ws" "ft_hash gt \<noteq> ft_hash ft"
      by (auto simp: assms(7))
    then show ?thesis
    proof cases
      case 1
      then have "ft_hash gt = ft_hash ft" by (metis fake_task_fields(1) snd_conv)
      then show ?thesis using here 1(2) by simp
    next
      case 2
      then have "stream_open q (sc_streams x (ft_hash gt))" using assms(1) v by (fastforce simp: drained_def)
      then show ?thesis using 2(2) fake_poll_effect [OF assms(8)] by simp
    qed
  qed
  moreover have "?ws' \<noteq> []" using me' by auto
  ultimately show ?thesis using assms(11) by (auto simp: drained_def)
qed

lemma in_remove_nth:
  assumes "v \<in> set xs" and "i < length xs" and "v \<noteq> xs ! i"
  shows "v \<in> set (remove_nth i xs)"
proof -
  have "xs = take i xs @ xs ! i # drop (Suc i) xs" using assms(2) by (rule id_take_nth_drop)
  then have "v \<in> set (take i xs @ xs ! i # drop (Suc i) xs)" using assms(1) by simp
  then show ?thesis using assms(3) by (auto simp: remove_nth_def)
qed

lemma drained_started:
  assumes "drained fts x" and "sc_sink x' = sc_sink x" and "sc_streams x' = sc_streams x"
    and "set ws0 \<subseteq> set (run_workers (sc_run x))"
    and "\<And>v. v \<in> set (run_workers (sc_run x)) \<Longrightarrow> in_sink (snd v) \<Longrightarrow> v \<in> set ws0"
    and "ws0 = [] \<Longrightarrow> transactions (run_runner (sc_run x)) \<noteq> [] \<Longrightarrow> 0 < n"
    and "run_workers (sc_run x') = ws0 @ map (\<lambda>t. (t, Not_Started)) (take n (rev (transactions (run_runner (sc_run x)))))"
    and "transactions (run_runner (sc_run x')) =
        take (length (transactions (run_runner (sc_run x))) - n) (transactions (run_runner (sc_run x)))"
    and "run_exit (sc_run x') = None"
  shows "drained fts x'"
  unfolding drained_def
proof (intro conjI allI impI)
  show "\<exists>v \<in> set (run_workers (sc_run x')). task_hash (fst v) = h \<and> in_sink (snd v)"
    if "h |\<in>| fs_txs (sc_sink x')" for h
    using that assms(1,2,5) by (fastforce simp: drained_def assms(7))
  have "stream_open pc (sc_streams x' (ft_hash ft))"
    if ft: "(w, ft) \<in> set fts" and v: "(fake_task (w, ft), pc) \<in> set (run_workers (sc_run x'))" for w ft pc
  proof -
    consider "(fake_task (w, ft), pc) \<in> set (run_workers (sc_run x))" | "pc = Not_Started"
      using v assms(4) by (auto simp: assms(7))
    then show ?thesis
    proof cases
      case 1
      then show ?thesis using assms(1) ft by (fastforce simp: drained_def assms(3))
    qed simp
  qed
  then show "\<forall>(w, ft) \<in> set fts. \<forall>pc. (fake_task (w, ft), pc) \<in> set (run_workers (sc_run x')) \<longrightarrow>
      stream_open pc (sc_streams x' (ft_hash ft))" by blast
  show "transactions (run_runner (sc_run x')) = []" if "run_workers (sc_run x') = []"
    using that assms(6-8) by (cases "transactions (run_runner (sc_run x)) = []") auto
qed (simp add: assms(9))

subsection \<open>Runs keep it\<close>

lemma fcard_no_sink: "(\<And>h. \<not> h |\<in>| fs_txs fs) \<Longrightarrow> fs_pending_extrinsics fs = 0"
  by (metis fcard_fempty fs_pending_extrinsics_def fsubset_antisym fsubsetI fempty_iff)

lemma drained_arm:
  assumes "drained fts x" and "runs prof show_subxt False (run_new clock threshold (map fake_task fts) limit) arms (sc_run x)"
    and "distinct (map (ft_hash \<circ> snd) fts)" and "length fts < 2 ^ 62" and "threshold \<noteq> usize_max" and "0 < threshold"
    and "select_arm prof show_subxt False a (sc_run x) = Some s" and "\<nexists>i now reply. a = Worker_Polled i now reply"
    and "asks_pending a \<in> {None, Some (fs_pending_extrinsics (sc_sink x))}"
  shows "drained fts (x\<lparr>sc_run := s\<rparr>)"
proof -
  have len: "length (map fake_task fts) < 2 ^ 62" using assms(4) by simp
  note throttle = throttle_step [OF assms(2) distinct_fake_tasks [OF assms(3)] len assms(5,7), unfolded Let_def]
  have pos: "0 < unat threshold" using assms(6) by (simp add: word_less_nat_alt)
  show ?thesis
  proof (cases a)
    case (Worker_Returned i rd)
    obtain t r where i: "i < length (run_workers (sc_run x))" "run_workers (sc_run x) ! i = (t, Returned r)"
      using assms(7) unfolding Worker_Returned by (rule select_arm_returned)
    let ?ws0 = "remove_nth i (run_workers (sc_run x))"
    let ?n = "unat threshold - unat (pending_answer rd) - length (filter (\<lambda>w. awaiting (snd w)) (run_workers (sc_run x)))"
    have kept: "v \<in> set ?ws0" if "v \<in> set (run_workers (sc_run x))" "in_sink (snd v)" for v
      by (rule in_remove_nth [OF that(1) i(1)]) (use that(2) i(2) in auto)
    have "0 < ?n" if "?ws0 = []"
    proof -
      have "\<not> h |\<in>| fs_txs (sc_sink x)" for h using kept that assms(1) by (fastforce simp: drained_def)
      then have "unat (pending_answer rd) = 0"
        using assms(9) by (simp add: Worker_Returned fcard_no_sink)
      moreover have "filter (\<lambda>w. awaiting (snd w)) (run_workers (sc_run x)) = []"
        using awaiting_remove_returned [OF i] that by simp
      ultimately show ?thesis using pos by simp
    qed
    then show ?thesis
      using drained_started [OF assms(1), of "x\<lparr>sc_run := s\<rparr>" ?ws0 ?n] throttle [of rd ?ws0 i] kept
        set_remove_nth [of i "run_workers (sc_run x)"]
      by (simp add: Worker_Returned)
  next
    case (Tick rd)
    let ?n = "unat threshold - unat (pending_answer rd) - length (filter (\<lambda>w. awaiting (snd w)) (run_workers (sc_run x)))"
    have "transactions (run_runner (sc_run x)) = []" if "run_workers (sc_run x) = []"
      using assms(1) that by (simp add: drained_def)
    then show ?thesis
      using drained_started [OF assms(1), of "x\<lparr>sc_run := s\<rparr>" "run_workers (sc_run x)" ?n]
        throttle [of rd "run_workers (sc_run x)" undefined]
      by (simp add: Tick)
  qed (use assms(1,7,8) in \<open>auto simp: drained_def split: if_splits\<close>)
qed

lemma drained_runs:
  assumes "scripted_runs prof show_subxt fts (run_new clock threshold (map fake_task fts) limit) evs x"
    and "distinct (map (ft_hash \<circ> snd) fts)" and "length fts < 2 ^ 62" and "threshold \<noteq> usize_max" and "0 < threshold"
    and "\<forall>(w, ft) \<in> set fts. ends_script w ft"
  shows "drained fts x \<or> (\<exists>p. run_exit (sc_run x) = Some (Panicked p))"
  using assms(1)
proof (induction rule: scripted_runs.induct)
  case scripted_start
  have pos: "0 < unat threshold" using assms(5) by (simp add: word_less_nat_alt)
  have "drained fts \<lparr>sc_run = run_new clock threshold (map fake_task fts) limit, sc_sink = fs_default, sc_streams = Map.empty\<rparr>"
    by (rule run_new_eq [of clock threshold "map fake_task fts" limit])
      (use pos in \<open>auto simp: drained_def after_start_def runner_new_def fs_default_def\<close>)
  then show ?case ..
next
  case (scripted_event evs x ev x')
  note running = scripted_step_open [OF scripted_event.hyps(2)]
  then have inv: "drained fts x" using scripted_event.IH by simp
  obtain arms where fake: "fake_runs prof show_subxt (run_new clock threshold (map fake_task fts) limit) arms (sc_run x) (sc_sink x)"
    using scripted_fake_runs [OF scripted_event.hyps(1) assms(2)] running by auto
  note run = fake_runs_runs [OF fake]
  note placed = placed_runs [OF run]
  have workers: "distinct (map (\<lambda>v. task_hash (fst v)) (run_workers (sc_run x)))"
    using distinct_places [OF placed distinct_fake_tasks [OF assms(2)]] by (simp add: places_def)
  have tasks: "fst ` set (run_workers (sc_run x)) \<subseteq> set (map fake_task fts)" using placed by (simp add: placed_def)
  from scripted_event.hyps(2) assms(2) tasks show ?case
  proof (cases rule: scripted_step_cases)
    case (polled i now w ft pc reply)
    have ends: "ends_script w ft" using assms(6) polled(3) by blast
    from polled(5) placed show ?thesis
    proof (cases rule: select_arm_cases)
      case (polled j now' reply' t pc0 es pc' logs c)
      then show ?thesis
        using drained_polled [OF inv \<open>(w, ft) \<in> set fts\<close> assms(2) ends workers, of i pc reply x' show_subxt now es pc']
          \<open>run_workers (sc_run x) ! i = (fake_task (w, ft), pc)\<close>
          \<open>fake_poll w ft pc (sc_sink x, sc_streams x) = Some (Inr (reply, sc_sink x', sc_streams x'))\<close> running
        by simp
    qed auto
  next
    case (arm a s)
    then show ?thesis using drained_arm [OF inv run assms(2-5), of a s] by auto
  qed simp
qed

subsection \<open>The end of a run\<close>

lemma scripted_complete:
  assumes "scripted_runs prof show_subxt fts (run_new clock threshold (map fake_task fts) limit) evs x"
    and "distinct (map (ft_hash \<circ> snd) fts)" and "length fts < 2 ^ 62" and "threshold \<noteq> usize_max" and "0 < threshold"
    and "\<forall>(w, ft) \<in> set fts. ends_script w ft" and "run_exit (sc_run x) = Some All_Futures_Done"
  shows "transactions (run_runner (sc_run x)) = [] \<and> fs_pending_extrinsics (sc_sink x) = 0 \<and>
    mset (done_hashes (run_runner (sc_run x))) + mset (error_hashes (run_runner (sc_run x))) =
      mset (map (ft_hash \<circ> snd) fts) \<and>
    (\<forall>(w, ft) \<in> set fts.
      (ft_hash ft \<in> set (done_hashes (run_runner (sc_run x))) \<longleftrightarrow> fake_verdict w ft = Inr (Exec_Done (ft_hash ft))) \<and>
      (ft_hash ft \<in> set (error_hashes (run_runner (sc_run x))) \<longleftrightarrow> fake_verdict w ft = Inr (Exec_Error (ft_hash ft))))"
proof -
  let ?r = "run_runner (sc_run x)"
  have inv: "drained fts x" using drained_runs [OF assms(1-6)] assms(7) by simp
  then have idle: "run_workers (sc_run x) = []" "transactions ?r = []" using assms(7) by (auto simp: drained_def)
  obtain arms where fake: "fake_runs prof show_subxt (run_new clock threshold (map fake_task fts) limit) arms (sc_run x) (sc_sink x)"
    and scripts: "on_scripts fts x"
    using scripted_fake_runs [OF assms(1,2)] assms(7) by auto
  have "mset (places ?r []) = mset (map task_hash (map fake_task fts))"
    using placed_runs [OF fake_runs_runs [OF fake]] by (simp add: placed_def idle)
  then have all: "mset (done_hashes ?r @ error_hashes ?r) = mset (map (ft_hash \<circ> snd) fts)"
    by (simp add: places_def idle comp_def)
  have "ft_hash ft \<in> set (done_hashes ?r) \<or> ft_hash ft \<in> set (error_hashes ?r)" if "(w, ft) \<in> set fts" for w ft
  proof -
    have "ft_hash ft \<in> set (map (ft_hash \<circ> snd) fts)" using that by force
    then show ?thesis using all by (metis Un_iff mset_eq_setD set_append)
  qed
  moreover note all
  moreover have "fs_pending_extrinsics (sc_sink x) = 0"
    using inv idle by (intro fcard_no_sink) (auto simp: drained_def)
  ultimately show ?thesis using idle on_scriptsD(2,3) [OF scripts] unfolding mset_append by fastforce
qed

subsection \<open>Examples\<close>

fun scripted_steps ::
    "profile \<Rightarrow> (unit \<Rightarrow> string) \<Rightarrow> (bool \<times> fake_transaction) list \<Rightarrow> fake_event list \<Rightarrow> scripted \<Rightarrow> scripted option" where
  "scripted_steps prof show_subxt fts [] x = Some x"
| "scripted_steps prof show_subxt fts (ev # evs) x =
     (case scripted_step prof show_subxt fts ev x of
        None \<Rightarrow> None | Some x' \<Rightarrow> scripted_steps prof show_subxt fts evs x')"

lemma scripted_steps_runs:
  assumes "scripted_runs prof show_subxt fts s0 evs0 x" and "scripted_steps prof show_subxt fts evs x = Some x'"
  shows "scripted_runs prof show_subxt fts s0 (evs0 @ evs) x'"
  using assms
proof (induction evs arbitrary: evs0 x)
  case (Cons ev evs)
  then obtain y where "scripted_step prof show_subxt fts ev x = Some y"
    and rest: "scripted_steps prof show_subxt fts evs y = Some x'"
    by (auto split: option.splits)
  from Cons.IH [OF scripted_event [OF Cons.prems(1) this(1)] rest] show ?case by simp
qed simp

text \<open>A watched transaction that is dropped and an unwatched one that is finalized, one at a time.\<close>

definition example_fakes :: "(bool \<times> fake_transaction) list" where
  "example_fakes = [(False, ft_new_finalizable_quick 2 0), (True, ft_new_droppable 1 0 0)]"

definition idle_readings :: "fake_hash readings" where
  "idle_readings = \<lparr>pending_answer = 0, popped_at = (\<lambda>_. System_Time 0), checked_at = 0, shown_at = 0, elapsed = 0\<rparr>"

definition example_schedule :: "fake_event list" where
  "example_schedule =
     [Poll_Task 0 (System_Time 1), Poll_Task 0 (System_Time 2), Poll_Task 0 (System_Time 3),
      Select_Arm (Worker_Returned 0 idle_readings),
      Poll_Task 0 (System_Time 4), Poll_Task 0 (System_Time 5),
      Select_Arm (Worker_Returned 0 idle_readings), Select_Arm No_Workers]"

definition example_fake_end :: "scripted option" where
  "example_fake_end = scripted_steps Debug show_unit example_fakes example_schedule
     \<lparr>sc_run = run_new (\<lambda>_. System_Time 0) 1 (map fake_task example_fakes) None, sc_sink = fs_default,
      sc_streams = Map.empty\<rparr>"

lemma example_fake_end_exit:
  "map_option (\<lambda>x. (run_exit (sc_run x), done_hashes (run_runner (sc_run x)), error_hashes (run_runner (sc_run x)))) example_fake_end =
     Some (Some All_Futures_Done, [to_le_bytes 2], [to_le_bytes 1])"
  by (simp add: example_fake_end_def example_schedule_def run_eval example_fakes_def poll_task_def fake_of_def fake_task.simps
    new_watched_def new_unwatched_def fake_as_transaction_def ft_constructor_defs event_def_defs to_le_bytes_def
    fs_submit_and_watch_def fs_submit_begin_def fs_submit_end_def fs_defs ft_events_def get_current_stream_def_def submit_result_def
    idle_readings_def fs_default_def fs_pending_extrinsics_def)

theorem scripted_run_outcome_witness:
  "\<exists>x. example_fake_end = Some x \<and> done_hashes (run_runner (sc_run x)) = [to_le_bytes 2] \<and>
    fake_verdict False (ft_new_finalizable_quick 2 0) = Inr (Exec_Done (to_le_bytes 2)) \<and>
    fake_verdict True (ft_new_droppable 1 0 0) = Inr (Exec_Error (to_le_bytes 1))"
proof -
  obtain x where x: "example_fake_end = Some x" and exit: "run_exit (sc_run x) = Some All_Futures_Done"
    and dn: "done_hashes (run_runner (sc_run x)) = [to_le_bytes 2]"
    and er: "error_hashes (run_runner (sc_run x)) = [to_le_bytes 1]"
    using example_fake_end_exit by auto
  have run: "scripted_runs Debug show_unit example_fakes
      (run_new (\<lambda>_. System_Time 0) 1 (map fake_task example_fakes) None) ([] @ example_schedule) x"
    by (rule scripted_steps_runs [OF scripted_start x [unfolded example_fake_end_def]])
  have "distinct (map (ft_hash \<circ> snd) example_fakes)" and "length example_fakes < 2 ^ 62" and "(1 :: usize) \<noteq> usize_max"
    by (simp_all add: example_fakes_def ft_constructor_defs to_le_bytes_def usize_max_def)
  note scripted_run_outcome [OF run this]
  then have "fake_verdict False (ft_new_finalizable_quick 2 0) = Inr (Exec_Done (to_le_bytes 2)) \<and>
      fake_verdict True (ft_new_droppable 1 0 0) = Inr (Exec_Error (to_le_bytes 1))"
    using dn er by (simp add: example_fakes_def ft_constructor_defs)
  with x dn show ?thesis by blast
qed

text \<open>
  The test \<open>resubmit\<close> of \<open>src/runner.rs\<close>: a hundred thousand transactions whose second submission would be
  finalized. There is no second submission: when the run has ended, all of them are in \<open>errors\<close>.
\<close>

definition test_resubmit :: "nat \<Rightarrow> (bool \<times> fake_transaction) list" where
  "test_resubmit n = map (\<lambda>i. (True, ft_new_droppable_2nd_success (of_nat i) 0 0)) [0..<n]"

lemma droppable_2nd_success_script:
  "fake_verdict True (ft_new_droppable_2nd_success i 0 0) = Inr (Exec_Error (to_le_bytes i))"
  "ends_script True (ft_new_droppable_2nd_success i 0 0)"
  "ft_hash (ft_new_droppable_2nd_success i 0 0) = to_le_bytes i"
  by (simp_all add: fake_verdict_def ends_script_def ft_events_def get_current_stream_def_def ft_constructor_defs
      event_def_defs)

lemma resubmit_all_errors:
  assumes "scripted_runs prof show_subxt (test_resubmit n) (run_new clock (of_nat n) (map fake_task (test_resubmit n)) None) evs x"
    and "run_exit (sc_run x) = Some All_Futures_Done" and "0 < n" and "n < 2 ^ 32"
  shows "done_hashes (run_runner (sc_run x)) = [] \<and> length (error_hashes (run_runner (sc_run x))) = n"
proof -
  have u32: "unat (of_nat i :: u32) = i" if "i < n" for i
    by (rule unat_of_nat_small) (use that assms(4) in simp)
  have "inj_on (\<lambda>i. to_le_bytes (of_nat i)) {0..<n}"
    by (rule inj_onI) (metis atLeastLessThan_iff to_le_bytes_inject u32)
  then have dist: "distinct (map (ft_hash \<circ> snd) (test_resubmit n))"
    by (simp add: test_resubmit_def comp_def droppable_2nd_success_script distinct_map)
  have len: "length (test_resubmit n) = n" "length (test_resubmit n) < 2 ^ 62"
    using assms(4) by (simp_all add: test_resubmit_def)
  have nat: "unat (of_nat n :: usize) = n" by (rule unat_of_nat_small) (use assms(4) in simp)
  have "unat usize_max = 2 ^ 64 - 1"
    by (simp add: usize_max_def unsigned_minus_1_eq_mask mask_eq_exp_minus_1)
  then have "unat (of_nat n :: usize) \<noteq> unat usize_max" unfolding nat using assms(4) by simp
  then have thr: "(of_nat n :: usize) \<noteq> usize_max" "0 < (of_nat n :: usize)"
    using nat assms(3) by (auto simp: word_less_nat_alt)
  have "\<forall>(w, ft) \<in> set (test_resubmit n). ends_script w ft"
    by (auto simp: test_resubmit_def droppable_2nd_success_script)
  note complete = scripted_complete [OF assms(1) dist len(2) thr this assms(2)]
  then have hashes: "mset (done_hashes (run_runner (sc_run x))) + mset (error_hashes (run_runner (sc_run x))) =
      mset (map (ft_hash \<circ> snd) (test_resubmit n))" by blast
  have "h \<notin> set (done_hashes (run_runner (sc_run x)))" for h
  proof
    assume h: "h \<in> set (done_hashes (run_runner (sc_run x)))"
    then have "h \<in># mset (map (ft_hash \<circ> snd) (test_resubmit n))" unfolding hashes [symmetric] by simp
    then obtain i where "i < n" "h = to_le_bytes (of_nat i)"
      by (auto simp: test_resubmit_def droppable_2nd_success_script)
    then show False
      using complete h by (fastforce simp: test_resubmit_def droppable_2nd_success_script)
  qed
  then have "done_hashes (run_runner (sc_run x)) = []" by (metis list.set_intros(1) neq_Nil_conv)
  with arg_cong [OF hashes, of size] show ?thesis by (simp add: test_resubmit_def)
qed


text \<open>
  The test \<open>oh_god\<close> of \<open>src/runner.rs\<close> gives three of its tasks the same hash. Logs are kept by hash, so the
  fourteen tasks share twelve logs, and the theorems on distinct transactions do not apply to it.
\<close>

definition test_oh_god :: "(bool \<times> fake_transaction) list" where
  "test_oh_god = map (\<lambda>i. (True, ft_new_finalizable_quick (of_nat i) 0)) [0..<10] @
     [(True, ft_new_droppable 11 0 300), (True, ft_new_invalid 11 0 300), (False, ft_new_invalid 11 0 300),
      (False, ft_new_error 12 0 300)]"

lemma oh_god_shared_logs:
  "length test_oh_god = 14"
  "card (dom (runner_logs (runner_new 5 (map fake_task test_oh_god) None None None None))) = 12"
  "\<not> distinct (map (ft_hash \<circ> snd) test_oh_god)"
proof -
  have hashes: "ft_hash (ft_new_finalizable_quick i 0) = to_le_bytes i" "ft_hash (ft_new_droppable i 0 d) = to_le_bytes i"
    "ft_hash (ft_new_invalid i 0 d) = to_le_bytes i" "ft_hash (ft_new_error i 0 d) = to_le_bytes i" for i d
    by (simp_all add: ft_constructor_defs)
  have test: "map (ft_hash \<circ> snd) test_oh_god = map to_le_bytes [0, 1, 2, 3, 4, 5, 6, 7, 8, 9, 11, 11, 11, 12]"
    by (simp add: test_oh_god_def hashes upt_rec)
  show "length test_oh_god = 14" by (simp add: test_oh_god_def)
  show "\<not> distinct (map (ft_hash \<circ> snd) test_oh_god)" unfolding test by simp
  have "dom (runner_logs (runner_new 5 (map fake_task test_oh_god) None None None None)) =
      set (map (ft_hash \<circ> snd) test_oh_god)"
    by (simp add: runner_new_def image_image)
  also have "\<dots> = to_le_bytes ` {0, 1, 2, 3, 4, 5, 6, 7, 8, 9, 11, 12}" unfolding test by simp
  finally have "card (dom (runner_logs (runner_new 5 (map fake_task test_oh_god) None None None None))) =
      card {0, 1, 2, 3, 4, 5, 6, 7, 8, 9, 11, 12 :: u32}"
    by (simp only: card_image inj_on_def to_le_bytes_inject simp_thms ball_triv)
  then show "card (dom (runner_logs (runner_new 5 (map fake_task test_oh_god) None None None None))) = 12" by simp
qed

end
