(* ===== verification/Runner_Progress.thy ===== *)
theory Runner_Progress
  imports Runner
begin

section \<open>Every run comes to an end\<close>

text \<open>
  Progress and termination of the tasks and of the event loop of \<open>src/runner.rs\<close>: the types of the states of a
  task and of the replies it waits for, a measure of the work that a run has left, a bound on the length
  of a run, and the reachability of its end from every state.
\<close>

subsection \<open>The states of a task\<close>

text \<open>Where a task of either kind can be suspended, and what it waits for there.\<close>

fun pc_ok :: "bool \<Rightarrow> 'h tx_task \<Rightarrow> 'h task_pc \<Rightarrow> bool" where
  "pc_ok hm task Not_Started = True"
| "pc_ok hm task At_Submit_And_Watch = task_watched task"
| "pc_ok hm task At_Stream_Next = task_watched task"
| "pc_ok hm task At_Submit = (\<not> task_watched task)"
| "pc_ok hm task At_Monitor_Wait = (\<not> task_watched task \<and> hm)"
| "pc_ok hm task (Returned r) = (result_hash r = task_hash task)"

fun awaits :: "'h task_pc \<Rightarrow> ('e, 'h) reply \<Rightarrow> bool" where
  "awaits Not_Started r = (r = Poll)"
| "awaits At_Submit_And_Watch r = (\<exists>x. r = Watch_Reply x)"
| "awaits At_Stream_Next r = (\<exists>x. r = Stream_Reply x)"
| "awaits At_Submit r = (\<exists>x. r = Submit_Reply x)"
| "awaits At_Monitor_Wait r = (\<exists>x. r = Monitor_Reply x)"
| "awaits (Returned _) r = False"

lemma task_step_awaits:
  "(\<exists>es pc'. task_step show_subxt hm task now pc r = Some (es, pc')) \<longleftrightarrow> awaits pc r"
  by (cases "(show_subxt, hm, task, now, pc, r)" rule: task_step.cases) auto

lemma task_step_ok:
  "task_step show_subxt hm task now pc r = Some (es, pc') \<Longrightarrow> pc_ok hm task pc \<Longrightarrow> pc_ok hm task pc'"
  by (cases "(show_subxt, hm, task, now, pc, r)" rule: task_step.cases) (auto split: if_splits)

lemma task_run_ok:
  "task_run show_subxt hm task pc rs = Some (es, pc') \<Longrightarrow> pc_ok hm task pc \<Longrightarrow> pc_ok hm task pc'"
proof (induction rs arbitrary: pc es)
  case (Cons x rs)
  then show ?case
    by (cases x) (auto split: option.splits dest: task_step_ok)
qed simp

text \<open>
  C30: the task is well typed. A watched task is only ever suspended at its submission or its stream, an
  unwatched one only at its submission or, with a monitor, at the monitor; whatever has been replied, a
  task that has not returned accepts exactly the replies of the future it awaits, there is one, and one
  that has returned carries its own hash and accepts none.
\<close>

theorem task_type_safety:
  fixes show_subxt :: "'e \<Rightarrow> string" and task :: "'h tx_task"
  assumes "task_run show_subxt hm task Not_Started rs = Some (es, pc)"
  shows "pc_ok hm task pc \<and>
    (\<forall>now r. (task_step show_subxt hm task now pc r \<noteq> None) \<longleftrightarrow> awaits pc r) \<and>
    ((\<exists>r :: ('e, 'h) reply. awaits pc r) \<longleftrightarrow> (\<nexists>x. pc = Returned x))"
proof (intro conjI allI)
  show "pc_ok hm task pc" by (rule task_run_ok [OF assms]) simp
  show "(task_step show_subxt hm task now pc r \<noteq> None) \<longleftrightarrow> awaits pc r" for now r
    using task_step_awaits [of show_subxt hm task now pc r] by auto
  show "(\<exists>r :: ('e, 'h) reply. awaits pc r) \<longleftrightarrow> (\<nexists>x. pc = Returned x)" by (cases pc) auto
qed

theorem task_type_safety_witness:
  "pc_ok True (example_task False 1) At_Monitor_Wait \<and>
   task_step (\<lambda>_ :: unit. ''e'') True (example_task False 1) (System_Time 3) At_Monitor_Wait (Stream_Reply None) = None"
proof -
  have "task_run (\<lambda>_ :: unit. ''e'') True (example_task False 1) Not_Started
      [(System_Time 1, Poll), (System_Time 2, Submit_Reply (Inr 1))] =
    Some ([event_sent (System_Time 1), event_submit_result (\<lambda>_ :: unit. ''e'') (System_Time 2) (Inr ())], At_Monitor_Wait)"
    by (simp add: example_task_def)
  from task_type_safety [OF this] show ?thesis by auto
qed

subsection \<open>The work that is left\<close>

text \<open>
  A bound on the number of steps that a task takes from a state, statuses that are not terminal not
  counted, and the work of a run: the tasks that are not started, those of the workers, and leaving the
  loop.
\<close>

fun pc_work :: "'h task_pc \<Rightarrow> nat" where
  "pc_work Not_Started = 4"
| "pc_work At_Submit_And_Watch = 3"
| "pc_work At_Submit = 3"
| "pc_work At_Stream_Next = 2"
| "pc_work At_Monitor_Wait = 2"
| "pc_work (Returned _) = 1"

definition tasks_work :: "'h runner \<Rightarrow> 'h worker list \<Rightarrow> nat" where
  "tasks_work r ws = 4 * length (transactions r) + (\<Sum>w \<leftarrow> ws. pc_work (snd w))"

definition work :: "'h run_state \<Rightarrow> nat" where
  "work s = tasks_work (run_runner s) (run_workers s) + (if run_exit s = None then 1 else 0)"

fun counted :: "('e, 'h) arm \<Rightarrow> bool" where
  "counted (Tick _) = False"
| "counted (Worker_Polled _ _ (Stream_Reply (Some status))) = is_terminal status"
| "counted _ = True"

lemma task_step_work:
  assumes "task_step show_subxt hm task now pc r = Some (es, pc')"
  shows "pc_work pc' + (if counted (Worker_Polled i now r) then 1 else 0) \<le> pc_work pc"
  using assms by (cases "(show_subxt, hm, task, now, pc, r)" rule: task_step.cases) (auto simp: txs.terminal_iff split: if_splits)

lemma tasks_work_update:
  assumes "i < length ws" and "ws ! i = (t, pc)"
  shows "tasks_work r (ws[i := (t, pc')]) + pc_work pc = tasks_work r ws + pc_work pc'"
proof -
  have "pc_work pc \<le> (\<Sum>w \<leftarrow> ws. pc_work (snd w))"
    using assms member_le_sum_list [of "pc_work pc" "map (\<lambda>w. pc_work (snd w)) ws"] by (force simp: in_set_conv_nth)
  moreover have "(\<Sum>w \<leftarrow> ws[i := (t, pc')]. pc_work (snd w)) = (\<Sum>w \<leftarrow> ws. pc_work (snd w)) + pc_work pc' - pc_work pc"
    using assms by (simp add: map_update sum_list_update)
  ultimately show ?thesis by (simp add: tasks_work_def)
qed

lemma tasks_work_remove:
  assumes "i < length ws" and "ws ! i = (t, Returned x)"
  shows "tasks_work (record_result x r) (remove_nth i ws) + 1 = tasks_work r ws"
proof -
  have "sum_mset (image_mset (\<lambda>w. pc_work (snd w)) (mset ws)) =
      1 + sum_mset (image_mset (\<lambda>w. pc_work (snd w)) (mset (remove_nth i ws)))"
    unfolding mset_remove_nth [OF assms(1)] by (simp add: assms(2))
  then have "(\<Sum>w \<leftarrow> ws. pc_work (snd w)) = 1 + (\<Sum>w \<leftarrow> remove_nth i ws. pc_work (snd w))"
    by (simp flip: sum_mset_sum_list)
  then show ?thesis by (simp add: tasks_work_def)
qed

lemma tasks_work_consume:
  assumes "consume_pending prof rd r ws = Inr (r', ws', report)"
  shows "tasks_work r' ws' = tasks_work r ws"
proof -
  obtain n lc where r': "r' = (after_start n lc r)\<lparr>last_displayed := last_displayed r'\<rparr>"
    and ws': "ws' = ws @ map (\<lambda>t. (t, Not_Started)) (started n r)"
    using assms by (rule consume_pending_Inr)
  have "transactions r' = take (length (transactions r) - n) (transactions r)"
    by (subst r') (simp add: after_start_def)
  then show ?thesis
    unfolding tasks_work_def ws' by (simp add: started_def comp_def sum_list_triv)
qed

lemma returned_arm_work:
  assumes "select_arm prof show_subxt hm (Worker_Returned i rd) s = Some s'" and "placed txs (run_runner s) (run_workers s)"
  shows "work s' + 1 \<le> work s"
proof -
  have none: "run_exit s = None" and i: "i < length (run_workers s)" using assms(1) by (auto split: if_splits)
  obtain t x where w: "run_workers s ! i = (t, Returned x)"
    using assms(1) by (cases "run_workers s ! i") (auto split: if_splits task_pc.splits)
  let ?r = "record_result x (run_runner s)" and ?ws = "remove_nth i (run_workers s)"
  have s': "s' = consume_then prof rd ?ws (record_result x) s"
    using assms(1) by (simp add: w split: if_splits)
  have may: "may_consume s ?r ?ws" using i w by (auto simp: may_consume_def)
  show ?thesis
  proof (rule consume_then_cases [OF placed_may_consume [OF may assms(2)] may, of x "record_result x" prof rd])
    fix r' ws' report
    assume "consume_pending prof rd ?r ?ws = Inr (r', ws', report)"
      and "consume_then prof rd ?ws (record_result x) s =
        s\<lparr>run_runner := r', run_workers := ws', run_timeout := run_timeout s - elapsed rd\<rparr>"
    then show ?thesis
      using tasks_work_consume tasks_work_remove [OF i w, of "run_runner s"] by (fastforce simp: work_def s' none)
  next
    fix p
    assume "consume_then prof rd ?ws (record_result x) s = s\<lparr>run_exit := Some (Panicked p)\<rparr>"
    then show ?thesis by (simp add: work_def s' none)
  qed simp
qed

lemma arm_work:
  assumes "select_arm prof show_subxt hm arm s = Some s'" and "placed txs (run_runner s) (run_workers s)"
  shows "work s' + (if counted arm then 1 else 0) \<le> work s"
proof -
  have none: "run_exit s = None" using assms(1) by (rule select_arm_open)
  from assms show ?thesis
  proof (cases rule: select_arm_cases)
    case (polled i now reply t pc es pc' logs c)
    have "tasks_work (run_runner s') (run_workers s') + pc_work pc = tasks_work (run_runner s) (run_workers s) + pc_work pc'"
      using tasks_work_update [OF polled(2,3)] polled(6) by (simp add: tasks_work_def)
    then show ?thesis
      using task_step_work [OF polled(4), of i] polled(1,6) by (simp add: work_def none split: if_splits)
  next
    case (consumed rd r0 ws0 r' ws' report)
    show ?thesis
    proof (cases "counted arm")
      case True
      then obtain i where "arm = Worker_Returned i rd" using consumed(1) by auto
      then show ?thesis using returned_arm_work [of prof show_subxt hm i rd s s' txs] assms by simp
    next
      case False
      have "tasks_work (run_runner s') (run_workers s') = tasks_work r0 ws0"
        using tasks_work_consume [OF consumed(4)] consumed(5) by simp
      moreover have "tasks_work r0 ws0 \<le> tasks_work (run_runner s) (run_workers s)"
        using consumed(2) unfolding may_consume_def
      proof (elim disjE exE conjE)
        fix i t x
        assume "i < length (run_workers s)" and "run_workers s ! i = (t, Returned x)"
          and "r0 = record_result x (run_runner s)" and "ws0 = remove_nth i (run_workers s)"
        then show ?thesis using tasks_work_remove [of i "run_workers s" t x "run_runner s"] by simp
      qed simp
      ultimately show ?thesis using consumed(5) none False by (simp add: work_def)
    qed
  next
    case (panicked rd p)
    then show ?thesis using none by (auto simp: work_def)
  next
    case (left x)
    then show ?thesis using none by (auto simp: work_def)
  qed
qed

lemma work_new: "work (run_new clock threshold txs limit) = 4 * length txs + 1"
  by (rule run_new_eq [of clock threshold txs limit])
    (simp add: work_def tasks_work_def after_start_def runner_new_def comp_def sum_list_triv)

text \<open>
  C16: a run of \<open>n\<close> transactions takes at most \<open>4 n + 1\<close> steps, ticks of the timer and statuses that are not
  terminal not counted: every other step brings a task nearer to its end or ends the run. So a run ends
  unless the node sends statuses without end or tasks are not answered, whatever the sink reports and in
  whichever order the tasks make progress.
\<close>

theorem run_steps_bounded:
  assumes "runs prof show_subxt hm (run_new clock threshold txs limit) arms s"
  shows "length (filter counted arms) + work s \<le> 4 * length txs + 1"
  using assms
proof (induction rule: runs.induct)
  case runs_start
  show ?case by (simp add: work_new)
next
  case (runs_arm arms s arm s')
  then show ?case using arm_work [OF runs_arm(2) placed_runs [OF runs_arm(1)]] by (simp split: if_splits)
qed

theorem run_steps_bounded_witness:
  "\<exists>s. example_end = Some s \<and> length (filter counted example_arms) + work s \<le> 9"
proof -
  obtain s where s: "example_end = Some s" using example_end_summary by auto
  from run_steps_bounded [OF run_arms_runs [OF s [unfolded example_end_def]]] s show ?thesis by auto
qed

subsection \<open>The end can always be reached\<close>

text \<open>The arms of the workers, and leaving the loop for want of workers.\<close>

fun worker_arm :: "('e, 'h) arm \<Rightarrow> bool" where
  "worker_arm (Worker_Polled _ _ _) = True"
| "worker_arm (Worker_Returned _ _) = True"
| "worker_arm No_Workers = True"
| "worker_arm _ = False"

fun some_reply :: "'h task_pc \<Rightarrow> ('e, 'h) reply" where
  "some_reply Not_Started = Poll"
| "some_reply At_Submit_And_Watch = Watch_Reply (Inr ())"
| "some_reply At_Stream_Next = Stream_Reply None"
| "some_reply At_Submit = Submit_Reply (Inl (Other []))"
| "some_reply At_Monitor_Wait = Monitor_Reply (Inl (Other []))"
| "some_reply (Returned _) = Poll"

lemma step_enabled:
  fixes show_subxt :: "'e \<Rightarrow> string" and s :: "'h run_state"
  assumes "placed txs (run_runner s) (run_workers s)" and "run_exit s = None"
  shows "\<exists>arm s'. select_arm prof show_subxt hm arm s = Some s' \<and> worker_arm arm \<and> counted arm"
proof (cases "run_workers s")
  case Nil
  then have "select_arm prof show_subxt hm No_Workers s = Some (s\<lparr>run_exit := Some All_Futures_Done\<rparr>)"
    using assms(2) by simp
  then show ?thesis by (intro exI [of _ No_Workers]) simp
next
  case (Cons w ws)
  then have i: "0 < length (run_workers s)" and w: "run_workers s ! 0 = w" by simp_all
  obtain t pc where wt: "w = (t, pc)" by fastforce
  show ?thesis
  proof (cases "\<exists>x. pc = Returned x")
    case True
    then obtain x where "pc = Returned x" by blast
    then have "\<exists>s'. select_arm prof show_subxt hm (Worker_Returned 0 undefined) s = Some s'"
      using i w wt assms(2) by simp
    then show ?thesis by (intro exI [of _ "Worker_Returned 0 undefined"]) simp
  next
    case False
    let ?reply = "some_reply pc :: ('e, 'h) reply" and ?now = "System_Time 0"
    have "awaits pc ?reply" using False by (cases pc) auto
    then obtain es pc' where step: "task_step show_subxt hm t ?now pc ?reply = Some (es, pc')"
      using task_step_awaits by metis
    obtain logs c where push: "push_many (map (Pair (task_hash t)) es)
        (runner_logs (run_runner s), event_counters (run_runner s)) = Inr (logs, c)"
      using worker_push_ok [OF assms(1) i] w wt by metis
    have "\<exists>s'. select_arm prof show_subxt hm (Worker_Polled 0 ?now ?reply) s = Some s'"
      using i assms(2) by (simp add: poll_worker_def w wt step push)
    moreover have "counted (Worker_Polled 0 ?now ?reply)" by (cases pc) auto
    ultimately show ?thesis by (metis worker_arm.simps(1))
  qed
qed

text \<open>
  C15: no run gets stuck: from every state of a run that has not ended, the end is reached by steps of the
  workers alone, without the timeout, a stop request or a tick, in as many steps as there is work left;
  and it is then reached because all futures are done, or because the count of the buffered transactions
  overflows.
\<close>

theorem run_can_finish:
  fixes show_subxt :: "'e \<Rightarrow> string"
  assumes "runs prof show_subxt hm (run_new clock threshold txs limit) arms s" and "run_exit s = None"
  shows "\<exists>arms' s'. runs prof show_subxt hm (run_new clock threshold txs limit) (arms @ arms') s' \<and>
    list_all worker_arm arms' \<and> length arms' \<le> work s \<and>
    (run_exit s' = Some All_Futures_Done \<and> run_workers s' = [] \<or>
     run_exit s' = Some (Panicked Arithmetic_Overflow) \<and> prof = Debug)"
  using assms
proof (induction "work s" arbitrary: arms s rule: less_induct)
  case less
  note placed = placed_runs [OF less.prems(1)]
  obtain arm s1 where step: "select_arm prof show_subxt hm arm s = Some s1" "worker_arm arm" "counted arm"
    using step_enabled [OF placed less.prems(2)] by blast
  have run1: "runs prof show_subxt hm (run_new clock threshold txs limit) (arms @ [arm]) s1"
    by (rule runs_arm [OF less.prems(1) step(1)])
  have work1: "work s1 < work s" using arm_work [OF step(1) placed] step(3) by simp
  show ?case
  proof (cases "run_exit s1")
    case None
    from less.hyps [OF work1 run1 None] obtain arms' s' where
      "runs prof show_subxt hm (run_new clock threshold txs limit) (arms @ arm # arms') s'"
      "list_all worker_arm arms'" "length arms' \<le> work s1"
      "run_exit s' = Some All_Futures_Done \<and> run_workers s' = [] \<or>
        run_exit s' = Some (Panicked Arithmetic_Overflow) \<and> prof = Debug"
      by auto
    then show ?thesis using step(2) work1 by (intro exI [of _ "arm # arms'"] exI [of _ s']) simp
  next
    case (Some x)
    have "run_exit s1 = Some All_Futures_Done \<and> run_workers s1 = [] \<or>
        run_exit s1 = Some (Panicked Arithmetic_Overflow) \<and> prof = Debug"
      using step(1) placed
    proof (cases rule: select_arm_cases)
      case (panicked rd p)
      then show ?thesis using to_consume_Inl [OF panicked(2)] by simp
    qed (use Some less.prems(2) step(2) in auto)
    then show ?thesis using run1 step(2) work1 by (intro exI [of _ "[arm]"] exI [of _ s1]) simp
  qed
qed

theorem run_can_finish_witness:
  "\<exists>arms' s'. runs Release (\<lambda>_ :: unit. ''e'') False (run_new (\<lambda>_. System_Time 0) 1 [example_task True 1, example_task False 2] None)
      arms' s' \<and> list_all worker_arm arms' \<and> run_exit s' = Some All_Futures_Done"
proof -
  let ?s = "run_new (\<lambda>_. System_Time 0) 1 [example_task True 1, example_task False 2] None"
  have "run_exit ?s = None"
    by (rule run_new_eq [of "\<lambda>_. System_Time 0" 1 "[example_task True 1, example_task False 2]" None]) simp
  from run_can_finish [OF runs_start [of Release "\<lambda>_ :: unit. ''e''" False ?s] this] show ?thesis by auto
qed

end
