(* ===== verification/Scripted_Progress.thy ===== *)
theory Scripted_Progress
  imports Scripted_End Runner_Progress
begin

section \<open>Fake runs can always be brought to their end\<close>

text \<open>
  A runner over fake transactions whose scripts all end never gets stuck: as long as it goes on, some poll of a
  task, the return of a worker or the end of the loop is enabled with the replies that the scripts and the
  fake sink give. The work that is left and the statuses that are not read yet bound the number of such
  steps.
\<close>

subsection \<open>No call of the sink panics\<close>

lemma ends_script_verdict: "ends_script w ft \<Longrightarrow> fake_verdict w ft \<noteq> Inl p"
  by (auto simp: ends_script_def fake_verdict_def res_bind_def split: if_splits sum.splits)

lemma scripted_no_panic:
  assumes "scripted_runs prof show_subxt fts (run_new clock threshold (map fake_task fts) limit) evs x"
    and "distinct (map (ft_hash \<circ> snd) fts)" and "length fts < 2 ^ 62" and "threshold \<noteq> usize_max"
    and "\<forall>(w, ft) \<in> set fts. ends_script w ft"
  shows "run_exit (sc_run x) \<noteq> Some (Panicked p)"
proof -
  obtain arms s where run: "fake_runs prof show_subxt (run_new clock threshold (map fake_task fts) limit) arms s (sc_sink x)"
    and "sc_run x = s \<or> (\<exists>i now p w ft. (w, ft) \<in> set fts \<and> fake_verdict w ft = Inl p \<and>
        sc_run x = panicked_poll show_subxt i now p s)"
    using scripted_fake_runs [OF assms(1,2)] by blast
  moreover have "run_exit s \<noteq> Some (Panicked p)"
    using no_panic_runs [OF fake_runs_runs [OF run] distinct_fake_tasks [OF assms(2)]] assms(3,4) by simp
  ultimately show ?thesis using assms(5) ends_script_verdict by fastforce
qed

subsection \<open>The statuses that are not read yet\<close>

definition unread :: "(bool \<times> fake_transaction) list \<Rightarrow> open_streams \<Rightarrow> nat" where
  "unread fts streams = (\<Sum>h \<in> (ft_hash \<circ> snd) ` set fts. case streams h of None \<Rightarrow> 0 | Some ss \<Rightarrow> length ss)"

lemma unread_less:
  assumes "(w, ft) \<in> set fts" and "streams (ft_hash ft) = Some (s # ss)"
  shows "unread fts (streams(ft_hash ft \<mapsto> ss)) < unread fts streams"
  unfolding unread_def
  by (rule sum_strict_mono_ex1) (use assms in \<open>force split: option.splits\<close>)+

lemma fake_poll_answers:
  assumes "on_script w ft pc (streams (ft_hash ft))" and "stream_open pc (streams (ft_hash ft))"
    and "ends_script w ft" and "\<nexists>r. pc = Returned r"
  obtains reply fs' streams' where "fake_poll w ft pc (fs, streams) = Some (Inr (reply, fs', streams'))"
    and "awaits pc reply"
    and "counted (Worker_Polled i now reply) \<or>
      (\<exists>s ss. streams (ft_hash ft) = Some (s # ss) \<and> streams' = streams(ft_hash ft \<mapsto> ss))"
proof (cases "fake_poll w ft pc (fs, streams)")
  case None
  then show thesis using assms by (cases pc) (auto split: list.splits)
next
  case (Some r)
  then obtain reply fs' streams' where poll: "fake_poll w ft pc (fs, streams) = Some (Inr (reply, fs', streams'))"
    using on_script_panic [OF _ assms(1)] ends_script_verdict [OF assms(3)] by (cases r) auto
  then have "awaits pc reply"
    using assms(4) by (cases pc) (auto simp: fs_submit_and_watch_def fs_submit_begin_def fs_submit_end_def Let_def res_bind_eq_Inr
      split: if_splits option.splits list.splits)
  moreover from poll have "counted (Worker_Polled i now reply) \<or>
      (\<exists>s ss. streams (ft_hash ft) = Some (s # ss) \<and> streams' = streams(ft_hash ft \<mapsto> ss))"
    by (cases pc) (auto simp: fs_submit_and_watch_def fs_submit_begin_def fs_submit_end_def Let_def res_bind_eq_Inr
      split: if_splits option.splits list.splits)
  ultimately show thesis using that poll by blast
qed


subsection \<open>Some step is enabled\<close>

lemma pending_at_most:
  assumes "drained fts x" and "fst ` set (run_workers (sc_run x)) \<subseteq> set (map fake_task fts)"
  shows "fs_pending_extrinsics (sc_sink x) \<le> length fts"
proof -
  have "fset (fs_txs (sc_sink x)) \<subseteq> set (map (ft_hash \<circ> snd) fts)"
  proof
    fix h assume "h \<in> fset (fs_txs (sc_sink x))"
    then obtain v where "v \<in> set (run_workers (sc_run x))" "task_hash (fst v) = h"
      using assms(1) by (auto simp: drained_def)
    moreover from this have "fst v \<in> set (map fake_task fts)" using assms(2) by blast
    ultimately show "h \<in> set (map (ft_hash \<circ> snd) fts)" by force
  qed
  then have "card (fset (fs_txs (sc_sink x))) \<le> card (set (map (ft_hash \<circ> snd) fts))" by (intro card_mono) auto
  also have "\<dots> \<le> length fts" by (metis card_length length_map)
  finally show ?thesis by (simp add: fs_pending_extrinsics_def fcard.rep_eq)
qed

lemma worker_polled_enabled:
  assumes "placed txs (run_runner s) (run_workers s)" and "run_exit s = None"
    and "i < length (run_workers s)" and "run_workers s ! i = (t, pc)" and "awaits pc reply"
  shows "\<exists>s'. select_arm prof show_subxt hm (Worker_Polled i now reply) s = Some s' \<and> run_exit s' = None"
proof -
  obtain es pc' where "task_step show_subxt hm t now pc reply = Some (es, pc')" using assms(5) task_step_awaits by metis
  moreover obtain logs c where "push_many (map (Pair (task_hash t)) es)
      (runner_logs (run_runner s), event_counters (run_runner s)) = Inr (logs, c)"
    using worker_push_ok [OF assms(1,3,4)] by blast
  ultimately show ?thesis using assms(2-4) by (simp add: poll_worker_def)
qed

lemma scripted_enabled:
  assumes "on_scripts fts x" and "drained fts x" and "placed (map fake_task fts) (run_runner (sc_run x)) (run_workers (sc_run x))"
    and "distinct (map (ft_hash \<circ> snd) fts)" and "length fts < 2 ^ 62" and "\<forall>(w, ft) \<in> set fts. ends_script w ft"
    and "run_exit (sc_run x) = None"
  shows "\<exists>ev x'. scripted_step prof show_subxt fts ev x = Some x' \<and>
    (work (sc_run x') < work (sc_run x) \<or>
     work (sc_run x') \<le> work (sc_run x) \<and> unread fts (sc_streams x') < unread fts (sc_streams x)) \<and>
    (run_exit (sc_run x') = None \<or> run_exit (sc_run x') = Some All_Futures_Done \<or> (\<exists>p. run_exit (sc_run x') = Some (Panicked p)))"
proof (cases "run_workers (sc_run x)")
  case Nil
  then have "scripted_step prof show_subxt fts (Select_Arm No_Workers) x =
      Some (x\<lparr>sc_run := sc_run x\<lparr>run_exit := Some All_Futures_Done\<rparr>\<rparr>)"
    using assms(7) by simp
  then show ?thesis
    by (intro exI [of _ "Select_Arm No_Workers"] exI conjI) (auto simp: work_def assms(7))
next
  case (Cons v ws)
  then have i: "0 < length (run_workers (sc_run x))" by simp
  have tasks: "fst ` set (run_workers (sc_run x)) \<subseteq> set (map fake_task fts)" using assms(3) by (simp add: placed_def)
  obtain t pc where v: "run_workers (sc_run x) ! 0 = (t, pc)" by fastforce
  then have me: "(t, pc) \<in> set (run_workers (sc_run x))" using i by (metis nth_mem)
  then obtain w ft where t: "t = fake_task (w, ft)" and ft: "(w, ft) \<in> set fts" using tasks by force
  show ?thesis
  proof (cases "\<exists>r. pc = Returned r")
    case True
    then obtain r where r: "pc = Returned r" by blast
    let ?n = "fs_pending_extrinsics (sc_sink x)"
    let ?rd = "idle_readings\<lparr>pending_answer := of_nat ?n\<rparr>"
    have "?n < 2 ^ 64" using pending_at_most [OF assms(2) tasks] assms(5) by simp
    then have n: "unat (of_nat ?n :: usize) = ?n" by (intro unat_of_nat_small) simp
    obtain s where s: "select_arm prof show_subxt False (Worker_Returned 0 ?rd) (sc_run x) = Some s"
      using i v r assms(7) by simp
    then have step: "scripted_step prof show_subxt fts (Select_Arm (Worker_Returned 0 ?rd)) x = Some (x\<lparr>sc_run := s\<rparr>)"
      using n by (simp del: select_arm.simps)
    have "run_exit s = None \<or> (\<exists>p. run_exit s = Some (Panicked p))"
      using s assms(3,7) by (auto elim!: select_arm_cases simp del: select_arm.simps)
    moreover have "work s < work (sc_run x)" using returned_arm_work [OF s assms(3)] by simp
    ultimately show ?thesis using step by fastforce
  next
    case False
    have "stream_open pc (sc_streams x (ft_hash ft))" using assms(2) ft me t by (fastforce simp: drained_def)
    moreover have "on_script w ft pc (sc_streams x (ft_hash ft))" using on_scriptsD(1) [OF assms(1) ft] me t by blast
    moreover have "ends_script w ft" using assms(6) ft by blast
    ultimately obtain reply fs' streams' where
      poll: "fake_poll w ft pc (sc_sink x, sc_streams x) = Some (Inr (reply, fs', streams'))" and "awaits pc reply"
      and less: "counted (Worker_Polled 0 (System_Time 0) reply) \<or>
        (\<exists>u ss. sc_streams x (ft_hash ft) = Some (u # ss) \<and> streams' = (sc_streams x)(ft_hash ft \<mapsto> ss))"
      using False fake_poll_answers [of w ft pc "sc_streams x"] by metis
    then obtain s where s: "select_arm prof show_subxt False (Worker_Polled 0 (System_Time 0) reply) (sc_run x) = Some s"
      and exit: "run_exit s = None"
      using worker_polled_enabled [OF assms(3,7) i v] by blast
    have "scripted_step prof show_subxt fts (Poll_Task 0 (System_Time 0)) x =
        Some \<lparr>sc_run = s, sc_sink = fs', sc_streams = streams'\<rparr>"
      using i v t poll s assms(7) fake_of_task [OF assms(4) ft] by (simp add: poll_task_def del: select_arm.simps)
    moreover have "work s + (if counted (Worker_Polled 0 (System_Time 0) reply) then 1 else 0) \<le> work (sc_run x)"
      by (rule arm_work [OF s assms(3)])
    moreover have "work s < work (sc_run x) \<or>
        work s \<le> work (sc_run x) \<and> unread fts streams' < unread fts (sc_streams x)"
      using less calculation(2) unread_less [OF ft] by (cases "counted (Worker_Polled 0 (System_Time 0) reply)") auto
    ultimately show ?thesis using exit
      by (intro exI [of _ "Poll_Task 0 (System_Time 0)"] exI [of _ "\<lparr>sc_run = s, sc_sink = fs', sc_streams = streams'\<rparr>"]) simp
  qed
qed

subsection \<open>The end of a run\<close>

lemma scripted_can_finish:
  assumes "scripted_runs prof show_subxt fts (run_new clock threshold (map fake_task fts) limit) evs x"
    and "distinct (map (ft_hash \<circ> snd) fts)" and "length fts < 2 ^ 62" and "threshold \<noteq> usize_max" and "0 < threshold"
    and "\<forall>(w, ft) \<in> set fts. ends_script w ft" and "run_exit (sc_run x) = None"
  shows "\<exists>evs' y. scripted_runs prof show_subxt fts (run_new clock threshold (map fake_task fts) limit) (evs @ evs') y \<and>
    run_exit (sc_run y) = Some All_Futures_Done"
  using assms(1,7)
proof (induction "(work (sc_run x), unread fts (sc_streams x))" arbitrary: evs x rule: wf_induct_rule [OF wf_lex_prod [OF wf_less wf_less]])
  case 1
  obtain arms where fake: "fake_runs prof show_subxt (run_new clock threshold (map fake_task fts) limit) arms (sc_run x) (sc_sink x)"
    and scripts: "on_scripts fts x"
    using scripted_fake_runs [OF 1(2) assms(2)] 1(3) by auto
  have "drained fts x" using drained_runs [OF 1(2) assms(2-6)] 1(3) by simp
  from scripted_enabled [OF scripts this placed_runs [OF fake_runs_runs [OF fake]] assms(2,3,6) 1(3)]
  obtain ev x' where step: "scripted_step prof show_subxt fts ev x = Some x'"
    and less: "work (sc_run x') < work (sc_run x) \<or>
      work (sc_run x') \<le> work (sc_run x) \<and> unread fts (sc_streams x') < unread fts (sc_streams x)"
    and exit: "run_exit (sc_run x') = None \<or> run_exit (sc_run x') = Some All_Futures_Done \<or>
      (\<exists>p. run_exit (sc_run x') = Some (Panicked p))"
    by blast
  note run = scripted_event [OF 1(2) step]
  have "run_exit (sc_run x') = None \<or> run_exit (sc_run x') = Some All_Futures_Done"
    using exit scripted_no_panic [OF run assms(2-4,6)] by blast
  then show ?case
  proof
    assume "run_exit (sc_run x') = None"
    with less 1(1) [OF _ run] show ?thesis by fastforce
  qed (use run in blast)
qed

text \<open>
  C17: for transactions with distinct hashes, a threshold that is neither zero nor \<open>usize::MAX\<close>, and scripts
  that all come to an end, a run never panics and, from every state, can be brought to its end by the replies of the scripts; and one that has ended for want of futures has sent all transactions and has
  left none in the sink, also when it was throttled: every transaction is in exactly one of \<open>done\<close> and
  \<open>errors\<close>, and its script alone decides which.
\<close>

theorem scripted_run_complete:
  assumes "scripted_runs prof show_subxt fts (run_new clock threshold (map fake_task fts) limit) evs x"
    and "distinct (map (ft_hash \<circ> snd) fts)" and "length fts < 2 ^ 62" and "threshold \<noteq> usize_max" and "0 < threshold"
    and "\<forall>(w, ft) \<in> set fts. ends_script w ft"
  shows "(\<nexists>p. run_exit (sc_run x) = Some (Panicked p)) \<and>
    (run_exit (sc_run x) = None \<longrightarrow>
      (\<exists>evs' y. scripted_runs prof show_subxt fts (run_new clock threshold (map fake_task fts) limit) (evs @ evs') y \<and>
        run_exit (sc_run y) = Some All_Futures_Done)) \<and>
    (run_exit (sc_run x) = Some All_Futures_Done \<longrightarrow>
      transactions (run_runner (sc_run x)) = [] \<and> fs_pending_extrinsics (sc_sink x) = 0 \<and>
      mset (done_hashes (run_runner (sc_run x))) + mset (error_hashes (run_runner (sc_run x))) =
        mset (map (ft_hash \<circ> snd) fts) \<and>
      (\<forall>(w, ft) \<in> set fts.
        (ft_hash ft \<in> set (done_hashes (run_runner (sc_run x))) \<longleftrightarrow> fake_verdict w ft = Inr (Exec_Done (ft_hash ft))) \<and>
        (ft_hash ft \<in> set (error_hashes (run_runner (sc_run x))) \<longleftrightarrow> fake_verdict w ft = Inr (Exec_Error (ft_hash ft)))))"
proof (intro conjI impI)
  show "\<nexists>p. run_exit (sc_run x) = Some (Panicked p)" using scripted_no_panic [OF assms(1-4,6)] by blast
qed (use scripted_can_finish [OF assms] scripted_complete [OF assms] in \<open>simp_all\<close>)

theorem scripted_run_complete_witness:
  "\<exists>x. example_fake_end = Some x \<and> transactions (run_runner (sc_run x)) = [] \<and> fs_pending_extrinsics (sc_sink x) = 0 \<and>
    mset (done_hashes (run_runner (sc_run x))) + mset (error_hashes (run_runner (sc_run x))) = {#to_le_bytes 1, to_le_bytes 2#}"
proof -
  obtain x where x: "example_fake_end = Some x" and exit: "run_exit (sc_run x) = Some All_Futures_Done"
    using example_fake_end_exit by auto
  have run: "scripted_runs Debug show_unit example_fakes
      (run_new (\<lambda>_. System_Time 0) 1 (map fake_task example_fakes) None) ([] @ example_schedule) x"
    by (rule scripted_steps_runs [OF scripted_start x [unfolded example_fake_end_def]])
  have small: "distinct (map (ft_hash \<circ> snd) example_fakes)" "length example_fakes < 2 ^ 62" "(1 :: usize) \<noteq> usize_max"
      "0 < (1 :: usize)"
    by (simp_all add: example_fakes_def ft_constructor_defs to_le_bytes_def usize_max_def)
  have ends: "\<forall>(w, ft) \<in> set example_fakes. ends_script w ft"
    by (simp add: example_fakes_def ft_constructor_defs event_def_defs ends_script_def ft_events_def get_current_stream_def_def
        submit_result_def)
  have "mset (map (ft_hash \<circ> snd) example_fakes) = {#to_le_bytes 1, to_le_bytes 2#}"
    by (simp add: example_fakes_def ft_constructor_defs)
  with scripted_run_complete [OF run small ends] exit x show ?thesis by (intro exI [of _ x]) simp
qed

end
