(* ===== verification/Accounts.thy ===== *)
theory Accounts
  imports Transaction
begin

section \<open>Accounts\<close>

text \<open>
  The derivation of the sender and receiver accounts in \<open>src/subxt_transaction.rs\<close>: the description of the
  accounts of a scenario, the requests to a key generator, the two generators with their tables of
  development accounts, and \<open>derive_accounts\<close>, which splits a range of ids among worker threads. The
  cryptography is a parameter: the development keys (\<open>dev_key\<close>), the parser of secret URIs
  (\<open>parse_uri\<close>) and the key pair of a URI (\<open>from_uri\<close>).
\<close>

subsection \<open>Descriptions, requests and generators\<close>

text \<open>\<open>Derived_Range a b\<close> is \<open>Derived(a..b)\<close>, a half-open range.\<close>

datatype accounts_description =
    Keyring string
  | Derived_Range u32 u32

datatype account_generate_request =
    Request_Keyring string
  | Request_Derived string u32

definition sender_seed :: string where
  "sender_seed = ''//Sender''"

definition receiver_seed :: string where
  "receiver_seed = ''//Receiver''"

datatype eth_dev = Alith | Baltathar | Charleth | Dorothy | Ethan | Faith

datatype sr25519_dev = Alice | Bob | Charlie | Dave | Eve | Ferdie

definition eth_dev_account :: "string \<Rightarrow> eth_dev option" where
  "eth_dev_account name =
     (if name = ''alice'' \<or> name = ''alith'' then Some Alith
      else if name = ''bob'' \<or> name = ''baltathar'' then Some Baltathar
      else if name = ''charlie'' \<or> name = ''charleth'' then Some Charleth
      else if name = ''dave'' \<or> name = ''dorothy'' then Some Dorothy
      else if name = ''eve'' \<or> name = ''ethan'' then Some Ethan
      else if name = ''ferdie'' \<or> name = ''faith'' then Some Faith
      else None)"

definition sr25519_dev_account :: "string \<Rightarrow> sr25519_dev option" where
  "sr25519_dev_account name =
     (if name = ''alice'' \<or> name = ''alith'' then Some Alice
      else if name = ''bob'' \<or> name = ''baltathar'' then Some Bob
      else if name = ''charlie'' \<or> name = ''charleth'' then Some Charlie
      else if name = ''dave'' \<or> name = ''dorothy'' then Some Dave
      else if name = ''eve'' \<or> name = ''ethan'' then Some Eve
      else if name = ''ferdie'' \<or> name = ''faith'' then Some Ferdie
      else None)"

definition derivation_uri :: "string \<Rightarrow> u32 \<Rightarrow> string" where
  "derivation_uri seed i = seed @ ''//'' @ show_u32 i"

fun generate_ecdsa_keypair ::
    "(eth_dev \<Rightarrow> 'kp) \<Rightarrow> (string \<Rightarrow> 'u option) \<Rightarrow> ('u \<Rightarrow> 'kp option) \<Rightarrow> account_generate_request \<Rightarrow> 'kp res" where
  "generate_ecdsa_keypair dev_key parse_uri from_uri (Request_Keyring name) =
     (case eth_dev_account name of
        Some d \<Rightarrow> Inr (dev_key d) | None \<Rightarrow> Inl (Panic ''unknown keyring name''))"
| "generate_ecdsa_keypair dev_key parse_uri from_uri (Request_Derived seed i) =
     res_bind (unwrap (parse_uri (derivation_uri seed i))) (\<lambda>u. unwrap (from_uri u))"

fun generate_sr25519_keypair ::
    "(sr25519_dev \<Rightarrow> 'kp) \<Rightarrow> (string \<Rightarrow> 'u option) \<Rightarrow> ('u \<Rightarrow> 'kp option) \<Rightarrow> account_generate_request \<Rightarrow> 'kp res" where
  "generate_sr25519_keypair dev_key parse_uri from_uri (Request_Keyring name) =
     (case sr25519_dev_account name of
        Some d \<Rightarrow> Inr (dev_key d) | None \<Rightarrow> Inl (Panic ''unknown keyring name''))"
| "generate_sr25519_keypair dev_key parse_uri from_uri (Request_Derived seed i) =
     res_bind (unwrap (parse_uri (derivation_uri seed i))) (\<lambda>u. unwrap (from_uri u))"

subsection \<open>Deriving a range of accounts\<close>

text \<open>
  What one thread computes for one id, and the join of a thread: a panic of the thread is an \<open>Err\<close> of
  \<open>join\<close>, which is unwrapped. \<open>available\<close> is \<open>available_parallelism\<close>, at least 1.
\<close>

definition derived_account ::
    "(account_generate_request \<Rightarrow> 'kp res) \<Rightarrow> string \<Rightarrow> usize \<Rightarrow> (string \<times> 'kp \<times> account_metadata) res" where
  "derived_account generate seed i =
     res_bind (generate (Request_Derived seed (ucast i)))
       (\<lambda>kp. Inr (show_nat (unat i), kp, Derived (ucast i)))"

definition derive_accounts ::
    "profile \<Rightarrow> usize \<Rightarrow> accounts_description \<Rightarrow> string \<Rightarrow> (account_generate_request \<Rightarrow> 'kp res) \<Rightarrow>
       (string \<rightharpoonup> 'kp \<times> account_metadata) res" where
  "derive_accounts prof available description seed generate =
     (case description of
        Derived_Range start stop \<Rightarrow>
          (let from_id = ucast start :: usize; to_id = ucast stop
           in res_bind (u_sub prof to_id from_id) (\<lambda>n.
           let t = min n available
           in res_bind (res_mapM (\<lambda>thread_idx.
                res_bind (thread_chunk prof n t (of_nat thread_idx)) (\<lambda>(lo, hi).
                res_bind (u_add prof from_id lo) (\<lambda>lo'.
                res_bind (u_add prof from_id hi) (\<lambda>hi'. Inr (lo', hi')))))
              [0..<unat t]) (\<lambda>chunks.
           res_bind (res_mapM (\<lambda>(lo, hi).
                join_thread (res_mapM (\<lambda>i. derived_account generate seed (of_nat i)) [unat lo..<unat hi]))
              chunks) (\<lambda>results.
           Inr (collect_map (concat results))))))
      | Keyring account \<Rightarrow>
          res_bind (generate (Request_Keyring account))
            (\<lambda>kp. Inr (collect_map [(account, kp, KeyRing account)])))"

subsection \<open>The derived accounts\<close>

lemma unat_ucast_u32 [simp]: "unat (ucast (x :: u32) :: usize) = unat x"
proof -
  have "unat x < 2 ^ 64" using unat_bound [of x] by simp
  then show ?thesis by (simp add: unsigned_ucast_eq take_bit_nat_eq_self)
qed

lemma ucast_u32_of_nat: "(ucast (x :: u32) :: usize) = of_nat (unat x)"
  by (simp add: word_unat_eq_iff)

lemma ucast_of_nat_u32: "n < 2 ^ 64 \<Longrightarrow> (ucast (of_nat n :: usize) :: u32) = of_nat n"
  by (simp add: unsigned_of_nat take_bit_nat_eq_self)

text \<open>
  The ids that the threads take are those of the range, in order, each once, whatever the number of
  threads: the bounds of a chunk do not overflow because the ids have 32 bits and \<open>usize\<close> has 64.
\<close>

lemma derive_chunk:
  assumes "i < t" and "t \<le> n" and "a + n < 2 ^ 32"
  shows "res_bind (thread_chunk prof (of_nat n) (of_nat t) (of_nat i)) (\<lambda>(lo, hi).
      res_bind (u_add prof (of_nat a) lo) (\<lambda>lo'.
      res_bind (u_add prof (of_nat a) hi) (\<lambda>hi'. Inr (lo', hi')))) =
    Inr (of_nat (a + i * n div t) :: usize, of_nat (a + Suc i * n div t))"
proof -
  have n: "n < 2 ^ 32" using assms(3) by simp
  have "n * n < 2 ^ 32 * 2 ^ 32" using n by (intro mult_strict_mono) auto
  then have chunk: "thread_chunk prof (of_nat n) (of_nat t) (of_nat i) =
      Inr (of_nat (i * n div t), of_nat (Suc i * n div t))"
    by (intro thread_chunk_of_nat assms(1,2)) simp
  have "Suc i * n div t \<le> t * n div t" using assms(1) by (intro div_le_mono mult_right_mono) auto
  then have hi: "Suc i * n div t \<le> n" using assms(1) by simp
  have lo: "i * n div t \<le> Suc i * n div t" by (intro div_le_mono) simp
  have "a + n < 2 ^ LENGTH(64)" using assms(3) by simp
  then have small: "a + i * n div t < 2 ^ LENGTH(64)" "a + Suc i * n div t < 2 ^ LENGTH(64)"
    using hi lo by linarith+
  show ?thesis
    unfolding chunk res_bind_Inr prod.case u_add_of_nat [OF small(1)] u_add_of_nat [OF small(2)] ..
qed

definition account_entry :: "(u32 \<Rightarrow> 'kp) \<Rightarrow> nat \<Rightarrow> string \<times> 'kp \<times> account_metadata" where
  "account_entry key k = (show_nat k, key (of_nat k), Derived (of_nat k))"

lemma collect_account_entries:
  assumes "a + n \<le> 2 ^ 32"
  shows "collect_map (map (account_entry key) [a..<a + n]) (show_nat k) =
      (if a \<le> k \<and> k < a + n then Some (key (of_nat k), Derived (of_nat k)) else None)"
    and "dom (collect_map (map (account_entry key) [a..<a + n])) = show_nat ` {a..<a + n}"
proof -
  have d: "distinct (map fst (map (account_entry key) [a..<a + n]))"
    by (simp add: comp_def account_entry_def distinct_map inj_on_def)
  show "collect_map (map (account_entry key) [a..<a + n]) (show_nat k) =
      (if a \<le> k \<and> k < a + n then Some (key (of_nat k), Derived (of_nat k)) else None)"
  proof (cases "a \<le> k \<and> k < a + n")
    case True
    then have "(show_nat k, key (of_nat k), Derived (of_nat k)) \<in> set (map (account_entry key) [a..<a + n])"
      by (auto simp: account_entry_def)
    then show ?thesis using d True by (simp add: collect_map_distinct del: set_map)
  next
    case False
    then have "show_nat k \<notin> dom (collect_map (map (account_entry key) [a..<a + n]))"
      by (auto simp: account_entry_def)
    then show ?thesis using False by (metis domIff)
  qed
  show "dom (collect_map (map (account_entry key) [a..<a + n])) = show_nat ` {a..<a + n}"
    by (simp add: image_image account_entry_def)
qed

lemma derive_accounts_entries:
  fixes available :: usize
  assumes "start \<le> stop" and "0 < available"
    and "\<And>i. start \<le> i \<Longrightarrow> i < stop \<Longrightarrow> generate (Request_Derived seed i) = Inr (key i)"
  shows "derive_accounts prof available (Derived_Range start stop) seed generate =
    Inr (collect_map (map (account_entry key) [unat start..<unat stop]))"
proof -
  define a n where "a = unat start" and "n = unat stop - unat start"
  have stop: "unat stop = a + n" using assms(1) by (simp add: a_def n_def word_le_nat_alt)
  have lim: "a + n < 2 ^ 32" using unat_bound [of stop] by (simp add: stop)
  have n64: "a + n < 2 ^ LENGTH(64)" "n < 2 ^ 64" "a + n < 2 ^ 64" using lim by simp_all
  define t where "t = min n (unat available)"
  note t = threads_available [OF n64(2), of available, folded t_def]
  have sub: "u_sub prof (ucast stop :: usize) (of_nat a) = Inr (of_nat n)"
    unfolding ucast_u32_of_nat stop using u_sub_of_nat [OF _ n64(1), of a prof] by simp
  have account: "derived_account generate seed (of_nat k) = Inr (account_entry key k)" if "a \<le> k" "k < a + n" for k
  proof -
    have k: "k < 2 ^ 32" "k < 2 ^ 64" using that lim by auto
    have "(of_nat k :: u32) < stop" "start \<le> of_nat k"
      using that k(1) stop by (simp_all add: word_less_nat_alt word_le_nat_alt a_def)
    then show ?thesis
      using assms(3) k by (simp add: derived_account_def account_entry_def ucast_of_nat_u32)
  qed
  obtain results where results: "res_mapM (\<lambda>(lo, hi). join_thread (res_mapM (\<lambda>i. derived_account generate seed (of_nat i)) [unat lo..<unat hi]))
      (map (\<lambda>i. (of_nat (a + i * n div t) :: usize, of_nat (a + Suc i * n div t) :: usize)) [0..<t]) = Inr results"
    and all: "concat results = map (account_entry key) [a..<a + n]"
    using threads_joined [OF n64(3) t(3) [OF assms(2)], of "\<lambda>i. derived_account generate seed (of_nat i)"] account by blast
  have chunks: "res_mapM (\<lambda>i. res_bind (thread_chunk prof (of_nat n) (of_nat t) (of_nat i)) (\<lambda>(lo, hi).
      res_bind (u_add prof (of_nat a) lo) (\<lambda>lo'. res_bind (u_add prof (of_nat a) hi) (\<lambda>hi'. Inr (lo', hi')))))
      [0..<t] = Inr (map (\<lambda>i. (of_nat (a + i * n div t) :: usize, of_nat (a + Suc i * n div t) :: usize)) [0..<t])"
    by (rule res_mapM_total, rule derive_chunk) (use lim in \<open>auto simp: t_def\<close>)
  show ?thesis
    unfolding derive_accounts_def accounts_description.case Let_def sub res_bind_Inr t(1,2)
      ucast_u32_of_nat [of start] a_def [symmetric] stop chunks results all ..
qed

lemma show_nat_ids: "show_nat ` {unat start..<unat stop} = {show_u32 i | i. start \<le> i \<and> i < stop}"
proof -
  have "show_nat k \<in> {show_u32 i | i. start \<le> i \<and> i < stop}" if "unat start \<le> k" "k < unat stop" for k
  proof -
    have k: "unat (of_nat k :: u32) = k" using that unat_bound [of stop] by simp
    then have "start \<le> of_nat k" "of_nat k < stop" using that by (simp_all add: word_le_nat_alt word_less_nat_alt)
    then show ?thesis using k unfolding show_u32_def by (metis (mono_tags, lifting) mem_Collect_eq)
  qed
  then show ?thesis by (auto simp: show_u32_def word_le_nat_alt word_less_nat_alt)
qed

lemma range_accounts_derived:
  fixes available :: usize
  assumes "start \<le> stop" and "0 < available"
    and "\<forall>i. start \<le> i \<and> i < stop \<longrightarrow> generate (Request_Derived seed i) = Inr (key i)"
  shows "\<exists>accounts. derive_accounts prof available (Derived_Range start stop) seed generate = Inr accounts \<and>
    dom accounts = {show_u32 i | i. start \<le> i \<and> i < stop} \<and>
    (\<forall>i. start \<le> i \<and> i < stop \<longrightarrow> accounts (show_u32 i) = Some (key i, Derived i))"
proof (intro exI conjI allI impI)
  let ?accounts = "collect_map (map (account_entry key) [unat start..<unat stop])"
  have lim: "unat start + (unat stop - unat start) \<le> 2 ^ 32" "unat start + (unat stop - unat start) = unat stop"
    using assms(1) unat_bound [of stop] by (simp_all add: word_le_nat_alt)
  note entries = collect_account_entries [OF lim(1), of key, unfolded lim(2)]
  show "derive_accounts prof available (Derived_Range start stop) seed generate = Inr ?accounts"
    by (rule derive_accounts_entries) (use assms in auto)
  show "dom ?accounts = {show_u32 i | i. start \<le> i \<and> i < stop}"
    unfolding entries(2) by (rule show_nat_ids)
  show "?accounts (show_u32 i) = Some (key i, Derived i)" if "start \<le> i \<and> i < stop" for i
    using entries(1) [of "unat i"] that by (simp add: show_u32_def word_le_nat_alt word_less_nat_alt)
qed

text \<open>
  C21: \<open>derive_accounts\<close> of a range derives every account of the range and no other, each under its decimal
  name with the key of its own id, however many threads the range is split among, and no arithmetic on
  the chunk bounds overflows.
\<close>

theorem derive_accounts_range:
  fixes available :: usize
  assumes "start \<le> stop" and "0 < available"
    and "\<forall>i. start \<le> i \<and> i < stop \<longrightarrow> generate (Request_Derived seed i) = Inr (key i)"
  shows "\<exists>accounts. derive_accounts prof available (Derived_Range start stop) seed generate = Inr accounts \<and>
    dom accounts = {show_u32 i | i. start \<le> i \<and> i < stop} \<and>
    (\<forall>i. start \<le> i \<and> i < stop \<longrightarrow> accounts (show_u32 i) = Some (key i, Derived i))"
  by (rule range_accounts_derived [OF assms])

text \<open>A generator that names each key by its URI, as the key of a secret URI determines it.\<close>

definition example_generate :: "account_generate_request \<Rightarrow> string res" where
  "example_generate = generate_sr25519_keypair (\<lambda>_. ''dev'') Some Some"

lemma example_generate_Derived: "example_generate (Request_Derived seed i) = Inr (derivation_uri seed i)"
  by (simp add: example_generate_def unwrap_def)

theorem derive_accounts_range_witness:
  "\<exists>accounts. derive_accounts Debug 4 (Derived_Range 5 16) sender_seed example_generate = Inr accounts \<and>
    accounts (show_u32 7) = Some (derivation_uri sender_seed 7, Derived 7)"
proof -
  have "\<exists>accounts. derive_accounts Debug 4 (Derived_Range 5 16) sender_seed example_generate = Inr accounts \<and>
    dom accounts = {show_u32 i | i. 5 \<le> i \<and> i < 16} \<and>
    (\<forall>i. 5 \<le> i \<and> i < 16 \<longrightarrow> accounts (show_u32 i) = Some (derivation_uri sender_seed i, Derived i))"
    by (rule derive_accounts_range) (simp_all add: example_generate_Derived)
  then show ?thesis by force
qed

text \<open>A reversed range cannot be derived: the subtraction of its length overflows.\<close>

lemma derive_accounts_reversed:
  "stop < start \<Longrightarrow> derive_accounts Debug available (Derived_Range start stop) seed generate = Inl Arithmetic_Overflow"
  by (simp add: derive_accounts_def u_sub_def word_le_nat_alt word_less_nat_alt)

text \<open>The two generators know the same development accounts under the same names.\<close>

lemma dev_account_names:
  "eth_dev_account name = None \<longleftrightarrow> sr25519_dev_account name = None"
  by (simp add: eth_dev_account_def sr25519_dev_account_def)

end
