(* ===== verification/Nonces.thy ===== *)
theory Nonces
  imports Transaction
begin

section \<open>Nonces\<close>

text \<open>
  How the sinks hand out nonces: \<open>assign_nonce\<close>, the critical section under the write lock of the map
  \<open>nonces\<close>, and the contract of such a source of nonces. The sink of subxt runs it at the end of
  \<open>check_account_nonce\<close> with the nonce that it read before, the fake transaction builder with 0.
\<close>

definition assign_nonce ::
    "profile \<Rightarrow> 'k \<Rightarrow> u128 \<Rightarrow> ('k \<rightharpoonup> u128) \<Rightarrow> (u128 \<times> ('k \<rightharpoonup> u128)) res" where
  "assign_nonce prof account remote_nonce nonces =
     (case nonces account of
        Some nonce \<Rightarrow> res_bind (u_add prof nonce 1) (\<lambda>nonce'. Inr (nonce', nonces(account \<mapsto> nonce')))
      | None \<Rightarrow> Inr (remote_nonce, nonces(account \<mapsto> remote_nonce)))"

text \<open>A sequence of requests, served one after the other: the nonces issued, and the state after them.\<close>

fun serve :: "('k \<Rightarrow> u128 \<Rightarrow> 's \<Rightarrow> (u128 \<times> 's) res) \<Rightarrow> ('k \<times> u128) list \<Rightarrow> 's \<Rightarrow> (('k \<times> u128) list \<times> 's) res" where
  "serve assign [] s = Inr ([], s)"
| "serve assign ((k, r) # reqs) s =
     res_bind (assign k r s) (\<lambda>(n, s'). res_bind (serve assign reqs s') (\<lambda>(ns, s''). Inr ((k, n) # ns, s'')))"

definition issued_to :: "'k \<Rightarrow> ('k \<times> u128) list \<Rightarrow> u128 list" where
  "issued_to k issued = map snd (filter (\<lambda>x. fst x = k) issued)"

lemma issued_to_simps [simp]:
  "issued_to k [] = []"
  "issued_to k ((k', n) # issued) = (if k' = k then n # issued_to k issued else issued_to k issued)"
  "issued_to k (issued @ issued') = issued_to k issued @ issued_to k issued'"
  by (simp_all add: issued_to_def)

subsection \<open>The contract of a source of nonces\<close>

text \<open>
  \<open>current s k\<close> is the nonce that was issued to \<open>k\<close> last. The first nonce of an account is the one that the
  request brings, every further one the successor of the last.
\<close>

locale nonce_source =
  fixes assign :: "'k \<Rightarrow> u128 \<Rightarrow> 's \<Rightarrow> (u128 \<times> 's) res"
    and current :: "'s \<Rightarrow> 'k \<Rightarrow> u128 option"
  assumes first_nonce: "current s k = None \<Longrightarrow> assign k r s = Inr (n, s') \<Longrightarrow> n = r"
    and next_nonce: "current s k = Some c \<Longrightarrow> assign k r s = Inr (n, s') \<Longrightarrow> n = c + 1"
    and issued_current: "assign k r s = Inr (n, s') \<Longrightarrow> current s' k = Some n"
    and other_accounts: "assign k r s = Inr (n, s') \<Longrightarrow> k' \<noteq> k \<Longrightarrow> current s' k' = current s k'"
begin

text \<open>What the history \<open>issued\<close> of a source says of its state: consecutive nonces for every account.\<close>

definition consecutive :: "'s \<Rightarrow> ('k \<times> u128) list \<Rightarrow> bool" where
  "consecutive s issued \<longleftrightarrow>
     (\<forall>k. current s k = (if issued_to k issued = [] then None else Some (last (issued_to k issued))) \<and>
       (\<forall>i. Suc i < length (issued_to k issued) \<longrightarrow> issued_to k issued ! Suc i = issued_to k issued ! i + 1))"

lemma consecutive_start: "(\<And>k. current s k = None) \<Longrightarrow> consecutive s []"
  by (simp add: consecutive_def)

lemma consecutive_assign:
  assumes "consecutive s issued" and "assign k r s = Inr (n, s')"
  shows "consecutive s' (issued @ [(k, n)])"
  unfolding consecutive_def
proof (intro allI)
  fix k'
  have old: "current s k' = (if issued_to k' issued = [] then None else Some (last (issued_to k' issued)))"
    "\<And>i. Suc i < length (issued_to k' issued) \<Longrightarrow> issued_to k' issued ! Suc i = issued_to k' issued ! i + 1"
    using assms(1) by (auto simp: consecutive_def)
  show "current s' k' = (if issued_to k' (issued @ [(k, n)]) = [] then None
      else Some (last (issued_to k' (issued @ [(k, n)])))) \<and>
    (\<forall>i. Suc i < length (issued_to k' (issued @ [(k, n)])) \<longrightarrow>
      issued_to k' (issued @ [(k, n)]) ! Suc i = issued_to k' (issued @ [(k, n)]) ! i + 1)"
  proof (cases "k' = k")
    case False
    then show ?thesis using old other_accounts [OF assms(2)] by simp
  next
    case True
    have step: "n = last (issued_to k issued) + 1" if "issued_to k issued \<noteq> []"
      using next_nonce [OF _ assms(2)] old(1) that True by simp
    have "(issued_to k issued @ [n]) ! Suc i = (issued_to k issued @ [n]) ! i + 1" if "Suc i < Suc (length (issued_to k issued))" for i
    proof (cases "Suc i < length (issued_to k issued)")
      case True
      then show ?thesis using old(2) [of i] \<open>k' = k\<close> by (simp add: nth_append)
    next
      case False
      then have "Suc i = length (issued_to k issued)" using that by simp
      then show ?thesis using step by (metis last_conv_nth length_0_conv lessI nat.distinct(1) nth_append nth_append_length diff_Suc_1)
    qed
    then show ?thesis using True issued_current [OF assms(2)] by simp
  qed
qed

text \<open>The nonces of an account are those from its first one on.\<close>

lemma consecutive_range:
  assumes "consecutive s issued" and "i < length (issued_to k issued)"
  shows "issued_to k issued ! i = hd (issued_to k issued) + of_nat i"
  using assms(2)
proof (induction i)
  case (Suc i)
  then show ?case using assms(1) by (simp add: consecutive_def algebra_simps)
qed (simp add: hd_conv_nth)

lemma consecutive_eq:
  "consecutive s issued \<Longrightarrow>
     issued_to k issued = map (\<lambda>i. hd (issued_to k issued) + of_nat i) [0..<length (issued_to k issued)]"
  by (rule nth_equalityI) (simp_all add: consecutive_range)

lemma consecutive_first:
  assumes "consecutive s issued" and "assign k r s = Inr (n, s')" and "issued_to k issued = []"
  shows "n = r"
  using first_nonce [OF _ assms(2)] assms(1,3) by (simp add: consecutive_def)

lemma serve_consecutive:
  assumes "serve assign reqs s = Inr (ns, s')" and "consecutive s issued"
  shows "consecutive s' (issued @ ns)"
  using assms
proof (induction reqs arbitrary: s ns issued)
  case (Cons x reqs)
  obtain k r where x: "x = (k, r)" by fastforce
  obtain n s1 where 1: "assign k r s = Inr (n, s1)" using Cons.prems(1) by (auto simp: x elim!: res_bind_InrE)
  obtain ns' where 2: "serve assign reqs s1 = Inr (ns', s')" and ns: "ns = (k, n) # ns'"
    using Cons.prems(1) by (auto simp: x 1 elim!: res_bind_InrE)
  show ?case using Cons.IH [OF 2 consecutive_assign [OF Cons.prems(2) 1]] by (simp add: ns)
qed simp

end

text \<open>Nonces that are consecutive and do not wrap around are distinct.\<close>

lemma distinct_nonces:
  assumes "ns = map (\<lambda>i. n + of_nat i :: u128) [0..<length ns]" and "length ns \<le> 2 ^ 128"
  shows "distinct ns"
proof -
  have "inj_on (\<lambda>i. n + of_nat i :: u128) {0..<length ns}"
  proof (rule inj_onI)
    fix i j assume "i \<in> {0..<length ns}" "j \<in> {0..<length ns}" and "n + of_nat i = n + (of_nat j :: u128)"
    then have "(of_nat i :: u128) = of_nat j" "i < 2 ^ LENGTH(128)" "j < 2 ^ LENGTH(128)" using assms(2) by auto
    then show "i = j" using unat_of_nat_small by metis
  qed
  then have "distinct (map (\<lambda>i. n + of_nat i) [0..<length ns])" by (simp add: distinct_map)
  then show ?thesis using assms(1) by metis
qed

subsection \<open>The map of nonces\<close>

interpretation nonce_map: nonce_source "assign_nonce prof" "\<lambda>nonces. nonces"
  by unfold_locales (auto simp: assign_nonce_def elim!: res_bind_InrE split: option.splits simp: u_add_def on_overflow_def split: if_splits profile.splits)

end
