(* ===== verification/Connector.thy ===== *)
theory Connector
  imports Txtt_Prelude
begin

section \<open>Connecting to a node\<close>

text \<open>
  The web socket client of \<open>src/helpers.rs\<close> and the connection loop of \<open>src/subxt_api_connector.rs\<close>. The
  network is a parameter: \<open>parse_url\<close> parses an address, \<open>dial\<close> opens the transport of the \<open>i\<close>-th attempt
  with a configuration, \<open>from_backend\<close> makes the online client of the \<open>i\<close>-th attempt on a backend.
\<close>

subsection \<open>The web socket client\<close>

record transport_config =
  max_request_size :: nat
  max_response_size :: nat
  connection_timeout_secs :: nat

record ('t) ws_client =
  ws_channel :: 't
  max_buffer_capacity_per_subscription :: nat
  max_concurrent_requests :: nat

text \<open>\<open>Transport\<close> is the constructor of jsonrpsee's errors that both failures are mapped to.\<close>

datatype 'x client_error = Transport 'x

definition ws_transport ::
    "(string \<Rightarrow> 'x + 'u) \<Rightarrow> (transport_config \<Rightarrow> 'u \<Rightarrow> 'x + 't) \<Rightarrow> string \<Rightarrow> 'x client_error + 't" where
  "ws_transport parse_url dial url =
     (case parse_url url of
        Inl e \<Rightarrow> Inl (Transport e)
      | Inr u \<Rightarrow>
          (case dial \<lparr>max_request_size = 400 * 1024 * 1024, max_response_size = 400 * 1024 * 1024,
               connection_timeout_secs = 600\<rparr> u of
             Inl e \<Rightarrow> Inl (Transport e)
           | Inr t \<Rightarrow> Inr t))"

definition client ::
    "(string \<Rightarrow> 'x + 'u) \<Rightarrow> (transport_config \<Rightarrow> 'u \<Rightarrow> 'x + 't) \<Rightarrow> string \<Rightarrow> 'x client_error + 't ws_client" where
  "client parse_url dial url =
     (case ws_transport parse_url dial url of
        Inl e \<Rightarrow> Inl e
      | Inr t \<Rightarrow> Inr \<lparr>ws_channel = t, max_buffer_capacity_per_subscription = 4096,
          max_concurrent_requests = 1280000\<rparr>)"

subsection \<open>The connection loop\<close>

datatype 'c backend =
    Legacy_Backend 'c
  | Chain_Head_Backend nat 'c

datatype 'e connect_error =
    Client_Failed 'e
  | Connect_Failed string

definition max_attempts :: nat where
  "max_attempts = 10"

definition retry_delay :: duration where
  "retry_delay = 1000000000"

definition make_backend :: "bool \<Rightarrow> 'c \<Rightarrow> 'c backend" where
  "make_backend use_legacy_backend c =
     (if use_legacy_backend then Legacy_Backend c else Chain_Head_Backend (6 * 3600) c)"

text \<open>
  The loop over the attempts: the time slept and the result. The \<open>?\<close> after \<open>helpers::client\<close> leaves the
  loop at once, on any attempt.
\<close>

fun connect_loop ::
    "(nat \<Rightarrow> 'e + 'c) \<Rightarrow> (nat \<Rightarrow> 'c backend \<Rightarrow> 'f + 'api) \<Rightarrow> string \<Rightarrow> bool \<Rightarrow> nat list \<Rightarrow>
       duration \<times> ('e connect_error + 'api)" where
  "connect_loop clients from_backend url use_legacy_backend [] =
     (0, Inl (Connect_Failed (''Failed to connect to '' @ url @ '' after '' @ show_nat max_attempts @ '' attempts'')))"
| "connect_loop clients from_backend url use_legacy_backend (i # attempts) =
     (case clients i of
        Inl e \<Rightarrow> (0, Inl (Client_Failed e))
      | Inr c \<Rightarrow>
          (case from_backend i (make_backend use_legacy_backend c) of
             Inr api \<Rightarrow> (0, Inr api)
           | Inl err \<Rightarrow>
               (let (slept, r) = connect_loop clients from_backend url use_legacy_backend attempts
                in (retry_delay + slept, r))))"

definition connect ::
    "(nat \<Rightarrow> 'e + 'c) \<Rightarrow> (nat \<Rightarrow> 'c backend \<Rightarrow> 'f + 'api) \<Rightarrow> string \<Rightarrow> bool \<Rightarrow>
       duration \<times> ('e connect_error + 'api)" where
  "connect clients from_backend url use_legacy_backend =
     connect_loop clients from_backend url use_legacy_backend [0..<max_attempts]"

subsection \<open>When the loop ends, and with what\<close>

text \<open>An attempt is retried when its client was made but its backend failed.\<close>

definition retried ::
    "(nat \<Rightarrow> 'e + 'c) \<Rightarrow> (nat \<Rightarrow> 'c backend \<Rightarrow> 'f + 'api) \<Rightarrow> bool \<Rightarrow> nat \<Rightarrow> bool" where
  "retried clients from_backend legacy i \<longleftrightarrow>
     (case clients i of Inl _ \<Rightarrow> False
      | Inr c \<Rightarrow> (case from_backend i (make_backend legacy c) of Inl _ \<Rightarrow> True | Inr _ \<Rightarrow> False))"

lemma retried_iff:
  "retried clients from_backend legacy i \<longleftrightarrow>
     (\<exists>c f. clients i = Inr c \<and> from_backend i (make_backend legacy c) = Inl f)"
  by (auto simp: retried_def split: sum.splits)

lemma connect_loop_retried:
  "(\<forall>i \<in> set is. retried clients from_backend legacy i) \<Longrightarrow>
   connect_loop clients from_backend url legacy (is @ js) =
     (length is * retry_delay + fst (connect_loop clients from_backend url legacy js),
      snd (connect_loop clients from_backend url legacy js))"
proof (induction "is")
  case (Cons i "is")
  then obtain c f where "clients i = Inr c" "from_backend i (make_backend legacy c) = Inl f"
    by (auto simp: retried_iff)
  with Cons show ?case by simp
qed simp

lemma connect_first:
  assumes "k < max_attempts" and "\<forall>i < k. retried clients from_backend legacy i"
  shows "connect clients from_backend url legacy =
    (k * retry_delay + fst (connect_loop clients from_backend url legacy (k # [Suc k..<max_attempts])),
     snd (connect_loop clients from_backend url legacy (k # [Suc k..<max_attempts])))"
proof -
  have "[0..<max_attempts] = [0..<k] @ k # [Suc k..<max_attempts]"
    using assms(1) by (metis less_imp_add_positive upt_add_eq_append upt_conv_Cons zero_le)
  then show ?thesis
    using connect_loop_retried [of "[0..<k]" clients from_backend legacy url "k # [Suc k..<max_attempts]"] assms(2)
    by (simp add: connect_def)
qed

lemma connect_exhausted:
  assumes "\<forall>i < max_attempts. retried clients from_backend legacy i"
  shows "connect clients from_backend url legacy =
    (max_attempts * retry_delay,
     Inl (Connect_Failed (''Failed to connect to '' @ url @ '' after '' @ show_nat max_attempts @ '' attempts'')))"
  using connect_loop_retried [of "[0..<max_attempts]" clients from_backend legacy url "[]"] assms
  by (simp add: connect_def)

lemma connect_cases:
  obtains
    (exhausted) "\<forall>i < max_attempts. retried clients from_backend legacy i"
  | (client_failed) k e where "k < max_attempts" and "\<forall>i < k. retried clients from_backend legacy i" and "clients k = Inl e"
  | (connected) k c api where "k < max_attempts" and "\<forall>i < k. retried clients from_backend legacy i"
      and "clients k = Inr c" and "from_backend k (make_backend legacy c) = Inr api"
proof (cases "\<forall>i < max_attempts. retried clients from_backend legacy i")
  case False
  then obtain k where k: "k < max_attempts" "\<not> retried clients from_backend legacy k"
    and least: "\<forall>i < k. retried clients from_backend legacy i"
    using exists_least_iff [of "\<lambda>i. i < max_attempts \<and> \<not> retried clients from_backend legacy i"]
    by (metis less_trans)
  show thesis
  proof (cases "clients k")
    case (Inl e)
    then show thesis using client_failed k(1) least by blast
  next
    case (Inr c)
    then obtain api where "from_backend k (make_backend legacy c) = Inr api"
      using k(2) by (cases "from_backend k (make_backend legacy c)") (auto simp: retried_iff)
    then show thesis using connected k(1) least Inr by blast
  qed
qed (rule exhausted)

lemma ex_first:
  assumes "\<forall>i < k. P i" and "\<not> P k" and "k < n" and "\<And>j. Q j \<Longrightarrow> \<not> P j"
  shows "(\<exists>j < (n :: nat). (\<forall>i < j. P i) \<and> Q j) \<longleftrightarrow> Q k"
proof
  assume "\<exists>j < n. (\<forall>i < j. P i) \<and> Q j"
  then obtain j where "\<forall>i < j. P i" "Q j" by blast
  moreover from this have "j = k" using assms by (meson linorder_neqE_nat)
  ultimately show "Q k" by simp
qed (use assms in blast)

text \<open>
  C31: connecting always comes to an end, after at most ten attempts and ten seconds of sleep. It returns
  the online client of the first attempt whose backend works, if no attempt before that failed to open
  its web socket; the error of the web socket of the first attempt that failed to open one, without
  sleeping or trying again after it; and the error that the attempts are exhausted exactly when every
  one of the ten opened its web socket and had its backend fail.
\<close>

theorem connect_outcome:
  "fst (connect clients from_backend url legacy) \<le> max_attempts * retry_delay \<and>
   (\<forall>api. snd (connect clients from_backend url legacy) = Inr api \<longleftrightarrow>
     (\<exists>k < max_attempts. (\<forall>i < k. retried clients from_backend legacy i) \<and>
       (\<exists>c. clients k = Inr c \<and> from_backend k (make_backend legacy c) = Inr api))) \<and>
   (\<forall>e. snd (connect clients from_backend url legacy) = Inl (Client_Failed e) \<longleftrightarrow>
     (\<exists>k < max_attempts. (\<forall>i < k. retried clients from_backend legacy i) \<and> clients k = Inl e)) \<and>
   ((\<exists>msg. snd (connect clients from_backend url legacy) = Inl (Connect_Failed msg)) \<longleftrightarrow>
     (\<forall>i < max_attempts. retried clients from_backend legacy i))"
proof -
  have ok: "\<exists>c. clients j = Inr c \<and> from_backend j (make_backend legacy c) = Inr api \<Longrightarrow>
      \<not> retried clients from_backend legacy j" for j api by (auto simp: retried_iff)
  have bad: "clients j = Inl e \<Longrightarrow> \<not> retried clients from_backend legacy j" for j e by (auto simp: retried_iff)
  show ?thesis
  proof (cases rule: connect_cases [of clients from_backend legacy])
    case exhausted
    then show ?thesis using connect_exhausted [OF exhausted, of url] by (auto simp: retried_iff)
  next
    case (client_failed k e)
    have k: "\<not> retried clients from_backend legacy k" using client_failed(3) by (simp add: retried_iff)
    have eq: "connect clients from_backend url legacy = (k * retry_delay, Inl (Client_Failed e))"
      using connect_first [OF client_failed(1,2)] client_failed(3) by simp
    have api: "(\<exists>j < max_attempts. (\<forall>i < j. retried clients from_backend legacy i) \<and>
        (\<exists>c. clients j = Inr c \<and> from_backend j (make_backend legacy c) = Inr api')) \<longleftrightarrow>
        (\<exists>c. clients k = Inr c \<and> from_backend k (make_backend legacy c) = Inr api')" for api'
      by (rule ex_first [OF client_failed(2) k client_failed(1) ok])
    have err: "(\<exists>j < max_attempts. (\<forall>i < j. retried clients from_backend legacy i) \<and> clients j = Inl e') \<longleftrightarrow>
        clients k = Inl e'" for e'
      by (rule ex_first [OF client_failed(2) k client_failed(1) bad])
    show ?thesis unfolding eq fst_conv snd_conv api err
      using client_failed(1,3) k by auto
  next
    case (connected k c api)
    have k: "\<not> retried clients from_backend legacy k" using connected(3,4) by (simp add: retried_iff)
    have eq: "connect clients from_backend url legacy = (k * retry_delay, Inr api)"
      using connect_first [OF connected(1,2)] connected(3,4) by simp
    have api: "(\<exists>j < max_attempts. (\<forall>i < j. retried clients from_backend legacy i) \<and>
        (\<exists>c. clients j = Inr c \<and> from_backend j (make_backend legacy c) = Inr api')) \<longleftrightarrow>
        (\<exists>c. clients k = Inr c \<and> from_backend k (make_backend legacy c) = Inr api')" for api'
      by (rule ex_first [OF connected(2) k connected(1) ok])
    have err: "(\<exists>j < max_attempts. (\<forall>i < j. retried clients from_backend legacy i) \<and> clients j = Inl e') \<longleftrightarrow>
        clients k = Inl e'" for e'
      by (rule ex_first [OF connected(2) k connected(1) bad])
    show ?thesis unfolding eq fst_conv snd_conv api err
      using connected(1,3,4) k by auto
  qed
qed

text \<open>A node whose backend comes up at the third attempt.\<close>

theorem connect_outcome_witness:
  "snd (connect (\<lambda>i. Inr i :: nat + nat) (\<lambda>i b. if i < 2 then Inl () else Inr b) ''ws://node'' False) =
     Inr (Chain_Head_Backend 21600 2)"
  using connect_outcome [of "\<lambda>i. Inr i :: nat + nat" "\<lambda>i b. if i < 2 then Inl () else Inr b" "''ws://node''" False,
      THEN conjunct2, THEN conjunct1]
  by (auto simp: retried_iff make_backend_def max_attempts_def)

end
