(* ===== verification/Subxt_Sink.thy ===== *)
theory Subxt_Sink
  imports Accounts Nonces Connector
begin

section \<open>The sink of subxt\<close>

text \<open>
  \<open>SubxtTransactionsSink\<close> of \<open>src/subxt_transaction.rs\<close>: its state and constructors, the look-ups of
  accounts, the nonces, the cached count of pending extrinsics, and the two ways to submit. The node and
  subxt are parameters: what a request to them returns is an argument of the operation that makes it.
  \<open>'kp\<close> is the type of key pairs, \<open>'m\<close> that of block monitors.
\<close>

record ('api, 'rpc, 'kp, 'm) subxt_sink =
  api :: 'api
  from_accounts :: "string \<rightharpoonup> 'kp \<times> account_metadata"
  to_accounts :: "string \<rightharpoonup> 'kp \<times> account_metadata"
  nonces :: "string \<rightharpoonup> u128"
  rpc_client :: 'rpc
  current_pending_extrinsics :: "(nat \<times> usize) option"
  block_monitor :: "'m option"

subsection \<open>Constructors\<close>

definition expect_connect :: string where
  "expect_connect = ''should connect to rpc client''"

text \<open>
  The connections that a constructor makes: \<open>net_connect uri legacy\<close> is the result of \<open>connect\<close>,
  \<open>net_from_url\<close> that of subxt's \<open>RpcClient::from_url\<close>, \<open>net_client\<close> that of the web socket \<open>client\<close>, converted.
\<close>

record ('e, 'f, 'api, 'rpc) net =
  net_connect :: "string \<Rightarrow> bool \<Rightarrow> 'e connect_error + 'api"
  net_from_url :: "string \<Rightarrow> 'f + 'rpc"
  net_client :: "string \<Rightarrow> 'e + 'rpc"

definition new_with_uri :: "('e, 'f, 'api, 'rpc) net \<Rightarrow> string \<Rightarrow> ('api, 'rpc, 'kp, 'm) subxt_sink res" where
  "new_with_uri net uri =
     res_bind (expect_ok expect_connect (net_connect net uri False)) (\<lambda>a.
     res_bind (expect_ok expect_connect (net_from_url net uri)) (\<lambda>c.
     Inr \<lparr>api = a, from_accounts = Map.empty, to_accounts = Map.empty, nonces = Map.empty, rpc_client = c,
       current_pending_extrinsics = None, block_monitor = None\<rparr>))"

definition sink_new :: "('e, 'f, 'api, 'rpc) net \<Rightarrow> ('api, 'rpc, 'kp, 'm) subxt_sink res" where
  "sink_new net =
     res_bind (expect_ok expect_connect (net_connect net ''ws://127.0.0.1:9933'' False)) (\<lambda>a.
     res_bind (expect_ok expect_connect (net_from_url net ''ws://127.0.0.1:9933'')) (\<lambda>c.
     Inr \<lparr>api = a, from_accounts = Map.empty, to_accounts = Map.empty, nonces = Map.empty, rpc_client = c,
       current_pending_extrinsics = None, block_monitor = None\<rparr>))"

definition new_with_uri_with_accounts_description ::
    "('e, 'f, 'api, 'rpc) net \<Rightarrow> profile \<Rightarrow> usize \<Rightarrow> string \<Rightarrow> accounts_description \<Rightarrow>
       (account_generate_request \<Rightarrow> 'kp res) \<Rightarrow> 'm option \<Rightarrow> bool \<Rightarrow> ('api, 'rpc, 'kp, 'm) subxt_sink res" where
  "new_with_uri_with_accounts_description net prof available uri description generate_pair monitor legacy =
     res_bind (derive_accounts prof available description sender_seed generate_pair) (\<lambda>senders.
     res_bind (derive_accounts prof available description receiver_seed generate_pair) (\<lambda>receivers.
     res_bind (expect_ok expect_connect (net_connect net uri legacy)) (\<lambda>a.
     res_bind (expect_ok expect_connect (net_client net uri)) (\<lambda>c.
     Inr \<lparr>api = a, from_accounts = senders, to_accounts = receivers, nonces = Map.empty, rpc_client = c,
       current_pending_extrinsics = None, block_monitor = monitor\<rparr>))))"

subsection \<open>Looking accounts up\<close>

text \<open>\<open>account_of\<close> is the method \<open>account_id\<close> of a key pair.\<close>

definition get_from_account_id :: "('kp \<Rightarrow> 'acc) \<Rightarrow> string \<Rightarrow> ('api, 'rpc, 'kp, 'm) subxt_sink \<Rightarrow> 'acc option" where
  "get_from_account_id account_of account s = map_option (\<lambda>a. account_of (fst a)) (from_accounts s account)"

definition get_to_account_id :: "('kp \<Rightarrow> 'acc) \<Rightarrow> string \<Rightarrow> ('api, 'rpc, 'kp, 'm) subxt_sink \<Rightarrow> 'acc option" where
  "get_to_account_id account_of account s = map_option (\<lambda>a. account_of (fst a)) (to_accounts s account)"

definition get_to_account_metadata :: "string \<Rightarrow> ('api, 'rpc, 'kp, 'm) subxt_sink \<Rightarrow> account_metadata option" where
  "get_to_account_metadata account s = map_option snd (to_accounts s account)"

definition get_from_key_pair :: "string \<Rightarrow> ('api, 'rpc, 'kp, 'm) subxt_sink \<Rightarrow> 'kp option" where
  "get_from_key_pair account s = map_option fst (from_accounts s account)"

subsection \<open>The nonce of an account on the chain\<close>

text \<open>
  The query of the storage entry \<open>System.Account\<close>: the answers of the node, and how a fetched value is
  taken apart (\<open>value.at("nonce")\<close> and \<open>as_u128\<close>).
\<close>

record ('e, 'st, 'th, 'v) account_query =
  at_latest :: "'e + 'st"
  fetch :: "'st \<Rightarrow> 'e + 'th option"
  to_value :: "'th \<Rightarrow> 'e + 'v"
  at_nonce :: "'v \<Rightarrow> 'v option"
  as_u128 :: "'v \<Rightarrow> u128 option"

datatype 'e box_error =
    Boxed 'e
  | Boxed_Message string

definition check_account_nonce :: "string \<Rightarrow> ('e, 'st, 'th, 'v) account_query \<Rightarrow> 'e box_error + u128" where
  "check_account_nonce account_hex q =
     (case at_latest q of
        Inl e \<Rightarrow> Inl (Boxed e)
      | Inr storage \<Rightarrow>
          (case fetch q storage of
             Inl e \<Rightarrow> Inl (Boxed e)
           | Inr None \<Rightarrow> Inl (Boxed_Message
               (''Sender account '' @ CHR 0x22 # account_hex @ CHR 0x22 # '' does not exist''))
           | Inr (Some thunk) \<Rightarrow>
               (case to_value q thunk of
                  Inl e \<Rightarrow> Inl (Boxed e)
                | Inr v \<Rightarrow>
                    (case at_nonce q v of
                       None \<Rightarrow> Inl (Boxed_Message ''nonce is not set for the account'')
                     | Some n \<Rightarrow>
                         (case as_u128 q n of
                            None \<Rightarrow> Inl (Boxed_Message ''nonce is not u128'')
                          | Some nonce \<Rightarrow> Inr nonce)))))"

subsection \<open>Handing out nonces\<close>

text \<open>
  The method \<open>check_account_nonce\<close> of the sink reads the map, awaits the node if the account has no nonce
  yet, and then takes the write lock. Many calls run interleaved; a call is suspended between its
  phases. \<open>Nonce_Returned\<close> is a call that has returned.
\<close>

datatype 'e nonce_pc =
    Nonce_Start
  | Nonce_Fetch
  | Nonce_Write u128
  | Nonce_Returned "'e box_error + u128"

definition nonce_begin :: "string \<Rightarrow> (string \<rightharpoonup> u128) \<Rightarrow> 'e nonce_pc" where
  "nonce_begin account_hex ns = (case ns account_hex of Some nonce \<Rightarrow> Nonce_Write nonce | None \<Rightarrow> Nonce_Fetch)"

definition nonce_fetched :: "'e box_error + u128 \<Rightarrow> 'e nonce_pc" where
  "nonce_fetched answer = (case answer of Inl e \<Rightarrow> Nonce_Returned (Inl e) | Inr nonce \<Rightarrow> Nonce_Write nonce)"

definition nonce_end ::
    "profile \<Rightarrow> string \<Rightarrow> u128 \<Rightarrow> (string \<rightharpoonup> u128) \<Rightarrow> ('e nonce_pc \<times> (string \<rightharpoonup> u128)) res" where
  "nonce_end prof account_hex remote_nonce ns =
     res_bind (assign_nonce prof account_hex remote_nonce ns) (\<lambda>(n, ns'). Inr (Nonce_Returned (Inr n), ns'))"

text \<open>The whole call, when no other one runs meanwhile; \<open>answer\<close> is that of the node.\<close>

definition sink_check_account_nonce ::
    "profile \<Rightarrow> string \<Rightarrow> 'e box_error + u128 \<Rightarrow> ('api, 'rpc, 'kp, 'm) subxt_sink \<Rightarrow>
       (('e box_error + u128) \<times> ('api, 'rpc, 'kp, 'm) subxt_sink) res" where
  "sink_check_account_nonce prof account_hex answer s =
     (case (case nonces s account_hex of Some nonce \<Rightarrow> Inr nonce | None \<Rightarrow> answer) of
        Inl e \<Rightarrow> Inr (Inl e, s)
      | Inr remote_nonce \<Rightarrow>
          res_bind (assign_nonce prof account_hex remote_nonce (nonces s))
            (\<lambda>(n, ns). Inr (Inr n, s\<lparr>nonces := ns\<rparr>)))"

text \<open>
  The calls of all builder threads: the account and the phase of each, the shared map, and a history of
  what was returned, in the order of the write lock. \<open>node\<close> are the answers the node may give for an
  account at any time.
\<close>

record 'e nonce_state =
  ns_map :: "string \<rightharpoonup> u128"
  ns_calls :: "(string \<times> 'e nonce_pc) list"
  ns_issued :: "(string \<times> u128) list"

inductive nonce_steps ::
    "profile \<Rightarrow> (string \<Rightarrow> 'e box_error + u128 \<Rightarrow> bool) \<Rightarrow> string list \<Rightarrow> 'e nonce_state \<Rightarrow> bool"
  for prof and node and accounts where
  start: "nonce_steps prof node accounts
    \<lparr>ns_map = Map.empty, ns_calls = map (\<lambda>a. (a, Nonce_Start)) accounts, ns_issued = []\<rparr>"
| begins: "nonce_steps prof node accounts s \<Longrightarrow> i < length (ns_calls s) \<Longrightarrow> ns_calls s ! i = (a, Nonce_Start) \<Longrightarrow>
    nonce_steps prof node accounts (s\<lparr>ns_calls := (ns_calls s)[i := (a, nonce_begin a (ns_map s))]\<rparr>)"
| fetched: "nonce_steps prof node accounts s \<Longrightarrow> i < length (ns_calls s) \<Longrightarrow> ns_calls s ! i = (a, Nonce_Fetch) \<Longrightarrow>
    node a answer \<Longrightarrow>
    nonce_steps prof node accounts (s\<lparr>ns_calls := (ns_calls s)[i := (a, nonce_fetched answer)]\<rparr>)"
| ends: "nonce_steps prof node accounts s \<Longrightarrow> i < length (ns_calls s) \<Longrightarrow> ns_calls s ! i = (a, Nonce_Write r) \<Longrightarrow>
    nonce_end prof a r (ns_map s) = Inr (pc, m) \<Longrightarrow> pc = Nonce_Returned (Inr n) \<Longrightarrow>
    nonce_steps prof node accounts
      (s\<lparr>ns_map := m, ns_calls := (ns_calls s)[i := (a, pc)], ns_issued := ns_issued s @ [(a, n)]\<rparr>)"

subsection \<open>The nonces that concurrent calls return\<close>

lemma nonce_end_assign:
  "nonce_end prof a r m = Inr (Nonce_Returned (Inr n), m') \<longleftrightarrow> assign_nonce prof a r m = Inr (n, m')"
  by (auto simp: nonce_end_def res_bind_eq_Inr)

fun returned_nonce :: "string \<times> 'e nonce_pc \<Rightarrow> (string \<times> u128) option" where
  "returned_nonce (a, Nonce_Returned (Inr n)) = Some (a, n)"
| "returned_nonce (a, _) = None"

definition returned_nonces :: "(string \<times> 'e nonce_pc) list \<Rightarrow> (string \<times> u128) multiset" where
  "returned_nonces calls = mset (filter_map returned_nonce calls)"

lemma length_filter_map_le: "length (filter_map f xs) \<le> length xs"
  by (induction xs) (auto split: option.split)

lemma returned_nonces_update:
  assumes "i < length calls" and "returned_nonce (calls ! i) = None"
  shows "returned_nonces (calls[i := c]) =
    returned_nonces calls + (case returned_nonce c of None \<Rightarrow> {#} | Some x \<Rightarrow> {#x#})"
proof -
  have "calls = take i calls @ calls ! i # drop (Suc i) calls" using assms(1) by (rule id_take_nth_drop)
  then have "returned_nonces calls = returned_nonces (take i calls @ calls ! i # drop (Suc i) calls)" by simp
  also have "\<dots> = returned_nonces (take i calls) + returned_nonces (drop (Suc i) calls)"
    using assms(2) by (simp add: returned_nonces_def)
  finally show ?thesis
    using assms(1) by (simp add: upd_conv_take_nth_drop returned_nonces_def split: option.split)
qed

definition nonce_inv :: "(string \<Rightarrow> 'e box_error + u128 \<Rightarrow> bool) \<Rightarrow> string list \<Rightarrow> 'e nonce_state \<Rightarrow> bool" where
  "nonce_inv node accounts s \<longleftrightarrow>
     nonce_map.consecutive (ns_map s) (ns_issued s) \<and>
     map fst (ns_calls s) = accounts \<and>
     (\<forall>a. issued_to a (ns_issued s) \<noteq> [] \<longrightarrow> node a (Inr (hd (issued_to a (ns_issued s))))) \<and>
     (\<forall>a r. (a, Nonce_Write r) \<in> set (ns_calls s) \<longrightarrow> issued_to a (ns_issued s) \<noteq> [] \<or> node a (Inr r)) \<and>
     mset (ns_issued s) = returned_nonces (ns_calls s)"

lemma map_fst_update:
  "i < length xs \<Longrightarrow> fst (xs ! i) = fst y \<Longrightarrow> map fst (xs[i := y]) = map fst xs"
  by (metis list_update_id map_update nth_map)

lemma nonce_inv_call:
  assumes "nonce_inv node accounts s" and "i < length (ns_calls s)" and "ns_calls s ! i = (a, pc)"
    and "returned_nonce (a, pc) = None" and "returned_nonce (a, pc') = None"
    and "\<And>r. pc' = Nonce_Write r \<Longrightarrow> issued_to a (ns_issued s) \<noteq> [] \<or> node a (Inr r)"
  shows "nonce_inv node accounts (s\<lparr>ns_calls := (ns_calls s)[i := (a, pc')]\<rparr>)"
proof -
  have "map fst ((ns_calls s)[i := (a, pc')]) = accounts"
    using map_fst_update [OF assms(2), of "(a, pc')"] assms(1,3) by (simp add: nonce_inv_def)
  moreover have "returned_nonces ((ns_calls s)[i := (a, pc')]) = returned_nonces (ns_calls s)"
    using returned_nonces_update [OF assms(2)] assms(3-5) by simp
  moreover have "issued_to b (ns_issued s) \<noteq> [] \<or> node b (Inr r)"
    if "(b, Nonce_Write r) \<in> set ((ns_calls s)[i := (a, pc')])" for b r
    using set_update_subset_insert [of "ns_calls s" i "(a, pc')"] that assms(1,6) by (auto simp: nonce_inv_def)
  ultimately show ?thesis using assms(1) by (simp add: nonce_inv_def)
qed

lemma nonce_inv_end:
  assumes inv: "nonce_inv node accounts s" and i: "i < length (ns_calls s)" "ns_calls s ! i = (a, Nonce_Write r)"
    and assign: "assign_nonce prof a r (ns_map s) = Inr (n, m)"
  shows "nonce_inv node accounts (s\<lparr>ns_map := m, ns_calls := (ns_calls s)[i := (a, Nonce_Returned (Inr n))],
    ns_issued := ns_issued s @ [(a, n)]\<rparr>)"
proof -
  have cons: "nonce_map.consecutive (ns_map s) (ns_issued s)" using inv by (simp add: nonce_inv_def)
  let ?calls = "(ns_calls s)[i := (a, Nonce_Returned (Inr n))]"
  have "map fst ?calls = accounts"
    using map_fst_update [OF i(1), of "(a, Nonce_Returned (Inr n))"] inv i(2) by (simp add: nonce_inv_def)
  moreover have "returned_nonces ?calls = add_mset (a, n) (returned_nonces (ns_calls s))"
    using returned_nonces_update [OF i(1)] i(2) by simp
  moreover have "node b (Inr (hd (issued_to b (ns_issued s @ [(a, n)]))))"
    if "issued_to b (ns_issued s @ [(a, n)]) \<noteq> []" for b
  proof (cases "issued_to b (ns_issued s) = []")
    case True
    then have "b = a" using that by (simp split: if_splits)
    moreover from this have "n = r" using nonce_map.consecutive_first [OF cons assign] True by simp
    moreover have "node a (Inr r)"
      using inv True \<open>b = a\<close> i nth_mem [OF i(1)] by (auto simp: nonce_inv_def)
    ultimately show ?thesis using True by simp
  next
    case False
    then show ?thesis using inv by (simp add: nonce_inv_def)
  qed
  moreover have "issued_to b (ns_issued s @ [(a, n)]) \<noteq> [] \<or> node b (Inr r')"
    if "(b, Nonce_Write r') \<in> set ?calls" for b r'
    using set_update_subset_insert [of "ns_calls s" i "(a, Nonce_Returned (Inr n))"] that inv
    by (auto simp: nonce_inv_def)
  ultimately show ?thesis
    using inv nonce_map.consecutive_assign [OF cons assign] by (simp add: nonce_inv_def)
qed

lemma nonce_inv_steps:
  assumes "nonce_steps prof node accounts s"
  shows "nonce_inv node accounts s"
  using assms
proof induction
  case start
  have "returned_nonces (map (\<lambda>a. (a, Nonce_Start :: 'e nonce_pc)) accounts) = {#}" for accounts
    by (induction accounts) (auto simp: returned_nonces_def)
  then show ?case by (auto simp: nonce_inv_def nonce_map.consecutive_start comp_def)
next
  case (begins s i a)
  show ?case
  proof (rule nonce_inv_call [OF begins.IH begins.hyps(2,3)])
    fix r assume "nonce_begin a (ns_map s) = (Nonce_Write r :: 'e nonce_pc)"
    then have "ns_map s a \<noteq> None" by (auto simp: nonce_begin_def split: option.splits)
    then show "issued_to a (ns_issued s) \<noteq> [] \<or> node a (Inr r)"
      using begins.IH by (auto simp: nonce_inv_def nonce_map.consecutive_def split: if_splits)
  qed (auto simp: nonce_begin_def split: option.splits)
next
  case (fetched s i a answer)
  show ?case
    by (rule nonce_inv_call [OF fetched.IH fetched.hyps(2,3)])
      (use fetched.hyps(4) in \<open>auto simp: nonce_fetched_def split: sum.splits\<close>)
next
  case (ends s i a r pc m n)
  then show ?case by (auto simp: nonce_end_assign intro: nonce_inv_end)
qed

text \<open>
  C8: concurrent calls of \<open>check_account_nonce\<close> never return a nonce twice for an account, and leave no gap:
  however the reads, the answers of the node and the writes of all calls interleave, the nonces returned
  for an account are an answer of the node for it and its successors, one for each call that returned.
\<close>

theorem nonce_calls_consecutive:
  assumes "nonce_steps prof node accounts s" and "length accounts \<le> 2 ^ 128"
  shows "mset (ns_issued s) = returned_nonces (ns_calls s) \<and>
    issued_to a (ns_issued s) =
      map (\<lambda>i. hd (issued_to a (ns_issued s)) + of_nat i) [0..<length (issued_to a (ns_issued s))] \<and>
    distinct (issued_to a (ns_issued s)) \<and>
    (issued_to a (ns_issued s) \<noteq> [] \<longrightarrow> node a (Inr (hd (issued_to a (ns_issued s)))))"
proof -
  have inv: "nonce_inv node accounts s" by (rule nonce_inv_steps [OF assms(1)])
  have eq: "issued_to a (ns_issued s) =
      map (\<lambda>i. hd (issued_to a (ns_issued s)) + of_nat i) [0..<length (issued_to a (ns_issued s))]"
    by (rule nonce_map.consecutive_eq [of "ns_map s"]) (use inv in \<open>simp add: nonce_inv_def\<close>)
  have "length (issued_to a (ns_issued s)) \<le> length (ns_issued s)" by (simp add: issued_to_def)
  also have "\<dots> = size (returned_nonces (ns_calls s))" using inv by (metis nonce_inv_def size_mset)
  also have "\<dots> \<le> length (ns_calls s)"
    by (simp add: returned_nonces_def length_filter_map_le)
  also have "\<dots> = length accounts" using inv by (metis length_map nonce_inv_def)
  finally have "distinct (issued_to a (ns_issued s))"
    using distinct_nonces [OF eq] assms(2) by simp
  then show ?thesis using inv eq by (simp add: nonce_inv_def)
qed

text \<open>
  Two builder threads ask for the nonce of one account; both are told 7 by the node before either of them
  takes the write lock.
\<close>

definition example_node :: "string \<Rightarrow> string box_error + u128 \<Rightarrow> bool" where
  "example_node account answer \<longleftrightarrow> answer = Inr 7"

definition example_issued :: "string nonce_state" where
  "example_issued = \<lparr>ns_map = [''6a'' \<mapsto> 8],
     ns_calls = [(''6a'', Nonce_Returned (Inr 8)), (''6a'', Nonce_Returned (Inr 7))],
     ns_issued = [(''6a'', 7), (''6a'', 8)]\<rparr>"

lemma example_nonce_steps: "nonce_steps Debug example_node [''6a'', ''6a''] example_issued"
proof -
  let ?st = "\<lambda>p q m is. \<lparr>ns_map = m, ns_calls = [(''6a'', p), (''6a'', q)], ns_issued = is\<rparr> :: string nonce_state"
  let ?steps = "nonce_steps Debug example_node [''6a'', ''6a'']"
  have "?steps (?st Nonce_Start Nonce_Start Map.empty [])"
    using nonce_steps.start [of Debug example_node "[''6a'', ''6a'']"] by simp
  from begins [OF this, of 0 "''6a''"] have "?steps (?st Nonce_Fetch Nonce_Start Map.empty [])"
    by (simp add: nonce_begin_def)
  from begins [OF this, of 1 "''6a''"] have "?steps (?st Nonce_Fetch Nonce_Fetch Map.empty [])"
    by (simp add: nonce_begin_def)
  from fetched [OF this, of 0 "''6a''" "Inr 7"] have "?steps (?st (Nonce_Write 7) Nonce_Fetch Map.empty [])"
    by (simp add: nonce_fetched_def example_node_def)
  from fetched [OF this, of 1 "''6a''" "Inr 7"] have "?steps (?st (Nonce_Write 7) (Nonce_Write 7) Map.empty [])"
    by (simp add: nonce_fetched_def example_node_def)
  from ends [OF this, of 1 "''6a''" 7 _ _ 7]
  have "?steps (?st (Nonce_Write 7) (Nonce_Returned (Inr 7)) [''6a'' \<mapsto> 7] [(''6a'', 7)])"
    by (simp add: nonce_end_def assign_nonce_def)
  from ends [OF this, of 0 "''6a''" 7 _ _ 8] show ?thesis
    by (simp add: nonce_end_def assign_nonce_def u_add_def example_issued_def)
qed

theorem nonce_calls_consecutive_witness:
  "issued_to ''6a'' (ns_issued example_issued) = [7, 8] \<and> distinct (issued_to ''6a'' (ns_issued example_issued)) \<and>
   example_node ''6a'' (Inr (hd (issued_to ''6a'' (ns_issued example_issued))))"
  using nonce_calls_consecutive [OF example_nonce_steps, of "''6a''"] by (simp add: example_issued_def)

subsection \<open>The count of pending extrinsics\<close>

text \<open>
  \<open>update_count\<close> at the time \<open>now\<close>, with the number of extrinsics in the answer of the node; and
  \<open>pending_extrinsics\<close>, which asks the node again when the cached count is older than a second. \<open>checked\<close>
  is the time of the call of \<open>elapsed\<close>, in nanoseconds.
\<close>

definition update_count ::
    "nat \<Rightarrow> 'e + nat \<Rightarrow> ('api, 'rpc, 'kp, 'm) subxt_sink \<Rightarrow> ('api, 'rpc, 'kp, 'm) subxt_sink res" where
  "update_count now answer s =
     res_bind (expect_ok ''author_pendingExtrinsics should not fail'' answer)
       (\<lambda>xts_len. Inr (s\<lparr>current_pending_extrinsics := Some (now, of_nat xts_len)\<rparr>))"

definition pending_extrinsics ::
    "nat \<Rightarrow> nat \<Rightarrow> 'e + nat \<Rightarrow> ('api, 'rpc, 'kp, 'm) subxt_sink \<Rightarrow>
       (usize \<times> ('api, 'rpc, 'kp, 'm) subxt_sink) res" where
  "pending_extrinsics checked now answer s =
     res_bind (case current_pending_extrinsics s of
         Some (ts, _) \<Rightarrow> if checked - ts > 1000 * 1000000 then update_count now answer s else Inr s
       | None \<Rightarrow> update_count now answer s) (\<lambda>s'.
     res_bind (opt_expect ''current_pending_extrinsics cannot be None'' (current_pending_extrinsics s'))
       (\<lambda>(_, n). Inr (n, s')))"

text \<open>
  \<open>pending_extrinsics\<close> reports what the node said at most one second before the call (up to the time
  that the call itself waits for the node), and panics only if it asks the node and the request fails;
  in particular the last \<open>expect\<close> never fails.
\<close>

theorem pending_extrinsics_fresh:
  "(case pending_extrinsics checked now answer s of
      Inr (n, s') \<Rightarrow> \<exists>ts. current_pending_extrinsics s' = Some (ts, n) \<and>
        (current_pending_extrinsics s = Some (ts, n) \<and> checked - ts \<le> 1000000000 \<and> s' = s \<or>
         ts = now \<and> (\<exists>k. answer = Inr k \<and> n = of_nat k) \<and> s' = s\<lparr>current_pending_extrinsics := Some (ts, n)\<rparr>)
    | Inl p \<Rightarrow> (\<exists>e. answer = Inl e) \<and> p = Expect_Failed ''author_pendingExtrinsics should not fail'' \<and>
        (\<forall>ts n. current_pending_extrinsics s = Some (ts, n) \<longrightarrow> checked - ts > 1000000000))"
  by (cases "current_pending_extrinsics s"; cases answer)
    (auto simp: pending_extrinsics_def update_count_def expect_ok_def)

definition example_sink :: "(unit, unit, string, unit) subxt_sink" where
  "example_sink = \<lparr>api = (), from_accounts = Map.empty, to_accounts = Map.empty, nonces = Map.empty, rpc_client = (),
     current_pending_extrinsics = Some (2000000000, 5), block_monitor = None\<rparr>"

theorem pending_extrinsics_fresh_witness:
  "(\<exists>s'. pending_extrinsics 2500000000 2600000000 (Inl ()) example_sink = Inr (5, s')) \<and>
   pending_extrinsics 3500000000 3600000000 (Inl ()) example_sink =
     Inl (Expect_Failed ''author_pendingExtrinsics should not fail'')"
proof -
  have c: "current_pending_extrinsics example_sink = Some (2000000000, 5)" by (simp add: example_sink_def)
  have "\<exists>s'. pending_extrinsics 2500000000 2600000000 (Inl ()) example_sink = Inr (5, s')"
    using pending_extrinsics_fresh [where checked = 2500000000 and now = 2600000000 and answer = "Inl () :: unit + nat" and s = example_sink] c
    by (auto split: sum.splits)
  moreover have "pending_extrinsics 3500000000 3600000000 (Inl ()) example_sink =
      Inl (Expect_Failed ''author_pendingExtrinsics should not fail'')"
    using pending_extrinsics_fresh [where checked = 3500000000 and now = 3600000000 and answer = "Inl () :: unit + nat" and s = example_sink] c
    by (auto split: sum.splits)
  ultimately show ?thesis ..
qed

subsection \<open>Submitting\<close>

text \<open>
  The answers of subxt to a submission, mapped into the errors and statuses of the tool. An error among the
  items of the stream is unwrapped when it is taken. The \<open>downcast_ref\<close> cannot fail: every transaction of
  a runner of this sink has the type of the sink's transactions.
\<close>

definition stream_item :: "('b \<Rightarrow> 'h) \<Rightarrow> 'e + 'b subxt_tx_status \<Rightarrow> 'h transaction_status res" where
  "stream_item block_hash e = (case e of Inl _ \<Rightarrow> Inl Unwrap_Failed | Inr s \<Rightarrow> Inr (status_from_subxt block_hash s))"

definition sink_submit_and_watch ::
    "('b \<Rightarrow> 'h) \<Rightarrow> 'e + ('e + 'b subxt_tx_status) list \<Rightarrow> 'e error + 'h transaction_status res list" where
  "sink_submit_and_watch block_hash result =
     (case result of
        Inr stream \<Rightarrow> Inr (map (stream_item block_hash) stream)
      | Inl e \<Rightarrow> Inl (Subxt e))"

definition sink_submit :: "'e + 'h \<Rightarrow> 'e error + 'h" where
  "sink_submit result = (case result of Inl e \<Rightarrow> Inl (Subxt e) | Inr h \<Rightarrow> Inr h)"

definition sink_transaction_monitor :: "('api, 'rpc, 'kp, 'm) subxt_sink \<Rightarrow> 'm option" where
  "sink_transaction_monitor s = block_monitor s"

end
