(* ===== verification/Log_Stats.thy ===== *)
theory Log_Stats
  imports Execution_Log
begin

section \<open>Statistics over the logs\<close>

text \<open>
  The model of \<open>single_stat\<close>, \<open>failure_reason_stats\<close> and \<open>make_stats\<close> of \<open>src/execution_log.rs\<close>. What the
  functions print is their result here. The estimators of the crate \<open>average\<close> and the conversion of a
  duration to a float are parameters, the record \<open>estimators\<close>; the histogram drawn by \<open>termplot\<close> when
  graphs are asked for is not modelled.
\<close>

record 'f estimators =
  as_secs_f64 :: "duration \<Rightarrow> 'f"
  est_len :: "'f list \<Rightarrow> nat"
  est_min :: "'f list \<Rightarrow> 'f"
  est_max :: "'f list \<Rightarrow> 'f"
  est_mean :: "'f list \<Rightarrow> 'f"
  est_q90 :: "'f list \<Rightarrow> 'f"

record 'f stat_line =
  stat_name :: string
  stat_count :: nat
  stat_min :: 'f
  stat_max :: 'f
  stat_mean :: 'f
  stat_q90 :: 'f

fun stat_samples ::
    "'f estimators \<Rightarrow> ('l \<Rightarrow> duration option res) \<Rightarrow> 'l list \<Rightarrow> 'f list res" where
  "stat_samples est meth [] = Inr []"
| "stat_samples est meth (l # ls) =
     res_bind (meth l) (\<lambda>time_to_event.
     res_bind (stat_samples est meth ls) (\<lambda>v.
       Inr (case time_to_event of Some d \<Rightarrow> as_secs_f64 est d # v | None \<Rightarrow> v)))"

definition single_stat ::
    "'f estimators \<Rightarrow> string \<Rightarrow> 'l list \<Rightarrow> ('l \<Rightarrow> duration option res) \<Rightarrow> 'f stat_line res" where
  "single_stat est name logs meth =
     res_bind (stat_samples est meth logs) (\<lambda>v.
       Inr \<lparr>stat_name = name, stat_count = est_len est v, stat_min = est_min est v,
            stat_max = est_max est v, stat_mean = est_mean est v, stat_q90 = est_q90 est v\<rparr>)"

definition failure_reason_stats ::
    "string \<Rightarrow> 'l list \<Rightarrow> ('l \<Rightarrow> string list) \<Rightarrow> string \<times> (string \<rightharpoonup> nat)" where
  "failure_reason_stats name logs meth =
     (name, fold (\<lambda>l m. fold bump (meth l) m) logs Map.empty)"

record 'f stats_report =
  total_recorded_count :: nat
  stat_lines :: "'f stat_line list"
  failure_lines :: "(string \<times> (string \<rightharpoonup> nat)) list"
  timeline_map :: "string \<rightharpoonup> nat"

definition stat_methods :: "(string \<times> ('h execution_log \<Rightarrow> duration option res)) list" where
  "stat_methods =
     [(''Time to dropped'', time_to_dropped), (''Time to error'', time_to_error),
      (''Time to invalid'', time_to_invalid), (''Time to result'', time_to_result),
      (''Time to validated'', time_to_validated), (''Time to broadcasted'', time_to_broadcasted),
      (''Time to in_block'', time_to_inblock), (''Time to finalization'', time_to_finalized),
      (''Time to finalization (monitor)'', time_to_finalized_monitor),
      (''Time to dropped (monitor)'', time_to_mortal_dropped_monitor)]"

definition failure_methods :: "(string \<times> ('h execution_log \<Rightarrow> string list)) list" where
  "failure_methods =
     [(''Dropped'', get_dropped_reason), (''Error'', get_error_reason), (''Invalid'', get_invalid_reason),
      (''submit errors'', get_submit_result_error),
      (''submit_and_watch errors'', get_submit_and_watch_result_error)]"

definition sent_logs :: "'h execution_log list \<Rightarrow> 'h execution_log list" where
  "sent_logs logs = sort_key (\<lambda>e. the (get_sent_time e)) (filter (\<lambda>e. get_sent_time e \<noteq> None) logs)"

definition make_stats :: "'f estimators \<Rightarrow> 'h execution_log list \<Rightarrow> 'f stats_report res" where
  "make_stats est logs =
     res_bind (res_mapM (\<lambda>(name, meth). single_stat est name logs meth) stat_methods) (\<lambda>lines.
       Inr \<lparr>total_recorded_count = length logs, stat_lines = lines,
            failure_lines = map (\<lambda>(name, meth). failure_reason_stats name logs meth) failure_methods,
            timeline_map = fold (\<lambda>e m. bump (get_inpool_events_string e) m) (sent_logs logs) Map.empty\<rparr>)"

subsection \<open>The counts are right\<close>

lemma fold_fold_bump: "fold (\<lambda>l m. fold bump (f l) m) ls m = fold bump (concat (map f ls)) m"
  by (induction ls arbitrary: m) auto

lemma fold_bump_count:
  "fold bump ks Map.empty k = (if k \<in> set ks then Some (count_list ks k) else None)"
  by (simp add: fold_bump)

lemma fold_bump_length:
  "fold bump ks Map.empty k = (let n = count_list ks k in if n = 0 then None else Some n)"
  by (simp add: fold_bump_count Let_def count_list_0_iff)

text \<open>
  \<open>failure_reason_stats\<close> is the histogram of the failure reasons: a reason that occurs in the logs
  maps to the number of times it occurs in all of them, and no other reason is in the map.
\<close>

lemma failure_reason_stats_histogram:
  "snd (failure_reason_stats name logs meth) reason =
     (if reason \<in> (\<Union>l \<in> set logs. set (meth l))
      then Some (\<Sum>l \<leftarrow> logs. count_list (meth l) reason) else None)"
proof -
  have "count_list (concat xss) y = (\<Sum>xs \<leftarrow> xss. count_list xs y)" for xss :: "string list list" and y
    by (induction xss) (auto simp: count_list_append)
  then show ?thesis
    by (simp add: failure_reason_stats_def fold_fold_bump fold_bump_count comp_def)
qed

lemma stat_samples_total:
  assumes "\<And>l. l \<in> set logs \<Longrightarrow> \<exists>d. meth l = Inr d"
  shows "stat_samples est meth logs =
    Inr (filter_map (\<lambda>l. case meth l of Inr (Some d) \<Rightarrow> Some (as_secs_f64 est d) | _ \<Rightarrow> None) logs)"
  using assms
proof (induction logs)
  case (Cons l ls)
  obtain d where "meth l = Inr d" using Cons.prems by auto
  then show ?case using Cons by (cases d) auto
qed simp

lemma stat_methods_are_getters: "(name, meth) \<in> set stat_methods \<Longrightarrow> meth \<in> set duration_getters"
  by (auto simp: stat_methods_def duration_getters_def)

definition well_timed :: "'h execution_log \<Rightarrow> bool" where
  "well_timed l \<longleftrightarrow> log_events l = [] \<or>
     (\<exists>p s es. log_events l = Popped p # Sent s # es \<and> sorted (map event_time (log_events l)))
     \<or> (\<exists>p. log_events l = [Popped p])"

lemma duration_getters_well_timed:
  assumes "well_timed l" and "g \<in> set duration_getters"
  shows "\<exists>d. g l = Inr d"
proof -
  obtain f where g: "g = timed f" and none: "\<And>i. f (Popped i) = None" "\<And>i. f (Sent i) = None"
    and time: "\<And>e i. f e = Some i \<Longrightarrow> event_time e = i"
    using duration_getters_timed [OF assms(2)] by metis
  consider "log_events l = []" | p where "log_events l = [Popped p]"
    | p s es where "log_events l = Popped p # Sent s # es" "sorted (map event_time (log_events l))"
    using assms(1) by (auto simp: well_timed_def)
  then show ?thesis
  proof cases
    case 3
    have sent: "get_sent_time_stamp l = Some s" by (simp add: get_sent_time_stamp_def 3(1))
    have found: "find_map f (log_events l) = find_map f es" by (simp add: 3(1) none)
    have "sorted (map event_time (Sent s # es))" using 3 by simp
    from find_map_sorted_bound [OF this _ time]
    show ?thesis
      by (cases "find_map f es")
        (auto simp: g timed_def sent found duration_since_timestamp_def duration_since_def)
  qed (simp_all add: g timed_def get_sent_time_stamp_def duration_since_timestamp_def none)
qed

lemma timeline_fold: "fold (\<lambda>e m. bump (f e) m) es m = fold bump (map f es) m"
  by (induction es arbitrary: m) auto

lemma count_list_map_filter: "count_list (map f xs) y = length (filter (\<lambda>x. f x = y) xs)"
  by (induction xs) auto

lemma mset_sent_logs: "mset (sent_logs logs) = mset (filter (\<lambda>e. get_sent_time e \<noteq> None) logs)"
  by (simp add: sent_logs_def)

text \<open>
  C38: \<open>make_stats\<close> on the logs of an execution with a clock that does not step back completes, reports
  every log, and its timeline maps each in-pool event string to the number of sent transactions with
  that string. Transactions that were never sent are not in the timeline.
\<close>

theorem make_stats_report:
  assumes "\<forall>l \<in> set logs. well_timed l"
  shows "\<exists>r. make_stats est logs = Inr r \<and> total_recorded_count r = length logs \<and>
    (\<forall>s. timeline_map r s =
      (let n = length (filter (\<lambda>l. get_sent_time l \<noteq> None \<and> get_inpool_events_string l = s) logs)
       in if n = 0 then None else Some n))"
proof -
  have "\<exists>line. single_stat est name logs meth = Inr line" if "(name, meth) \<in> set stat_methods" for name meth
  proof -
    have "\<exists>d. meth l = Inr d" if "l \<in> set logs" for l
      using assms that \<open>(name, meth) \<in> set stat_methods\<close>
      by (blast intro: duration_getters_well_timed stat_methods_are_getters)
    then show ?thesis by (simp add: single_stat_def stat_samples_total)
  qed
  then have "\<exists>g. \<forall>nm \<in> set (stat_methods :: (string \<times> ('a execution_log \<Rightarrow> duration option res)) list).
      (case nm of (name, meth) \<Rightarrow> single_stat est name logs meth) = Inr (g nm)"
    by (intro bchoice) auto
  then obtain lines where lines:
    "res_mapM (\<lambda>(name, meth). single_stat est name logs meth) stat_methods = Inr lines"
    by (metis res_mapM_total)
  have count: "count_list (map get_inpool_events_string (sent_logs logs)) s =
      length (filter (\<lambda>l. get_sent_time l \<noteq> None \<and> get_inpool_events_string l = s) logs)" for s
  proof -
    have "length (filter (\<lambda>l. get_inpool_events_string l = s) (sent_logs logs)) =
        size (filter_mset (\<lambda>l. get_inpool_events_string l = s) (mset (sent_logs logs)))"
      by (metis mset_filter size_mset)
    also have "\<dots> = length (filter (\<lambda>l. get_sent_time l \<noteq> None \<and> get_inpool_events_string l = s) logs)"
      by (simp add: mset_sent_logs filter_filter_mset flip: mset_filter)
    finally show ?thesis by (simp add: count_list_map_filter)
  qed
  have timeline: "fold (\<lambda>e m. bump (get_inpool_events_string e) m) (sent_logs logs) Map.empty s =
      (let n = length (filter (\<lambda>l. get_sent_time l \<noteq> None \<and> get_inpool_events_string l = s) logs)
       in if n = 0 then None else Some n)" for s
    by (rule trans [OF fun_cong [OF timeline_fold]]) (simp only: fold_bump_length count)
  show ?thesis by (simp add: make_stats_def lines timeline)
qed

subsection \<open>The order of the logs\<close>

text \<open>
  The logs are the values of a hash map, so their order is an accident. What does not depend on it: the
  numbers of logs and samples, the failure reasons and the timeline. The estimators see the same samples in
  another order.
\<close>

definition stat_line_of :: "'f estimators \<Rightarrow> string \<Rightarrow> 'f list \<Rightarrow> 'f stat_line" where
  "stat_line_of est name v = \<lparr>stat_name = name, stat_count = est_len est v, stat_min = est_min est v,
     stat_max = est_max est v, stat_mean = est_mean est v, stat_q90 = est_q90 est v\<rparr>"

definition same_samples :: "'f estimators \<Rightarrow> 'f stat_line \<Rightarrow> 'f stat_line \<Rightarrow> bool" where
  "same_samples est l l' \<longleftrightarrow>
     (\<exists>name v v'. mset v' = mset v \<and> l = stat_line_of est name v \<and> l' = stat_line_of est name v')"

lemma same_samples_extremes:
  assumes "same_samples est l l'"
    and "\<forall>v v'. mset v = mset v' \<longrightarrow>
      est_len est v = est_len est v' \<and> est_min est v = est_min est v' \<and> est_max est v = est_max est v'"
  shows "stat_name l' = stat_name l \<and> stat_count l' = stat_count l \<and> stat_min l' = stat_min l \<and> stat_max l' = stat_max l"
proof -
  obtain name v v' where v: "mset v' = mset v" and l: "l = stat_line_of est name v" "l' = stat_line_of est name v'"
    using assms(1) by (auto simp: same_samples_def)
  from assms(2) v have "est_len est v' = est_len est v \<and> est_min est v' = est_min est v \<and> est_max est v' = est_max est v"
    by blast
  then show ?thesis by (simp add: l stat_line_of_def)
qed

lemma mset_filter_map: "mset xs = mset ys \<Longrightarrow> mset (filter_map f xs) = mset (filter_map f ys)"
  by (simp add: List.map_filter_def)

lemma stat_samples_ok:
  "stat_samples est meth logs = Inr v \<Longrightarrow> l \<in> set logs \<Longrightarrow> \<exists>d. meth l = Inr d"
  by (induction logs arbitrary: v) (auto simp: res_bind_eq_Inr)

lemma single_stat_reordered:
  assumes "single_stat est name logs meth = Inr line" and "mset logs' = mset logs"
  shows "\<exists>line'. single_stat est name logs' meth = Inr line' \<and> same_samples est line line'"
proof -
  let ?f = "\<lambda>l. case meth l of Inr (Some d) \<Rightarrow> Some (as_secs_f64 est d) | _ \<Rightarrow> None"
  have ok: "\<exists>d. meth l = Inr d" if "l \<in> set logs" for l
    using assms(1) that stat_samples_ok by (auto simp: single_stat_def res_bind_eq_Inr)
  then have ok': "\<exists>d. meth l = Inr d" if "l \<in> set logs'" for l
    using that mset_eq_setD [OF assms(2)] by blast
  have "mset (filter_map ?f logs') = mset (filter_map ?f logs)" using assms(2) by (rule mset_filter_map)
  then have "same_samples est (stat_line_of est name (filter_map ?f logs)) (stat_line_of est name (filter_map ?f logs'))"
    unfolding same_samples_def by blast
  then show ?thesis
    using assms(1) by (simp add: single_stat_def stat_samples_total ok ok' stat_line_of_def)
qed

lemma stat_lines_reordered:
  assumes "res_mapM (\<lambda>(name, meth). single_stat est name logs meth) methods = Inr lines" and "mset logs' = mset logs"
  shows "\<exists>lines'. res_mapM (\<lambda>(name, meth). single_stat est name logs' meth) methods = Inr lines' \<and>
    list_all2 (same_samples est) lines lines'"
  using assms(1)
proof (induction methods arbitrary: lines)
  case (Cons nm methods)
  obtain name meth where nm: "nm = (name, meth)" by fastforce
  obtain line lines0 where line: "single_stat est name logs meth = Inr line" and lines: "lines = line # lines0"
    and rest: "res_mapM (\<lambda>(name, meth). single_stat est name logs meth) methods = Inr lines0"
    using Cons.prems by (auto simp: nm res_bind_eq_Inr)
  from single_stat_reordered [OF line assms(2)] Cons.IH [OF rest] show ?case by (auto simp: nm lines)
qed simp

lemma fold_bump_mset: "mset ks = mset ks' \<Longrightarrow> fold bump ks Map.empty = fold bump ks' Map.empty"
  by (rule ext) (auto simp: fold_bump_count count_mset [symmetric] dest: mset_eq_setD)

lemma mset_concat_map: "mset xs = mset ys \<Longrightarrow> mset (concat (map f xs)) = mset (concat (map f ys))"
  by (simp add: mset_concat comp_def flip: sum_mset_sum_list)

lemma make_stats_reordered:
  assumes "make_stats est logs = Inr r" and "mset logs' = mset logs"
  shows "\<exists>r'. make_stats est logs' = Inr r' \<and> total_recorded_count r' = total_recorded_count r \<and>
    failure_lines r' = failure_lines r \<and> timeline_map r' = timeline_map r \<and>
    list_all2 (same_samples est) (stat_lines r) (stat_lines r')"
proof -
  obtain lines where lines: "res_mapM (\<lambda>(name, meth). single_stat est name logs meth) stat_methods = Inr lines"
    using assms(1) by (auto simp: make_stats_def res_bind_eq_Inr)
  from stat_lines_reordered [OF lines assms(2)] obtain lines'
    where lines': "res_mapM (\<lambda>(name, meth). single_stat est name logs' meth) stat_methods = Inr lines'"
      and same: "list_all2 (same_samples est) lines lines'" by blast
  have "failure_reason_stats name logs' meth = failure_reason_stats name logs meth" for name and meth :: "'b execution_log \<Rightarrow> string list"
    using fold_bump_mset [OF mset_concat_map [OF assms(2)]] by (simp add: failure_reason_stats_def fold_fold_bump)
  moreover have "mset (map get_inpool_events_string (sent_logs logs')) = mset (map get_inpool_events_string (sent_logs logs))"
    using assms(2) by (simp add: mset_sent_logs)
  then have "fold (\<lambda>e m. bump (get_inpool_events_string e) m) (sent_logs logs') Map.empty =
      fold (\<lambda>e m. bump (get_inpool_events_string e) m) (sent_logs logs) Map.empty"
    by (rule trans [OF timeline_fold trans [OF fold_bump_mset timeline_fold [symmetric]]])
  moreover have "length logs' = length logs" using assms(2) by (rule mset_eq_length)
  ultimately show ?thesis using assms(1) lines lines' same by (auto simp: make_stats_def)
qed

definition example_sent_log :: "nat \<Rightarrow> nat \<Rightarrow> nat execution_log" where
  "example_sent_log h t = \<lparr>log_events =
     [Popped (System_Time t), Sent (System_Time (t + 1)), SubmitAndWatchResult (System_Time (t + 2)) (Inr ()),
      TxPoolEvent (System_Time (t + 3)) Validated, TxPoolEvent (System_Time (t + 4)) (InBlock 1),
      TxPoolEvent (System_Time (t + 5)) (Finalized 1)],
     log_account_metadata = No_Account, log_nonce = 0, log_hash = h\<rparr>"

definition example_unsent_log :: "nat execution_log" where
  "example_unsent_log = \<lparr>log_events = [], log_account_metadata = No_Account, log_nonce = 0, log_hash = 9\<rparr>"

theorem make_stats_report_witness:
  "\<exists>r. make_stats \<lparr>as_secs_f64 = id, est_len = length, est_min = Min \<circ> set, est_max = Max \<circ> set,
        est_mean = (\<lambda>v. sum_list v div length v), est_q90 = last\<rparr>
      [example_sent_log 0 10, example_unsent_log, example_sent_log 1 7] = Inr r \<and>
    timeline_map r ''VBF'' = Some 2 \<and> timeline_map r ''VbD'' = None"
proof -
  let ?est = "\<lparr>as_secs_f64 = id, est_len = length, est_min = Min \<circ> set, est_max = Max \<circ> set,
        est_mean = (\<lambda>v. sum_list v div length v), est_q90 = last\<rparr> :: nat estimators"
  let ?logs = "[example_sent_log 0 10, example_unsent_log, example_sent_log 1 7]"
  have "\<forall>l \<in> set ?logs. well_timed l"
    by (simp add: well_timed_def example_sent_log_def example_unsent_log_def)
  from make_stats_report [OF this, of ?est] obtain r where "make_stats ?est ?logs = Inr r"
    and "\<forall>s. timeline_map r s =
      (let n = length (filter (\<lambda>l. get_sent_time l \<noteq> None \<and> get_inpool_events_string l = s) ?logs)
       in if n = 0 then None else Some n)"
    by blast
  then show ?thesis
    by (simp add: example_sent_log_def example_unsent_log_def get_sent_time_def get_sent_time_stamp_def
        get_inpool_events_string_def)
qed

end
