(* ===== verification/Journal.thy ===== *)
theory Journal
  imports Runner Log_Stats
begin

section \<open>Log files\<close>

text \<open>
  The module \<open>journal\<close> of \<open>src/execution_log.rs\<close>: what is kept of a log in a file, saving and loading the
  logs of a run, and their conversion to CSV; and the end of \<open>run\<close> in \<open>src/runner.rs\<close>, which saves the logs
  and prints their statistics. The JSON text of the kept data is the business of \<open>serde_json\<close>, a parameter.
\<close>

subsection \<open>What is kept of a log\<close>

record 'h serde_log =
  serde_events :: "'h execution_event list"
  serde_account_metadata :: account_metadata
  serde_nonce :: u128
  serde_hash :: 'h

definition get_data :: "'h execution_log \<Rightarrow> 'h serde_log" where
  "get_data l = \<lparr>serde_events = log_events l, serde_account_metadata = log_account_metadata l,
     serde_nonce = log_nonce l, serde_hash = log_hash l\<rparr>"

text \<open>A loaded log has counters of its own, which start at zero.\<close>

definition log_from_serde :: "'h serde_log \<Rightarrow> 'h execution_log \<times> counters" where
  "log_from_serde d =
     (\<lparr>log_events = serde_events d, log_account_metadata = serde_account_metadata d, log_nonce = serde_nonce d,
       log_hash = serde_hash d\<rparr>, counters_default)"

lemma log_from_get_data: "log_from_serde (get_data l) = (l, counters_default)"
  by (simp add: log_from_serde_def get_data_def)

subsection \<open>Files\<close>

text \<open>\<open>writable\<close> are the names under which a file can be created and written; creating one truncates it.\<close>

datatype file_content = Utf8 string | Not_Utf8

record files =
  contents :: "string \<rightharpoonup> file_content"
  writable :: "string \<Rightarrow> bool"

definition write_file :: "string \<Rightarrow> string \<Rightarrow> files \<Rightarrow> files res" where
  "write_file name text fs =
     (if writable fs name then Inr (fs\<lparr>contents := (contents fs)(name \<mapsto> Utf8 text)\<rparr>) else Inl Unwrap_Failed)"

fun read_to_string :: "file_content \<Rightarrow> string option" where
  "read_to_string (Utf8 text) = Some text"
| "read_to_string Not_Utf8 = None"

subsection \<open>Saving and loading\<close>

record 'h json_codec =
  to_json :: "('h \<rightharpoonup> 'h serde_log) \<Rightarrow> string option"
  from_json :: "string \<Rightarrow> ('h \<rightharpoonup> 'h serde_log) option"

definition save_logs :: "'h json_codec \<Rightarrow> 'h logs \<Rightarrow> string \<Rightarrow> files \<Rightarrow> files res" where
  "save_logs codec logs filename fs =
     (let data = map_option get_data \<circ> logs
      in res_bind (unwrap (to_json codec data)) (\<lambda>json. write_file filename json fs))"

subsection \<open>CSV\<close>

record csv_entry =
  csv_finalized :: bool
  csv_in_block :: bool
  csv_time_to_finalized :: "duration option"
  csv_time_to_result :: "duration option"
  csv_time_to_validated :: "duration option"
  csv_time_to_broadcasted :: "duration option"
  csv_time_to_in_block :: "duration option"
  csv_time_to_finalized_monitor :: "duration option"

definition join :: "string \<Rightarrow> string list \<Rightarrow> string" where
  "join sep parts = (case parts of [] \<Rightarrow> [] | f # fs \<Rightarrow> f @ concat (map (\<lambda>g. sep @ g) fs))"

definition csv_header_line :: string where
  "csv_header_line = join '','' [''finalized'', ''in_block'', ''time_to_finalized'', ''time_to_result'',
     ''time_to_validated'', ''time_to_broadcasted'', ''time_to_in_block'', ''time_to_finalized_monitor'']"

definition as_millis :: "duration \<Rightarrow> nat" where
  "as_millis d = d div 10 ^ 6"

definition show_millis :: "duration option \<Rightarrow> string" where
  "show_millis d = show_nat (as_millis (case d of None \<Rightarrow> 0 | Some t \<Rightarrow> t))"

definition csv_display :: "csv_entry \<Rightarrow> string" where
  "csv_display e = join '','' [show_nat (of_bool (csv_finalized e)), show_nat (of_bool (csv_in_block e)),
     show_millis (csv_time_to_finalized e), show_millis (csv_time_to_result e), show_millis (csv_time_to_validated e),
     show_millis (csv_time_to_broadcasted e), show_millis (csv_time_to_in_block e),
     show_millis (csv_time_to_finalized_monitor e)]"

definition csv_from_log :: "'h execution_log \<Rightarrow> csv_entry res" where
  "csv_from_log l =
     res_bind (time_to_finalized l) (\<lambda>f0.
     res_bind (time_to_inblock l) (\<lambda>b0.
     res_bind (time_to_finalized l) (\<lambda>f.
     res_bind (time_to_result l) (\<lambda>r.
     res_bind (time_to_validated l) (\<lambda>v.
     res_bind (time_to_broadcasted l) (\<lambda>bc.
     res_bind (time_to_inblock l) (\<lambda>b.
     res_bind (time_to_finalized_monitor l) (\<lambda>m.
     Inr \<lparr>csv_finalized = f0 \<noteq> None, csv_in_block = b0 \<noteq> None, csv_time_to_finalized = f, csv_time_to_result = r,
       csv_time_to_validated = v, csv_time_to_broadcasted = bc, csv_time_to_in_block = b,
       csv_time_to_finalized_monitor = m\<rparr>))))))))"

definition newline :: char where
  "newline = CHR 0x0A"

text \<open>
  \<open>order\<close> is the order in which the map of the entries is iterated, a list of the hashes of all logs;
  \<open>show_hash\<close> their \<open>Debug\<close> text.
\<close>

definition csv_row :: "('h \<Rightarrow> string) \<Rightarrow> 'h \<times> csv_entry \<Rightarrow> string" where
  "csv_row show_hash r = show_hash (fst r) @ '','' @ csv_display (snd r)"

definition save_csv :: "('h \<Rightarrow> string) \<Rightarrow> 'h list \<Rightarrow> 'h logs \<Rightarrow> string \<Rightarrow> files \<Rightarrow> files res" where
  "save_csv show_hash order logs filename fs =
     res_bind (res_mapM (\<lambda>h. res_bind (csv_from_log (the (logs h))) (\<lambda>e. Inr (h, e))) order) (\<lambda>raw_data.
     write_file filename
       (''hash,'' @ csv_header_line @ [newline] @
        concat (map (\<lambda>r. csv_row show_hash r @ [newline]) raw_data)) fs)"

definition load_logs ::
    "'h json_codec \<Rightarrow> ('h \<Rightarrow> string) \<Rightarrow> 'h list \<Rightarrow> string \<Rightarrow> string option \<Rightarrow> files \<Rightarrow>
       (('h \<rightharpoonup> 'h execution_log \<times> counters) \<times> files) res" where
  "load_logs codec show_hash order name csv_filename fs =
     res_bind (opt_expect ''Unable to open file'' (contents fs name)) (\<lambda>file.
     res_bind (opt_expect ''Unable to read file'' (read_to_string file)) (\<lambda>json.
     res_bind (opt_expect ''Unable to deserialize JSON'' (from_json codec json)) (\<lambda>d.
     let data = map_option log_from_serde \<circ> d
     in res_bind (case csv_filename of
            None \<Rightarrow> Inr fs
          | Some csv \<Rightarrow> save_csv show_hash order (map_option fst \<circ> data) csv fs) (\<lambda>fs'.
     Inr (data, fs')))))"

subsection \<open>The end of a run\<close>

text \<open>
  After the event loop: the logs are saved under the name of the log file, their statistics are computed,
  and the logs are returned. \<open>formatted_date\<close> is the clock reading in the name of the file, \<open>order\<close> the
  order of the values of the map of logs.
\<close>

definition run_end ::
    "'h json_codec \<Rightarrow> 'f estimators \<Rightarrow> string \<Rightarrow> 'h list \<Rightarrow> 'h runner \<Rightarrow> files \<Rightarrow>
       ('h logs \<times> 'f stats_report \<times> files) res" where
  "run_end codec est formatted_date order r fs =
     res_bind (save_logs codec (runner_logs r) (log_file_path formatted_date r) fs) (\<lambda>fs'.
     res_bind (make_stats est (map (\<lambda>h. the (runner_logs r h)) order)) (\<lambda>stats.
     Inr (runner_logs r, stats, fs')))"

subsection \<open>Round trips\<close>

lemma map_option_comp_id: "map_option fst \<circ> (map_option log_from_serde \<circ> (map_option get_data \<circ> logs)) = logs"
  by (rule ext) (simp add: option.map_comp comp_def log_from_get_data option.map_ident)

text \<open>
  C22: what a run saves is what \<open>load_logs\<close> reads back: if the JSON codec inverts its own output, loading the
  saved file gives every log with its events, nonce, account and hash, and only the counters, which the
  file does not hold, start at zero again. The log file can be named in advance from the settings of the
  runner and the date.
\<close>

theorem save_load_roundtrip:
  assumes "to_json codec (map_option get_data \<circ> logs) = Some json" and "from_json codec json = Some (map_option get_data \<circ> logs)"
    and "writable fs name"
  shows "\<exists>fs'. save_logs codec logs name fs = Inr fs' \<and>
    load_logs codec show_hash order name None fs' = Inr (map_option (\<lambda>l. (l, counters_default)) \<circ> logs, fs') \<and>
    (\<forall>other. other \<noteq> name \<longrightarrow> contents fs' other = contents fs other)"
proof -
  have "map_option log_from_serde \<circ> (map_option get_data \<circ> logs) = map_option (\<lambda>l. (l, counters_default)) \<circ> logs"
    by (rule ext) (simp add: option.map_comp comp_def log_from_get_data)
  then show ?thesis
    using assms by (simp add: save_logs_def load_logs_def write_file_def unwrap_def Let_def)
qed

subsection \<open>The CSV file\<close>

lemma comma_not_digit: "d < 10 \<Longrightarrow> digit_char d \<noteq> CHR '',''"
proof
  assume "d < 10" and "digit_char d = CHR '',''"
  then have "digit_value (CHR '','') = Some d" by (metis digit_value_digit_char)
  then show False by (simp add: digit_value_def)
qed

lemma comma_show_nat: "CHR '','' \<notin> set (show_nat n)"
proof (induction n rule: show_nat.induct)
  case (1 n)
  then show ?case by (subst show_nat.simps) (auto simp: comma_not_digit eq_commute [of "CHR '',''"])
qed

lemma csv_display_commas: "count_list (csv_display e) (CHR '','') = 7"
  by (simp add: csv_display_def join_def count_list_append show_millis_def comma_show_nat count_notin)

definition ordered_log :: "'h execution_log \<Rightarrow> bool" where
  "ordered_log l \<longleftrightarrow> (\<exists>p s es. log_events l = Popped p # Sent s # es \<and> sorted (map event_time (log_events l)))"

lemma ordered_getter: "ordered_log l \<Longrightarrow> g \<in> set duration_getters \<Longrightarrow> \<exists>d. g l = Inr d"
  using duration_getter_total [of l _ _ _ g] unfolding ordered_log_def by blast

lemma finalized_flag:
  assumes "ordered_log l"
  shows "time_to_finalized l = Inr None \<longleftrightarrow> log_finalized l = None"
proof -
  obtain p s es where es: "log_events l = Popped p # Sent s # es" using assms by (auto simp: ordered_log_def)
  have "find_map (\<lambda>e. case e of TxPoolEvent i (Finalized _) \<Rightarrow> Some i | _ \<Rightarrow> None) es = None \<longleftrightarrow>
      find_map (\<lambda>e. case e of TxPoolEvent _ (Finalized h) \<Rightarrow> Some h | _ \<Rightarrow> None) es = None"
    unfolding find_map_None_iff by (intro ball_cong) (auto split: execution_event.splits transaction_status.splits)
  then show ?thesis
    by (auto simp: time_to_finalized_def log_finalized_def es get_sent_time_stamp_def duration_since_timestamp_def
        res_bind_eq_Inr split: option.splits)
qed

lemma csv_from_ordered_log:
  assumes "ordered_log l"
  shows "\<exists>e. csv_from_log l = Inr e \<and> csv_finalized e = (log_finalized l \<noteq> None)"
proof -
  note total = ordered_getter [OF assms]
  obtain f r v bc b m where eqs: "time_to_finalized l = Inr f" "time_to_result l = Inr r" "time_to_validated l = Inr v"
    "time_to_broadcasted l = Inr bc" "time_to_inblock l = Inr b" "time_to_finalized_monitor l = Inr m"
    using total [of time_to_finalized] total [of time_to_result] total [of time_to_validated]
      total [of time_to_broadcasted] total [of time_to_inblock] total [of time_to_finalized_monitor]
    by (auto simp: duration_getters_def)
  then have "(f \<noteq> None) = (log_finalized l \<noteq> None)" using finalized_flag [OF assms] by simp
  then show ?thesis using eqs by (simp add: csv_from_log_def)
qed

text \<open>
  C37: the CSV file of logs with \<open>Popped\<close>, \<open>Sent\<close> and a clock that did not step back is always written, and is a table: a header line
  and one line per log in the order of the map, every line with nine columns; the line of a log starts
  with its hash and the flag that says whether a status \<open>Finalized\<close> was recorded for it.
\<close>

theorem csv_is_table:
  assumes "\<forall>h \<in> set order. \<exists>l. logs h = Some l \<and> ordered_log l" and "writable fs name"
    and "\<forall>h. CHR '','' \<notin> set (show_hash h)"
  shows "\<exists>fs' header rows. save_csv show_hash order logs name fs = Inr fs' \<and>
    contents fs' name = Some (Utf8 (concat (map (\<lambda>line. line @ [newline]) (header # map snd rows)))) \<and>
    map fst rows = order \<and>
    (\<forall>line \<in> set (header # map snd rows). count_list line (CHR '','') = 8) \<and>
    (\<forall>(h, line) \<in> set rows. \<exists>rest. line = show_hash h @ '','' @
      (if log_finalized (the (logs h)) = None then ''0'' else ''1'') @ '','' @ rest)"
proof -
  define entry where "entry h = projr (csv_from_log (the (logs h)))" for h
  have entry: "csv_from_log (the (logs h)) = Inr (entry h) \<and> csv_finalized (entry h) = (log_finalized (the (logs h)) \<noteq> None)"
    if "h \<in> set order" for h
    using assms(1) that csv_from_ordered_log by (fastforce simp: entry_def)
  define rows where "rows = map (\<lambda>h. (h, csv_row show_hash (h, entry h))) order"
  define header where "header = ''hash,'' @ csv_header_line"
  have data: "res_mapM (\<lambda>h. res_bind (csv_from_log (the (logs h))) (\<lambda>e. Inr (h, e))) order = Inr (map (\<lambda>h. (h, entry h)) order)"
    by (rule res_mapM_total) (simp add: entry)
  have save: "save_csv show_hash order logs name fs =
      Inr (fs\<lparr>contents := (contents fs)(name \<mapsto> Utf8 (concat (map (\<lambda>line. line @ [newline]) (header # map snd rows))))\<rparr>)"
    using assms(2) by (simp add: save_csv_def data write_file_def header_def rows_def comp_def)
  have "count_list header (CHR '','') = 8"
    by (simp add: header_def csv_header_line_def join_def)
  moreover have "count_list (csv_row show_hash (h, e)) (CHR '','') = 8" for h e
    using assms(3) by (simp add: csv_row_def count_list_append csv_display_commas count_notin)
  moreover have "\<exists>rest. csv_row show_hash (h, entry h) = show_hash h @ '','' @
      (if log_finalized (the (logs h)) = None then ''0'' else ''1'') @ '','' @ rest" if "h \<in> set order" for h
    using entry [OF that] by (simp add: csv_row_def csv_display_def join_def show_nat.simps digit_char_def char_of_def bit_0)
  moreover have "map fst rows = order" by (simp add: rows_def comp_def)
  ultimately show ?thesis
    by (intro exI [of _ header] exI [of _ rows] exI [of _ "fs\<lparr>contents := (contents fs)(name \<mapsto> Utf8 (concat (map (\<lambda>line. line @ [newline]) (header # map snd rows))))\<rparr>"])
      (auto simp: save rows_def)
qed

definition example_log :: "nat execution_log" where
  "example_log = \<lparr>log_events = [Popped (System_Time 1000000), Sent (System_Time 2000000),
     SubmitAndWatchResult (System_Time 3000000) (Inr ()), TxPoolEvent (System_Time 9000000) (Finalized 5)],
     log_account_metadata = Derived 1, log_nonce = 0, log_hash = 3\<rparr>"

theorem csv_is_table_witness:
  "\<exists>fs' text. save_csv show_nat [3] [3 \<mapsto> example_log] ''out.csv'' \<lparr>contents = Map.empty, writable = (\<lambda>_. True)\<rparr> = Inr fs' \<and>
    contents fs' ''out.csv'' = Some (Utf8 text) \<and> text \<noteq> []"
proof -
  have "ordered_log example_log" by (simp add: ordered_log_def example_log_def)
  then have ordered: "\<forall>h \<in> set [3]. \<exists>l. [3 \<mapsto> example_log] h = Some l \<and> ordered_log l" by simp
  have "writable \<lparr>contents = Map.empty, writable = (\<lambda>_. True)\<rparr> ''out.csv''" by simp
  moreover have "\<forall>h. CHR '','' \<notin> set (show_nat h)" by (simp add: comma_show_nat)
  ultimately have "\<exists>fs' header rows. save_csv show_nat [3] [3 \<mapsto> example_log] ''out.csv''
        \<lparr>contents = Map.empty, writable = (\<lambda>_. True)\<rparr> = Inr fs' \<and>
      contents fs' ''out.csv'' = Some (Utf8 (concat (map (\<lambda>line. line @ [newline]) (header # map snd rows)))) \<and>
      map fst rows = [3] \<and>
      (\<forall>line \<in> set (header # map snd rows). count_list line (CHR '','') = 8) \<and>
      (\<forall>(h, line) \<in> set rows. \<exists>rest. line = show_nat h @ '','' @
        (if log_finalized (the ([3 \<mapsto> example_log] h)) = None then ''0'' else ''1'') @ '','' @ rest)"
    by (rule csv_is_table [OF ordered])
  then show ?thesis by fastforce
qed

subsection \<open>Statistics of a loaded file\<close>

text \<open>When a run has ended, loading the file that it saved succeeds and gives back every log.\<close>

lemma run_end_loaded:
  assumes "run_end codec est formatted_date order r fs = Inr (logs, stats, fs')"
    and "\<forall>d json. to_json codec d = Some json \<longrightarrow> from_json codec json = Some d"
  shows "load_logs codec show_hash order' (log_file_path formatted_date r) None fs' =
      Inr (map_option (\<lambda>l. (l, counters_default)) \<circ> logs, fs') \<and>
    logs = runner_logs r \<and> make_stats est (map (\<lambda>h. the (logs h)) order) = Inr stats"
proof -
  let ?d = "map_option get_data \<circ> runner_logs r"
  obtain json where json: "to_json codec ?d = Some json"
    and fs': "write_file (log_file_path formatted_date r) json fs = Inr fs'"
    and stats: "make_stats est (map (\<lambda>h. the (runner_logs r h)) order) = Inr stats" and logs: "logs = runner_logs r"
    using assms(1) unfolding run_end_def save_logs_def Let_def
    by (auto elim!: res_bind_InrE simp: unwrap_def split: option.splits)
  have "contents fs' (log_file_path formatted_date r) = Some (Utf8 json)"
    using fs' by (auto simp: write_file_def split: if_splits)
  moreover have "from_json codec json = Some ?d" using assms(2) json by blast
  moreover have "map_option log_from_serde \<circ> ?d = map_option (\<lambda>l. (l, counters_default)) \<circ> runner_logs r"
    by (rule ext) (simp add: option.map_comp comp_def log_from_get_data)
  ultimately show ?thesis using stats by (simp add: load_logs_def Let_def logs)
qed

subsection \<open>Examples\<close>

definition example_estimators :: "nat estimators" where
  "example_estimators = \<lparr>as_secs_f64 = id, est_len = length, est_min = Min \<circ> set, est_max = Max \<circ> set,
     est_mean = sum_list, est_q90 = sum_list\<rparr>"

definition example_codec :: "nat json_codec" where
  "example_codec =
    \<lparr>to_json = (\<lambda>d. if d = [3 \<mapsto> get_data example_log] then Some ''{3}'' else None),
     from_json = (\<lambda>_. Some [3 \<mapsto> get_data example_log])\<rparr>"

definition example_runner :: "nat runner" where
  "example_runner = (runner_new 10 [] None None None None)\<lparr>runner_logs := [3 \<mapsto> example_log]\<rparr>"

theorem save_load_roundtrip_witness:
  "\<exists>fs'. save_logs example_codec [3 \<mapsto> example_log] ''out.json'' \<lparr>contents = Map.empty, writable = (\<lambda>_. True)\<rparr> = Inr fs' \<and>
    (\<exists>data. load_logs example_codec show_nat [3] ''out.json'' None fs' = Inr (data, fs') \<and>
      data 3 = Some (example_log, counters_default) \<and> dom data = {3})"
proof -
  let ?fs = "\<lparr>contents = Map.empty, writable = (\<lambda>_. True)\<rparr>" and ?logs = "[3 \<mapsto> example_log]"
  have "map_option get_data \<circ> ?logs = [3 \<mapsto> get_data example_log]" by auto
  then have codec: "to_json example_codec (map_option get_data \<circ> ?logs) = Some ''{3}''"
      "from_json example_codec ''{3}'' = Some (map_option get_data \<circ> ?logs)"
    by (simp_all add: example_codec_def)
  have "writable ?fs ''out.json''" by simp
  from save_load_roundtrip [OF codec this, of show_nat "[3]"] obtain fs' where
    "save_logs example_codec ?logs ''out.json'' ?fs = Inr fs'"
    "load_logs example_codec show_nat [3] ''out.json'' None fs' = Inr (map_option (\<lambda>l. (l, counters_default)) \<circ> ?logs, fs')"
    by blast
  then show ?thesis by (auto intro!: exI [of _ fs'])
qed

end
