(* ===== verification/Node_Run.thy ===== *)
theory Node_Run
  imports Runner_Logs Subxt_Sink Journal
begin

section \<open>A runner on a node\<close>

text \<open>
  The runner of \<open>src/runner.rs\<close> and the sink of \<open>src/subxt_transaction.rs\<close> together. The throttle reads the
  count of pending extrinsics through the cache of the sink; a request for that count that fails, an error
  among the items of a stream and a block monitor that is gone make calls of the sink panic. Such a panic
  unwinds through \<open>run\<close>, past the call that saves the logs.
\<close>

subsection \<open>The steps\<close>

text \<open>
  An arm of the event loop that needs nothing more of the sink; one for which the throttle asks for the
  count, with the times at which the cache is looked at and renewed and the node's answer; an item of the
  stream of the \<open>i\<close>-th worker; and a call of \<open>wait\<close> of the \<open>i\<close>-th worker after the task of the monitor has
  ended.
\<close>

datatype ('e, 'b, 'h) node_event =
    Node_Arm "('e, 'h) arm"
  | Node_Count "('e, 'h) arm" nat nat "'e + nat"
  | Node_Stream nat system_time "'e + 'b subxt_tx_status"
  | Node_Wait_Panic nat

record ('api, 'rpc, 'kp, 'm, 'h) node_state =
  nd_run :: "'h run_state"
  nd_sink :: "('api, 'rpc, 'kp, 'm) subxt_sink"

definition panic_run :: "panic \<Rightarrow> 'h run_state \<Rightarrow> 'h run_state" where
  "panic_run p s = s\<lparr>run_exit := Some (Panicked p)\<rparr>"

definition worker_at :: "nat \<Rightarrow> 'h task_pc \<Rightarrow> 'h run_state \<Rightarrow> bool" where
  "worker_at i pc s \<longleftrightarrow> run_exit s = None \<and> i < length (run_workers s) \<and> snd (run_workers s ! i) = pc"

text \<open>The count is only asked for when the threshold is below \<open>usize::MAX\<close>.\<close>

definition needs_count :: "('e, 'h) arm \<Rightarrow> 'h run_state \<Rightarrow> bool" where
  "needs_count arm s \<longleftrightarrow> asks_pending arm \<noteq> None \<and> send_threshold (run_runner s) \<noteq> usize_max"

fun takes_item :: "('e, 'h) arm \<Rightarrow> bool" where
  "takes_item (Worker_Polled i now (Stream_Reply (Some status))) = True"
| "takes_item _ = False"

fun node_step ::
    "profile \<Rightarrow> ('e \<Rightarrow> string) \<Rightarrow> bool \<Rightarrow> ('b \<Rightarrow> 'h) \<Rightarrow> ('e, 'b, 'h) node_event \<Rightarrow>
       ('api, 'rpc, 'kp, 'm, 'h) node_state \<Rightarrow> ('api, 'rpc, 'kp, 'm, 'h) node_state option" where
  "node_step prof show_subxt hm block_hash (Node_Arm arm) x =
     (if needs_count arm (nd_run x) \<or> takes_item arm then None
      else map_option (\<lambda>s. x\<lparr>nd_run := s\<rparr>) (select_arm prof show_subxt hm arm (nd_run x)))"
| "node_step prof show_subxt hm block_hash (Node_Count arm checked asked answer) x =
     (case select_arm prof show_subxt hm arm (nd_run x) of
        None \<Rightarrow> None
      | Some s \<Rightarrow>
          if \<not> needs_count arm (nd_run x) then None
          else case pending_extrinsics checked asked answer (nd_sink x) of
            Inl p \<Rightarrow> Some (x\<lparr>nd_run := panic_run p (nd_run x)\<rparr>)
          | Inr (n, sink) \<Rightarrow> if asks_pending arm = Some (unat n) then Some (x\<lparr>nd_run := s, nd_sink := sink\<rparr>) else None)"
| "node_step prof show_subxt hm block_hash (Node_Stream i now item) x =
     (if worker_at i At_Stream_Next (nd_run x)
      then (case stream_item block_hash item of
              Inl p \<Rightarrow> Some (x\<lparr>nd_run := panic_run p (nd_run x)\<rparr>)
            | Inr status \<Rightarrow> map_option (\<lambda>s. x\<lparr>nd_run := s\<rparr>)
                (select_arm prof show_subxt hm (Worker_Polled i now (Stream_Reply (Some status))) (nd_run x)))
      else None)"
| "node_step prof show_subxt hm block_hash (Node_Wait_Panic i) x =
     (if hm \<and> worker_at i At_Monitor_Wait (nd_run x) then Some (x\<lparr>nd_run := panic_run Unwrap_Failed (nd_run x)\<rparr>)
      else None)"

inductive node_runs ::
    "profile \<Rightarrow> ('e \<Rightarrow> string) \<Rightarrow> bool \<Rightarrow> ('b \<Rightarrow> 'h) \<Rightarrow> ('api, 'rpc, 'kp, 'm, 'h) node_state \<Rightarrow> ('e, 'b, 'h) node_event list \<Rightarrow>
       ('api, 'rpc, 'kp, 'm, 'h) node_state \<Rightarrow> bool"
  for prof show_subxt hm block_hash x0 where
  node_start: "node_runs prof show_subxt hm block_hash x0 [] x0"
| node_next: "node_runs prof show_subxt hm block_hash x0 evs x \<Longrightarrow> node_step prof show_subxt hm block_hash ev x = Some x' \<Longrightarrow>
     node_runs prof show_subxt hm block_hash x0 (evs @ [ev]) x'"

inductive_cases node_runs_snocE: "node_runs prof show_subxt hm block_hash x0 (evs @ [ev]) x'"

text \<open>
  What \<open>run\<close> returns and the files it leaves: a panic ends it before \<open>save_logs\<close>.
\<close>

definition run_returned ::
    "'h json_codec \<Rightarrow> 'f estimators \<Rightarrow> string \<Rightarrow> 'h list \<Rightarrow> 'h run_state \<Rightarrow> files \<Rightarrow>
       (('h logs \<times> 'f stats_report) res \<times> files) option" where
  "run_returned codec est date order s fs =
     (case run_exit s of
        None \<Rightarrow> None
      | Some (Panicked p) \<Rightarrow> Some (Inl p, fs)
      | Some _ \<Rightarrow>
          (let r = run_runner s in
           case save_logs codec (runner_logs r) (log_file_path date r) fs of
             Inl p \<Rightarrow> Some (Inl p, fs)
           | Inr fs' \<Rightarrow>
               Some (res_bind (make_stats est (map (\<lambda>h. the (runner_logs r h)) order)) (\<lambda>stats. Inr (runner_logs r, stats)), fs')))"

text \<open>The panics of the calls of the sink, with the events they come from.\<close>

fun sink_panic :: "('e, 'b, 'h) node_event \<Rightarrow> panic option" where
  "sink_panic (Node_Count arm checked asked (Inl e)) = Some (Expect_Failed ''author_pendingExtrinsics should not fail'')"
| "sink_panic (Node_Stream i now (Inl e)) = Some Unwrap_Failed"
| "sink_panic (Node_Wait_Panic i) = Some Unwrap_Failed"
| "sink_panic _ = None"

fun_cases sink_panicE: "sink_panic ev = Some p"

lemma node_step_open: "node_step prof show_subxt hm block_hash ev x = Some x' \<Longrightarrow> run_exit (nd_run x) = None"
  by (cases "(prof, show_subxt, hm, block_hash, ev, x)" rule: node_step.cases)
    (auto simp: worker_at_def dest: select_arm_open split: if_splits option.splits simp del: select_arm.simps)

lemma node_step_cases:
  assumes "node_step prof show_subxt hm block_hash ev x = Some x'"
  obtains (arm) arm s where "select_arm prof show_subxt hm arm (nd_run x) = Some s" and "nd_run x' = s"
      and "nd_sink x' = nd_sink x" and "\<not> needs_count arm (nd_run x)"
      and "\<forall>a checked asked answer. ev \<noteq> Node_Count a checked asked answer"
  | (count) arm checked asked answer n where "ev = Node_Count arm checked asked answer"
      and "select_arm prof show_subxt hm arm (nd_run x) = Some (nd_run x')" and "needs_count arm (nd_run x)"
      and "pending_extrinsics checked asked answer (nd_sink x) = Inr (n, nd_sink x')" and "asks_pending arm = Some (unat n)"
  | (panicked) p where "sink_panic ev = Some p" and "x' = x\<lparr>nd_run := panic_run p (nd_run x)\<rparr>"
proof (cases ev)
  case (Node_Arm a)
  then show thesis using assms arm by (auto simp: Node_Arm split: if_splits simp del: select_arm.simps)
next
  case (Node_Count a checked asked answer)
  then obtain s where sel: "select_arm prof show_subxt hm a (nd_run x) = Some s" and need: "needs_count a (nd_run x)"
    using assms by (auto split: option.splits if_splits simp del: select_arm.simps)
  show thesis
  proof (cases "pending_extrinsics checked asked answer (nd_sink x)")
    case (Inl p)
    then have "sink_panic ev = Some p"
      using pending_extrinsics_fresh [where checked = checked and now = asked and answer = answer and s = "nd_sink x"] by (auto simp: Node_Count)
    then show thesis using panicked assms sel need Inl by (simp add: Node_Count del: select_arm.simps)
  next
    case (Inr y)
    obtain n sink where y: "y = (n, sink)" by (cases y)
    then show thesis
      using count [OF Node_Count _ need, of n] assms sel need Inr
      by (simp add: Node_Count split: if_splits del: select_arm.simps) fastforce
  qed
next
  case (Node_Stream i now item)
  have at: "worker_at i At_Stream_Next (nd_run x)" using assms by (auto simp: Node_Stream split: if_splits)
  show thesis
  proof (cases item)
    case (Inl e)
    then show thesis using panicked assms at by (simp add: Node_Stream stream_item_def)
  next
    case (Inr s)
    then show thesis
      using arm assms at by (auto simp: Node_Stream stream_item_def needs_count_def simp del: select_arm.simps)
  qed
next
  case (Node_Wait_Panic i)
  then show thesis using panicked assms by (auto split: if_splits)
qed

subsection \<open>Panics lose the logs\<close>

lemma node_runs_runs:
  assumes "node_runs prof show_subxt hm block_hash x0 evs x"
  shows "(\<exists>arms. runs prof show_subxt hm (nd_run x0) arms (nd_run x)) \<or>
    (\<exists>evs0 ev p s. evs = evs0 @ [ev] \<and> sink_panic ev = Some p \<and> nd_run x = panic_run p s)"
  using assms
proof (induction rule: node_runs.induct)
  case node_start
  then show ?case using runs_start by blast
next
  case (node_next evs x ev x')
  have "run_exit (nd_run x) = None" using node_next.hyps(2) by (rule node_step_open)
  then obtain arms where run: "runs prof show_subxt hm (nd_run x0) arms (nd_run x)"
    using node_next.IH by (auto simp: panic_run_def)
  from node_next.hyps(2) show ?case
    by (cases rule: node_step_cases) (use runs_arm [OF run] in \<open>fastforce simp del: select_arm.simps\<close>)+
qed

lemma run_returned_panic:
  "run_exit s = Some (Panicked p) \<Longrightarrow> run_returned codec est date order s fs = Some (Inl p, fs)"
  by (simp add: run_returned_def)

text \<open>
  C5: one failing call of the node loses the logs of the whole run. A run on a node panics only in a call of
  the sink, when a request for the count of pending extrinsics fails, a stream yields an error or the block
  monitor is gone, or, with overflow checks and a monitor, in the count of the buffered transactions; it then
  writes no file. And whenever a throttled arm comes up with a count older than a second, one failure of the
  node's answer is enough for that. Only a run that ends otherwise saves its logs, under its file name.
\<close>

theorem node_panic_loses_logs:
  fixes show_subxt :: "'e \<Rightarrow> string"
  assumes "node_runs prof show_subxt hm block_hash x0 evs x" and "nd_run x0 = run_new clock threshold txs limit"
    and "distinct (map task_hash txs)" and "length txs < 2 ^ 62"
  shows "(\<forall>p. run_exit (nd_run x) = Some (Panicked p) \<longrightarrow>
      run_returned codec est date order (nd_run x) fs = Some (Inl p, fs) \<and>
      (p = Arithmetic_Overflow \<and> hm \<and> prof = Debug \<or> (\<exists>evs0 ev. evs = evs0 @ [ev] \<and> sink_panic ev = Some p))) \<and>
    (\<forall>arm s checked asked e. select_arm prof show_subxt hm arm (nd_run x) = Some s \<and> needs_count arm (nd_run x) \<and>
      (\<forall>ts n. current_pending_extrinsics (nd_sink x) = Some (ts, n) \<longrightarrow> 1000000000 < checked - ts) \<longrightarrow>
      (\<exists>x'. node_step prof show_subxt hm block_hash (Node_Count arm checked asked (Inl e)) x = Some x' \<and>
        run_returned codec est date order (nd_run x') fs =
          Some (Inl (Expect_Failed ''author_pendingExtrinsics should not fail''), fs))) \<and>
    (\<forall>path json. run_exit (nd_run x) \<in> {Some Timeout_Reached, Some Stop_Requested, Some All_Futures_Done} \<and>
      path = log_file_path date (run_runner (nd_run x)) \<and> writable fs path \<and>
      to_json codec (map_option get_data \<circ> runner_logs (run_runner (nd_run x))) = Some json \<longrightarrow>
      (\<exists>r. run_returned codec est date order (nd_run x) fs = Some (r, fs\<lparr>contents := (contents fs)(path \<mapsto> Utf8 json)\<rparr>)))"
proof (intro conjI allI impI)
  fix p assume p: "run_exit (nd_run x) = Some (Panicked p)"
  then show "run_returned codec est date order (nd_run x) fs = Some (Inl p, fs)" by (rule run_returned_panic)
  from node_runs_runs [OF assms(1)]
  consider arms where "runs prof show_subxt hm (run_new clock threshold txs limit) arms (nd_run x)"
    | evs0 ev q s where "evs = evs0 @ [ev]" "sink_panic ev = Some q" "nd_run x = panic_run q s"
    unfolding assms(2) by blast
  then show "p = Arithmetic_Overflow \<and> hm \<and> prof = Debug \<or> (\<exists>evs0 ev. evs = evs0 @ [ev] \<and> sink_panic ev = Some p)"
  proof cases
    case 1
    have "p = Arithmetic_Overflow \<and> prof = Debug \<and> threshold \<noteq> usize_max"
      using transactions_conserved [OF 1] p by blast
    moreover have "hm" if "threshold \<noteq> usize_max"
      using no_panic_runs [of prof show_subxt clock threshold txs limit arms "nd_run x"] 1 assms(3,4) that p by (cases hm) auto
    ultimately show ?thesis by blast
  next
    case 2
    then show ?thesis using p by (auto simp: panic_run_def)
  qed
next
  fix arm s checked asked and e :: 'e
  assume a: "select_arm prof show_subxt hm arm (nd_run x) = Some s \<and> needs_count arm (nd_run x) \<and>
      (\<forall>ts n. current_pending_extrinsics (nd_sink x) = Some (ts, n) \<longrightarrow> 1000000000 < checked - ts)"
  then have "pending_extrinsics checked asked (Inl e) (nd_sink x) =
      Inl (Expect_Failed ''author_pendingExtrinsics should not fail'')"
    by (cases "current_pending_extrinsics (nd_sink x)") (auto simp: pending_extrinsics_def update_count_def expect_ok_def)
  with a have "node_step prof show_subxt hm block_hash (Node_Count arm checked asked (Inl e)) x =
      Some (x\<lparr>nd_run := panic_run (Expect_Failed ''author_pendingExtrinsics should not fail'') (nd_run x)\<rparr>)"
    by (simp del: select_arm.simps)
  then show "\<exists>x'. node_step prof show_subxt hm block_hash (Node_Count arm checked asked (Inl e)) x = Some x' \<and>
      run_returned codec est date order (nd_run x') fs =
        Some (Inl (Expect_Failed ''author_pendingExtrinsics should not fail''), fs)"
    by (simp add: run_returned_panic panic_run_def)
next
  fix path json
  assume "run_exit (nd_run x) \<in> {Some Timeout_Reached, Some Stop_Requested, Some All_Futures_Done} \<and>
      path = log_file_path date (run_runner (nd_run x)) \<and> writable fs path \<and>
      to_json codec (map_option get_data \<circ> runner_logs (run_runner (nd_run x))) = Some json"
  then show "\<exists>r. run_returned codec est date order (nd_run x) fs = Some (r, fs\<lparr>contents := (contents fs)(path \<mapsto> Utf8 json)\<rparr>)"
    by (auto simp: run_returned_def save_logs_def write_file_def unwrap_def Let_def)
qed

subsection \<open>The throttle and the cached count\<close>

lemma length_diff_take: "length xs - length (take (length xs - m) xs) = min (length xs) m"
  by (cases "m \<le> length xs") (auto simp: min_def)

lemma cached_count_answered:
  assumes "node_runs prof show_subxt hm block_hash x0 evs x" and "current_pending_extrinsics (nd_sink x0) = None"
    and "current_pending_extrinsics (nd_sink x) = Some (ts, n)"
  shows "\<exists>arm checked k. Node_Count arm checked ts (Inr k) \<in> set evs \<and> n = of_nat k"
  using assms(1,3)
proof (induction arbitrary: ts n rule: node_runs.induct)
  case node_start
  then show ?case using assms(2) by simp
next
  case (node_next evs x ev x')
  from node_next.hyps(2) show ?case
  proof (cases rule: node_step_cases)
    case (count arm checked asked answer m)
    with pending_extrinsics_fresh [where checked = checked and now = asked and answer = answer and s = "nd_sink x"]
    show ?thesis using node_next.IH [of ts n] node_next.prems by fastforce
  qed (use node_next.IH [of ts n] node_next.prems in auto)
qed

text \<open>
  C19: what the throttle of a run on a node lets through, for a sink without a monitor: it starts
  \<open>threshold - count - awaiting\<close> transactions (none, if this is negative; all, if there are fewer), where
  \<open>count\<close> is a number of pending extrinsics that the node has answered, for this call or in one not more than a
  second before.
\<close>

theorem node_throttle_fresh:
  assumes "node_runs prof show_subxt False block_hash x0 evs x" and "nd_run x0 = run_new clock threshold txs limit"
    and "current_pending_extrinsics (nd_sink x0) = None"
    and "distinct (map task_hash txs)" and "length txs < 2 ^ 62"
    and "node_step prof show_subxt False block_hash (Node_Count arm checked asked answer) x = Some x'"
    and "run_exit (nd_run x') = None"
  defines "unsent y \<equiv> transactions (run_runner (nd_run y))"
  shows "\<exists>arm' checked' ts k.
    Node_Count arm' checked' ts (Inr k) \<in> set (evs @ [Node_Count arm checked asked answer]) \<and>
    (ts = asked \<or> checked - ts \<le> 1000000000) \<and>
    length (unsent x) - length (unsent x') = min (length (unsent x))
      (unat threshold - unat (of_nat k :: usize) - length (filter (\<lambda>w. awaiting (snd w)) (run_workers (nd_run x))))"
proof -
  let ?waiting = "length (filter (\<lambda>w. awaiting (snd w)) (run_workers (nd_run x)))"
  have "run_exit (nd_run x) = None" using assms(6) by (rule node_step_open)
  then obtain arms where run: "runs prof show_subxt False (run_new clock threshold txs limit) arms (nd_run x)"
    using node_runs_runs [OF assms(1)] by (auto simp: panic_run_def assms(2))
  from assms(6) show ?thesis
  proof (cases rule: node_step_cases)
    case (arm a s)
    then show ?thesis by blast
  next
    case (count a checked' asked' answer' n)
    then have sel: "select_arm prof show_subxt False arm (nd_run x) = Some (nd_run x')" and need: "needs_count arm (nd_run x)"
      and pend: "pending_extrinsics checked asked answer (nd_sink x) = Inr (n, nd_sink x')" and ans: "asks_pending arm = Some (unat n)"
      by auto
    obtain ts k where n: "n = of_nat k" and fresh: "ts = asked \<or> checked - ts \<le> 1000000000"
      and asked: "\<exists>arm' checked'. Node_Count arm' checked' ts (Inr k) \<in> set (evs @ [Node_Count arm checked asked answer])"
      using pending_extrinsics_fresh [where checked = checked and now = asked and answer = answer and s = "nd_sink x"]
        cached_count_answered [OF assms(1,3)] by (fastforce simp: pend)
    have "threshold \<noteq> usize_max" using need transactions_conserved [OF run] by (simp add: needs_count_def)
    note step = throttle_step [OF run assms(4,5) this sel]
    obtain i rd ws0 where rd: "pending_answer rd = n"
      and arm: "arm = Tick rd \<and> ws0 = run_workers (nd_run x) \<or> arm = Worker_Returned i rd \<and> ws0 = remove_nth i (run_workers (nd_run x))"
      using ans by (cases arm) (auto simp: word_unat_eq_iff)
    have "length (unsent x) - length (unsent x') = min (length (unsent x)) (unat threshold - unat n - ?waiting)"
      using step [OF arm] by (simp only: Let_def unsent_def rd length_diff_take)
    then show ?thesis using fresh asked unfolding n by blast
  next
    case (panicked p)
    then show ?thesis using assms(7) by (simp add: panic_run_def)
  qed
qed

subsection \<open>Witnesses\<close>

text \<open>
  The throttled run of \<open>Runner_Logs\<close>, which has one transaction left, on a sink that has not asked yet: the
  first tick asks the node, which answers with one pending extrinsic or fails.
\<close>

definition example_node :: "(unit, unit, string, unit, nat) node_state" where
  "example_node = \<lparr>nd_run = example_running, nd_sink = example_sink\<lparr>current_pending_extrinsics := None\<rparr>\<rparr>"

definition example_tick :: "unit + nat \<Rightarrow> (unit, nat, nat) node_event" where
  "example_tick answer = Node_Count (Tick (example_readings 1)) 0 7 answer"

lemma example_node_simps:
  "nd_run example_node = run_new (\<lambda>_. System_Time 0) 2 [example_task False 1, example_task False 2, example_task True 3] None"
  "current_pending_extrinsics (nd_sink example_node) = None"
  "needs_count (Tick (example_readings 1)) (nd_run example_node)"
  by (simp_all add: example_node_def example_running_def needs_count_def run_eval)

lemma example_node_open: "run_exit (nd_run example_node) = None"
  by (simp add: example_node_def example_running_simps)

theorem node_panic_loses_logs_witness:
  "\<exists>x'. node_step Debug show_unit False id (example_tick (Inl ())) example_node = Some x' \<and>
     run_returned example_codec example_estimators ''now'' [] (nd_run x') \<lparr>contents = Map.empty, writable = (\<lambda>_. True)\<rparr> =
       Some (Inl (Expect_Failed ''author_pendingExtrinsics should not fail''), \<lparr>contents = Map.empty, writable = (\<lambda>_. True)\<rparr>)"
proof -
  obtain s where s: "select_arm Debug show_unit False (Tick (example_readings 1)) (nd_run example_node) = Some s"
    by (simp add: example_node_open example_readings_def)
  have start: "node_runs Debug show_unit False id example_node [] example_node" by (rule node_start)
  show ?thesis
    unfolding example_tick_def
    using node_panic_loses_logs [OF start example_node_simps(1) example_hashes, of example_codec example_estimators "''now''" "[]" "\<lparr>contents = Map.empty, writable = (\<lambda>_. True)\<rparr>"]
      s example_node_simps(2,3) by (simp del: select_arm.simps)
qed

text \<open>
  Two transactions that are not watched, one at a time: the first one is sent and its task returns; the node
  answers that nothing is pending, so the second one is started.
\<close>

definition example_pair :: "(unit, unit, string, unit, nat) node_state" where
  "example_pair =
     \<lparr>nd_run = run_new (\<lambda>_. System_Time 0) 1 [example_task False 1, example_task False 2] None,
      nd_sink = example_sink\<lparr>current_pending_extrinsics := None\<rparr>\<rparr>"

definition example_returned :: "(unit, nat, nat) node_event" where
  "example_returned = Node_Count (Worker_Returned 0 (example_readings 0)) 0 7 (Inr 0)"

lemma example_pair_simps:
  "nd_run example_pair = run_new (\<lambda>_. System_Time 0) 1 [example_task False 1, example_task False 2] None"
  "current_pending_extrinsics (nd_sink example_pair) = None"
  "distinct (map task_hash [example_task False 1, example_task False 2])"
  "length [example_task False 1, example_task False 2] < 2 ^ 62"
  by (simp_all add: example_pair_def example_task_def)

lemma example_pair_sent:
  "\<exists>x x'. node_runs Debug show_unit False id example_pair
       [Node_Arm (Worker_Polled 0 (System_Time 1) Poll), Node_Arm (Worker_Polled 0 (System_Time 2) (Submit_Reply (Inr 2)))] x \<and>
     node_step Debug show_unit False id example_returned x = Some x' \<and> run_exit (nd_run x') = None \<and>
     length (transactions (run_runner (nd_run x))) = 1 \<and> filter (\<lambda>w. awaiting (snd w)) (run_workers (nd_run x)) = []"
proof -
  let ?a = "Worker_Polled 0 (System_Time 1) Poll :: (unit, nat) arm"
  let ?b = "Worker_Polled 0 (System_Time 2) (Submit_Reply (Inr 2)) :: (unit, nat) arm"
  let ?c = "Worker_Returned 0 (example_readings 0) :: (unit, nat) arm"
  obtain s1 s2 s3 where s: "select_arm Debug show_unit False ?a (nd_run example_pair) = Some s1"
      "select_arm Debug show_unit False ?b s1 = Some s2" "select_arm Debug show_unit False ?c s2 = Some s3"
    and s2: "length (transactions (run_runner s2)) = 1" "send_threshold (run_runner s2) = 1"
      "filter (\<lambda>w. awaiting (snd w)) (run_workers s2) = []" and s3: "run_exit s3 = None"
    by (simp add: example_pair_def run_eval)
  have "node_runs Debug show_unit False id example_pair ([] @ [Node_Arm ?a]) (example_pair\<lparr>nd_run := s1\<rparr>)"
    using s(1) by (intro node_next [OF node_start]) (simp add: needs_count_def del: select_arm.simps)
  then have "node_runs Debug show_unit False id example_pair (([] @ [Node_Arm ?a]) @ [Node_Arm ?b])
      (example_pair\<lparr>nd_run := s2\<rparr>)"
    by (rule node_next) (use s(2) in \<open>simp add: needs_count_def del: select_arm.simps\<close>)
  moreover have "node_step Debug show_unit False id example_returned (example_pair\<lparr>nd_run := s2\<rparr>) =
      Some (example_pair\<lparr>nd_run := s3, nd_sink := example_sink\<lparr>current_pending_extrinsics := Some (7, 0)\<rparr>\<rparr>)"
    using s(3) s2(2)
    by (simp add: example_returned_def needs_count_def pending_extrinsics_def update_count_def expect_ok_def example_pair_def
        example_readings_def usize_max_def del: select_arm.simps)
  ultimately show ?thesis using s2(1,3) s3
    by (intro exI [where x = "example_pair\<lparr>nd_run := s2\<rparr>"]
        exI [where x = "example_pair\<lparr>nd_run := s3, nd_sink := example_sink\<lparr>current_pending_extrinsics := Some (7, 0)\<rparr>\<rparr>"]) simp
qed

theorem node_throttle_fresh_witness:
  "\<exists>x x' :: (unit, unit, string, unit, nat) node_state. node_step Debug show_unit False id example_returned x = Some x' \<and>
     length (transactions (run_runner (nd_run x))) - length (transactions (run_runner (nd_run x'))) = 1"
proof -
  let ?evs = "[Node_Arm (Worker_Polled 0 (System_Time 1) Poll),
    Node_Arm (Worker_Polled 0 (System_Time 2) (Submit_Reply (Inr 2)))] :: (unit, nat, nat) node_event list"
  obtain x x' where run: "node_runs Debug show_unit False id example_pair ?evs x"
    and step: "node_step Debug show_unit False id example_returned x = Some x'" and running: "run_exit (nd_run x') = None"
    and one: "length (transactions (run_runner (nd_run x))) = 1"
    and none: "filter (\<lambda>w. awaiting (snd w)) (run_workers (nd_run x)) = []"
    using example_pair_sent by blast
  have "\<exists>arm' checked' ts k. Node_Count arm' checked' ts (Inr k) \<in> set (?evs @ [example_returned]) \<and>
      (ts = 7 \<or> 0 - ts \<le> 1000000000) \<and>
      length (transactions (run_runner (nd_run x))) - length (transactions (run_runner (nd_run x'))) =
      min (length (transactions (run_runner (nd_run x))))
        (unat (1 :: usize) - unat (of_nat k :: usize) - length (filter (\<lambda>w. awaiting (snd w)) (run_workers (nd_run x))))"
    unfolding example_returned_def
    by (rule node_throttle_fresh [OF run example_pair_simps step [unfolded example_returned_def] running])
  then have "length (transactions (run_runner (nd_run x))) - length (transactions (run_runner (nd_run x'))) = 1"
    using one none by (auto simp: example_returned_def)
  with step show ?thesis by blast
qed

end
