(* ===== verification/Block_Monitor.thy ===== *)
theory Block_Monitor
  imports Transaction
begin

section \<open>The block monitor\<close>

text \<open>
  The model of \<open>src/block_monitor.rs\<close>. A client asks to be told when a transaction is in a finalized
  block; the monitor task keeps the sending ends of the clients' one-shot channels and answers when it
  handles finalized blocks. Channels live in an explicit store, because their two ends are shared
  between tasks. Blocks come from the node: a block is a record of its number, its hash and the result
  of fetching its extrinsics, of which the code uses the hashes.
\<close>

subsection \<open>Display options\<close>

datatype display_options = Best | Finalized_Blocks | All_Blocks

fun display_best :: "display_options \<Rightarrow> bool" where
  "display_best Best = True"
| "display_best All_Blocks = True"
| "display_best Finalized_Blocks = False"

fun display_finalized :: "display_options \<Rightarrow> bool" where
  "display_finalized Finalized_Blocks = True"
| "display_finalized All_Blocks = True"
| "display_finalized Best = False"

subsection \<open>Channels, blocks and the state of the monitor task\<close>

text \<open>
  A one-shot channel holds both ends, or a value, or has lost its sender or its receiver.
\<close>

datatype ('e, 'h) oneshot =
    Waiting
  | Delivered "'e error + 'h"
  | Sender_Dropped
  | Receiver_Dropped

record ('x, 'h) block =
  block_number :: u64
  block_hash :: 'h
  block_extrinsics :: "'x + 'h list"

type_synonym listener = nat

record ('e, 'h) monitor =
  callbacks :: "'h \<rightharpoonup> listener"
  mortal_accounting :: "u64 \<rightharpoonup> 'h list"
  channels :: "listener \<rightharpoonup> ('e, 'h) oneshot"

definition monitor_start :: "(listener \<rightharpoonup> ('e, 'h) oneshot) \<Rightarrow> ('e, 'h) monitor" where
  "monitor_start chans = \<lparr>callbacks = Map.empty, mortal_accounting = Map.empty, channels = chans\<rparr>"

text \<open>\<open>trigger.send(v).unwrap()\<close>: sending fails when the receiver is gone.\<close>

definition trigger_send ::
    "listener \<Rightarrow> 'e error + 'h \<Rightarrow> ('e, 'h) monitor \<Rightarrow> ('e, 'h) monitor res" where
  "trigger_send l v m =
     (if channels m l = Some Waiting then Inr (m\<lparr>channels := (channels m)(l \<mapsto> Delivered v)\<rparr>)
      else Inl Unwrap_Failed)"

definition drop_sender :: "listener \<Rightarrow> ('e, 'h) monitor \<Rightarrow> ('e, 'h) monitor" where
  "drop_sender l m =
     (if channels m l = Some Waiting then m\<lparr>channels := (channels m)(l \<mapsto> Sender_Dropped)\<rparr> else m)"

subsection \<open>Handling a block\<close>

text \<open>
  \<open>notify\<close> is the common body of the two loops of \<open>handle_block\<close>: for each hash, take the callback out of
  the map, if there is one, and send the answer.
\<close>

fun notify :: "'e error + 'h \<Rightarrow> 'h list \<Rightarrow> ('e, 'h) monitor \<Rightarrow> ('e, 'h) monitor res" where
  "notify v [] m = Inr m"
| "notify v (h # hs) m =
     (case callbacks m h of
        None \<Rightarrow> notify v hs m
      | Some l \<Rightarrow>
          res_bind (trigger_send l v (m\<lparr>callbacks := (callbacks m)(h := None)\<rparr>)) (notify v hs))"

text \<open>
  The result carries the line that is logged, if any: the kind of block, its number and the number of
  its extrinsics.
\<close>

definition handle_block ::
    "display_options \<Rightarrow> bool \<Rightarrow> ('x, 'h) block \<Rightarrow> ('e, 'h) monitor \<Rightarrow>
       (('e, 'h) monitor \<times> ('x + (string \<times> u64 \<times> nat) option)) res" where
  "handle_block options finalized b m =
     (case block_extrinsics b of
        Inl e \<Rightarrow> Inr (m, Inl e)
      | Inr extrinsics \<Rightarrow>
          (if finalized then
             res_bind (notify (Inr (block_hash b)) extrinsics m) (\<lambda>m1.
             (let txs = (case mortal_accounting m1 (block_number b) of None \<Rightarrow> [] | Some t \<Rightarrow> t);
                  m2 = m1\<lparr>mortal_accounting := (mortal_accounting m1)(block_number b := None)\<rparr>
              in res_bind (notify (Inl (MortalLifetimeSurpassed (block_number b))) txs m2) (\<lambda>m3.
                 Inr (m3, Inr (if display_finalized options
                               then Some (''FINALIZED block'', block_number b, length extrinsics)
                               else None)))))
           else
             Inr (m, Inr (if display_best options
                          then Some (''     BEST block'', block_number b, length extrinsics)
                          else None))))"

subsection \<open>Registering a listener\<close>

text \<open>
  \<open>HashMap::insert\<close> drops the sender it replaces. The set of hashes that expire at a block is a list
  without duplicates.
\<close>

definition set_insert :: "'a \<Rightarrow> 'a list \<Rightarrow> 'a list" where
  "set_insert x xs = (if x \<in> set xs then xs else xs @ [x])"

definition handle_request ::
    "'h \<Rightarrow> u64 option \<Rightarrow> listener \<Rightarrow> ('e, 'h) monitor \<Rightarrow> ('e, 'h) monitor" where
  "handle_request h valid_until l m =
     (let m1 = (case callbacks m h of None \<Rightarrow> m | Some old \<Rightarrow> drop_sender old m);
          m2 = m1\<lparr>callbacks := (callbacks m1)(h \<mapsto> l)\<rparr>
      in case valid_until of
           None \<Rightarrow> m2
         | Some till \<Rightarrow>
             m2\<lparr>mortal_accounting := (mortal_accounting m2)(till \<mapsto>
                set_insert h (case mortal_accounting m2 till of None \<Rightarrow> [] | Some t \<Rightarrow> t))\<rparr>)"

subsection \<open>The loop of the monitor task\<close>

text \<open>
  One iteration of the \<open>select!\<close> loop takes one of these inputs. \<open>No_Branch\<close> is the case that no branch's
  pattern matches (the subscriptions and the request channel are closed), where \<open>select!\<close> panics. The
  loop ends on an error of \<open>handle_block\<close>, and never otherwise.
\<close>

datatype ('x, 'h) mon_input =
    Finalized_Block "('x, 'h) block"
  | Best_Block "('x, 'h) block"
  | Listener_Request 'h "u64 option" listener
  | No_Branch

fun monitor_iteration ::
    "display_options \<Rightarrow> ('x, 'h) mon_input \<Rightarrow> ('e, 'h) monitor \<Rightarrow> (('e, 'h) monitor \<times> ('x + unit)) res" where
  "monitor_iteration options (Finalized_Block b) m =
     res_bind (handle_block options True b m) (\<lambda>(m', r). Inr (m', map_sum id (\<lambda>_. ()) r))"
| "monitor_iteration options (Best_Block b) m =
     res_bind (handle_block options False b m) (\<lambda>(m', r). Inr (m', map_sum id (\<lambda>_. ()) r))"
| "monitor_iteration options (Listener_Request h valid_until l) m =
     Inr (handle_request h valid_until l m, Inr ())"
| "monitor_iteration options No_Branch m =
     Inl (Panic ''all branches are disabled and there is no else branch'')"

fun block_monitor_inner ::
    "display_options \<Rightarrow> ('x, 'h) mon_input list \<Rightarrow> ('e, 'h) monitor \<Rightarrow> (('e, 'h) monitor \<times> ('x + unit)) res" where
  "block_monitor_inner options [] m = Inr (m, Inr ())"
| "block_monitor_inner options (i # is) m =
     res_bind (monitor_iteration options i m) (\<lambda>(m', r).
       case r of Inl e \<Rightarrow> Inr (m', Inl e) | Inr _ \<Rightarrow> block_monitor_inner options is m')"

text \<open>
  What \<open>wait\<close> returns once its channel has changed: the answer, or the error for a lost sender, whose
  text (\<open>recv_error\<close>) is tokio's. \<open>None\<close>: it is still waiting.
\<close>

fun wait_result :: "string \<Rightarrow> ('e, 'h) oneshot \<Rightarrow> ('e error + 'h) option" where
  "wait_result recv_error (Delivered r) = Some r"
| "wait_result recv_error Sender_Dropped =
     Some (Inl (Other (''failed while waiting for tx finalization: '' @ recv_error)))"
| "wait_result recv_error Waiting = None"
| "wait_result recv_error Receiver_Dropped = None"

subsection \<open>The invariant\<close>

text \<open>
  The callbacks are the open channels of different listeners.
\<close>

definition monitor_ok :: "('e, 'h) monitor \<Rightarrow> bool" where
  "monitor_ok m \<longleftrightarrow> inj_on (callbacks m) (dom (callbacks m)) \<and>
     (\<forall>h l. callbacks m h = Some l \<longrightarrow> channels m l = Some Waiting)"

lemma monitor_okD: "monitor_ok m \<Longrightarrow> callbacks m h = Some l \<Longrightarrow> channels m l = Some Waiting"
  by (simp add: monitor_ok_def)

lemma monitor_ok_inj:
  "monitor_ok m \<Longrightarrow> callbacks m h = Some l \<Longrightarrow> callbacks m h' = Some l \<Longrightarrow> h = h'"
  unfolding monitor_ok_def by (metis domI inj_onD)

lemma monitor_ok_take:
  assumes "monitor_ok m" and "callbacks m h = Some l"
  shows "monitor_ok (m\<lparr>callbacks := (callbacks m)(h := None), channels := (channels m)(l \<mapsto> c)\<rparr>)"
  unfolding monitor_ok_def
proof (intro conjI allI impI)
  let ?cb = "(callbacks m)(h := None)"
  have "inj_on ?cb (dom ?cb)" if "inj_on (callbacks m) (dom (callbacks m))"
    using that by (auto simp: inj_on_def)
  then show "inj_on (callbacks (m\<lparr>callbacks := ?cb, channels := (channels m)(l \<mapsto> c)\<rparr>))
     (dom (callbacks (m\<lparr>callbacks := ?cb, channels := (channels m)(l \<mapsto> c)\<rparr>)))"
    using assms(1) by (simp add: monitor_ok_def)
  fix h' l'
  assume "callbacks (m\<lparr>callbacks := ?cb, channels := (channels m)(l \<mapsto> c)\<rparr>) h' = Some l'"
  then have "h' \<noteq> h" and cb: "callbacks m h' = Some l'" by (auto split: if_splits)
  then have "l' \<noteq> l" using assms by (metis monitor_ok_inj)
  then show "channels (m\<lparr>callbacks := ?cb, channels := (channels m)(l \<mapsto> c)\<rparr>) l' = Some Waiting"
    using cb assms(1) by (simp add: monitor_okD)
qed

text \<open>The listener that the callback of some hash of a list belongs to.\<close>

definition listens :: "('e, 'h) monitor \<Rightarrow> 'h set \<Rightarrow> listener \<Rightarrow> bool" where
  "listens m H l \<longleftrightarrow> (\<exists>h \<in> H. callbacks m h = Some l)"

lemma notify_spec:
  assumes "monitor_ok m"
  shows "\<exists>m'. notify v hs m = Inr m' \<and> monitor_ok m' \<and>
    callbacks m' = callbacks m |` (- set hs) \<and> mortal_accounting m' = mortal_accounting m \<and>
    channels m' = (\<lambda>l. if listens m (set hs) l then Some (Delivered v) else channels m l)"
  using assms
proof (induction hs arbitrary: m)
  case Nil
  then show ?case by (simp add: listens_def)
next
  case (Cons h hs)
  show ?case
  proof (cases "callbacks m h")
    case None
    from Cons.IH [OF Cons.prems] obtain m' where m': "notify v hs m = Inr m'" "monitor_ok m'"
      "callbacks m' = callbacks m |` (- set hs)" "mortal_accounting m' = mortal_accounting m"
      "channels m' = (\<lambda>l. if listens m (set hs) l then Some (Delivered v) else channels m l)"
      by blast
    have "callbacks m |` (- set hs) = callbacks m |` (- set (h # hs))"
      using None by (auto simp: restrict_map_def fun_eq_iff)
    moreover have "listens m (set (h # hs)) = listens m (set hs)"
      using None by (auto simp: listens_def fun_eq_iff)
    ultimately show ?thesis using m' None by simp
  next
    case (Some l)
    let ?m1 = "m\<lparr>callbacks := (callbacks m)(h := None), channels := (channels m)(l \<mapsto> Delivered v)\<rparr>"
    have ok1: "monitor_ok ?m1" using Cons.prems Some by (rule monitor_ok_take)
    from Cons.IH [OF ok1] obtain m' where m': "notify v hs ?m1 = Inr m'" "monitor_ok m'"
      "callbacks m' = callbacks ?m1 |` (- set hs)" "mortal_accounting m' = mortal_accounting ?m1"
      "channels m' = (\<lambda>l. if listens ?m1 (set hs) l then Some (Delivered v) else channels ?m1 l)"
      by blast
    have "notify v (h # hs) m = notify v hs ?m1"
      using Some monitor_okD [OF Cons.prems Some] by (simp add: trigger_send_def)
    moreover have "callbacks ?m1 |` (- set hs) = callbacks m |` (- set (h # hs))"
      by (auto simp: restrict_map_def fun_eq_iff)
    moreover have "(if listens ?m1 (set hs) l' then Some (Delivered v) else channels ?m1 l') =
        (if listens m (set (h # hs)) l' then Some (Delivered v) else channels m l')" for l'
      using Some by (auto simp: listens_def)
    ultimately show ?thesis using m' by simp
  qed
qed

definition expiring :: "('e, 'h) monitor \<Rightarrow> u64 \<Rightarrow> 'h list" where
  "expiring m n = (case mortal_accounting m n of None \<Rightarrow> [] | Some t \<Rightarrow> t)"

lemma finalized_block_handled:
  assumes "monitor_ok m" and "block_extrinsics b = Inr extrinsics"
  shows "\<exists>m' line. handle_block options True b m = Inr (m', Inr line) \<and> monitor_ok m' \<and>
    callbacks m' = callbacks m |` (- (set extrinsics \<union> set (expiring m (block_number b)))) \<and>
    mortal_accounting m' = (mortal_accounting m)(block_number b := None) \<and>
    channels m' = (\<lambda>l.
      if listens m (set extrinsics) l then Some (Delivered (Inr (block_hash b)))
      else if listens m (set (expiring m (block_number b))) l
        then Some (Delivered (Inl (MortalLifetimeSurpassed (block_number b))))
      else channels m l)"
proof -
  let ?n = "block_number b" and ?E = "set extrinsics" and ?T = "set (expiring m (block_number b))"
  obtain m1 where m1: "notify (Inr (block_hash b)) extrinsics m = Inr m1" "monitor_ok m1"
    "callbacks m1 = callbacks m |` (- ?E)" "mortal_accounting m1 = mortal_accounting m"
    "channels m1 = (\<lambda>l. if listens m ?E l then Some (Delivered (Inr (block_hash b))) else channels m l)"
    using notify_spec [OF assms(1)] by blast
  let ?m2 = "m1\<lparr>mortal_accounting := (mortal_accounting m1)(?n := None)\<rparr>"
  have "monitor_ok ?m2" using m1(2) by (simp add: monitor_ok_def)
  then obtain m3 where m3: "notify (Inl (MortalLifetimeSurpassed ?n)) (expiring m ?n) ?m2 = Inr m3" "monitor_ok m3"
    "callbacks m3 = callbacks ?m2 |` (- ?T)" "mortal_accounting m3 = mortal_accounting ?m2"
    "channels m3 = (\<lambda>l. if listens ?m2 ?T l then Some (Delivered (Inl (MortalLifetimeSurpassed ?n)))
       else channels ?m2 l)"
    using notify_spec by blast
  have run: "\<exists>line. handle_block options True b m = Inr (m3, Inr line)"
    using m1(1,4) m3(1) by (simp add: handle_block_def assms(2) expiring_def)
  have cb: "callbacks m3 = callbacks m |` (- (?E \<union> ?T))"
    using m1(3) m3(3) by (simp add: restrict_restrict)
  have rest: "listens ?m2 ?T l \<longleftrightarrow> (\<exists>h \<in> ?T. h \<notin> ?E \<and> callbacks m h = Some l)" for l
    by (auto simp: listens_def m1(3) restrict_map_def split: if_splits)
  have "listens ?m2 ?T l \<longleftrightarrow> listens m ?T l" if "\<not> listens m ?E l" for l
    using that unfolding rest by (auto simp: listens_def)
  moreover have "\<not> listens ?m2 ?T l" if "listens m ?E l" for l
    unfolding rest using that monitor_ok_inj [OF assms(1)] by (simp add: listens_def) blast
  ultimately have "channels m3 = (\<lambda>l. if listens m ?E l then Some (Delivered (Inr (block_hash b)))
      else if listens m ?T l then Some (Delivered (Inl (MortalLifetimeSurpassed ?n))) else channels m l)"
    by (auto simp: m3(5) m1(5) fun_eq_iff)
  with run m3 cb m1(4) show ?thesis by auto
qed

text \<open>
  What handling a finalized block does. It never panics while the receivers are alive; every
  listener of a transaction of the block is told the hash of the block, every other listener of a
  transaction that expires at the block is told that its lifetime has passed, nobody else is told
  anything, and exactly the answered callbacks and the expiry entry of the block are gone.
\<close>

theorem handle_block_finalized:
  assumes "monitor_ok m" and "block_extrinsics b = Inr extrinsics"
  shows "\<exists>m' line. handle_block options True b m = Inr (m', Inr line) \<and> monitor_ok m' \<and>
    callbacks m' = callbacks m |` (- (set extrinsics \<union> set (expiring m (block_number b)))) \<and>
    mortal_accounting m' = (mortal_accounting m)(block_number b := None) \<and>
    channels m' = (\<lambda>l.
      if listens m (set extrinsics) l then Some (Delivered (Inr (block_hash b)))
      else if listens m (set (expiring m (block_number b))) l
        then Some (Delivered (Inl (MortalLifetimeSurpassed (block_number b))))
      else channels m l)"
  by (rule finalized_block_handled [OF assms])

subsection \<open>The monitor implements the finalization of a listener\<close>

text \<open>
  The specification, without callbacks or accounting: the answer to a listener for \<open>h\<close> is the first
  finalized block after its registration that either contains \<open>h\<close> or has the number at which \<open>h\<close>
  expires.
\<close>

fun resolve :: "'h \<Rightarrow> u64 option \<Rightarrow> ('x, 'h) mon_input \<Rightarrow> ('e error + 'h) option" where
  "resolve h valid_until (Finalized_Block b) =
     (case block_extrinsics b of
        Inl _ \<Rightarrow> None
      | Inr hs \<Rightarrow>
          if h \<in> set hs then Some (Inr (block_hash b))
          else if valid_until = Some (block_number b)
            then Some (Inl (MortalLifetimeSurpassed (block_number b)))
          else None)"
| "resolve h valid_until _ = None"

definition outcome :: "'h \<Rightarrow> u64 option \<Rightarrow> ('x, 'h) mon_input list \<Rightarrow> ('e error + 'h) option" where
  "outcome h valid_until is = find_map (resolve h valid_until) is"

fun request_hash :: "('x, 'h) mon_input \<Rightarrow> 'h option" where
  "request_hash (Listener_Request h _ _) = Some h"
| "request_hash _ = None"

fun request_listener :: "('x, 'h) mon_input \<Rightarrow> listener option" where
  "request_listener (Listener_Request _ _ l) = Some l"
| "request_listener _ = None"

fun good_input :: "('x, 'h) mon_input \<Rightarrow> bool" where
  "good_input (Finalized_Block b) = (\<exists>hs. block_extrinsics b = Inr hs)"
| "good_input (Best_Block b) = (\<exists>hs. block_extrinsics b = Inr hs)"
| "good_input (Listener_Request _ _ _) = True"
| "good_input No_Branch = False"

definition ready :: "('e, 'h) monitor \<Rightarrow> ('x, 'h) mon_input list \<Rightarrow> bool" where
  "ready m is \<longleftrightarrow> monitor_ok m \<and> (\<forall>i \<in> set is. good_input i) \<and>
     distinct (filter_map request_hash is) \<and> distinct (filter_map request_listener is) \<and>
     (\<forall>h \<in> set (filter_map request_hash is). callbacks m h = None \<and> (\<forall>n. h \<notin> set (expiring m n))) \<and>
     (\<forall>l \<in> set (filter_map request_listener is). channels m l = Some Waiting \<and> l \<notin> ran (callbacks m))"

definition active :: "('e, 'h) monitor \<Rightarrow> 'h \<Rightarrow> u64 option \<Rightarrow> listener \<Rightarrow> bool" where
  "active m h valid_until l \<longleftrightarrow>
     callbacks m h = Some l \<and> (\<forall>n. h \<in> set (expiring m n) \<longleftrightarrow> valid_until = Some n)"

lemma ready_finalized:
  assumes "ready m (Finalized_Block b # is)"
  shows "\<exists>m'. monitor_iteration options (Finalized_Block b) m = Inr (m', Inr ()) \<and> ready m' is \<and>
    (\<forall>h vu l. active m h vu l \<longrightarrow> (case resolve h vu (Finalized_Block b :: ('x, 'h) mon_input) of
        None \<Rightarrow> active m' h vu l | Some r \<Rightarrow> channels m' l = Some (Delivered r))) \<and>
    (\<forall>l r. channels m l = Some (Delivered r) \<longrightarrow> channels m' l = Some (Delivered r))"
proof -
  have ok: "monitor_ok m" using assms by (simp add: ready_def)
  obtain hs where hs: "block_extrinsics b = Inr hs" using assms by (auto simp: ready_def)
  let ?n = "block_number b"
  from finalized_block_handled [OF ok hs, of options] obtain m' line where
    run: "handle_block options True b m = Inr (m', Inr line)" and ok': "monitor_ok m'" and
    cb: "callbacks m' = callbacks m |` (- (set hs \<union> set (expiring m ?n)))" and
    mort: "mortal_accounting m' = (mortal_accounting m)(?n := None)" and
    chan: "channels m' = (\<lambda>l.
      if listens m (set hs) l then Some (Delivered (Inr (block_hash b)))
      else if listens m (set (expiring m ?n)) l
        then Some (Delivered (Inl (MortalLifetimeSurpassed ?n)))
      else channels m l)"
    by blast
  have exp: "expiring m' n = (if n = ?n then [] else expiring m n)" for n
    by (simp add: expiring_def mort)
  have idle: "channels m' l = channels m l" if "l \<notin> ran (callbacks m)" for l
    using that by (auto simp: chan listens_def ran_def)
  have ran: "ran (callbacks m') \<subseteq> ran (callbacks m)"
    by (auto simp: cb ran_def restrict_map_def split: if_splits)
  have ready': "ready m' is"
    using assms ok' ran idle by (auto simp: ready_def exp cb restrict_map_def)
  have listens: "listens m H l \<longleftrightarrow> h \<in> H" if "callbacks m h = Some l" for h l H
    using that monitor_ok_inj [OF ok] by (auto simp: listens_def)
  have act: "case resolve h vu (Finalized_Block b :: ('x, 'h) mon_input) of
      None \<Rightarrow> active m' h vu l | Some r \<Rightarrow> channels m' l = Some (Delivered r)"
    if a: "active m h vu l" for h vu l
  proof -
    have h: "callbacks m h = Some l" and e: "\<And>n. h \<in> set (expiring m n) \<longleftrightarrow> vu = Some n"
      using a by (auto simp: active_def)
    show ?thesis using e [of ?n]
      by (auto simp: hs chan listens [OF h] active_def exp cb restrict_map_def h e)
  qed
  have "channels m' l = Some (Delivered r)" if "channels m l = Some (Delivered r)" for l r
  proof -
    have "l \<notin> ran (callbacks m)" using that monitor_okD [OF ok] by (auto simp: ran_def)
    with idle that show ?thesis by simp
  qed
  with run ready' act show ?thesis by (intro exI [of _ m']) simp
qed

lemma ready_best:
  assumes "ready m (Best_Block b # is)"
  shows "monitor_iteration options (Best_Block b) m = Inr (m, Inr ()) \<and> ready m is"
proof -
  obtain hs where "block_extrinsics b = Inr hs" using assms by (auto simp: ready_def)
  then show ?thesis using assms by (simp add: handle_block_def ready_def)
qed

lemma expiring_request:
  "expiring (handle_request h vu l m) n =
     (if vu = Some n then set_insert h (expiring m n) else expiring m n)"
  by (auto simp: expiring_def handle_request_def Let_def drop_sender_def split: option.splits)

lemma handle_request_fresh:
  "callbacks m h = None \<Longrightarrow> callbacks (handle_request h vu l m) = (callbacks m)(h \<mapsto> l) \<and>
     channels (handle_request h vu l m) = channels m"
  by (auto simp: handle_request_def Let_def split: option.splits)

lemma ready_request:
  assumes "ready m (Listener_Request h vu l # is)"
  defines "m' \<equiv> handle_request h vu l m"
  shows "ready m' is \<and> active m' h vu l \<and>
    (\<forall>h1 vu1 l1. active m h1 vu1 l1 \<longrightarrow> active m' h1 vu1 l1) \<and> channels m' = channels m"
proof -
  have ok: "monitor_ok m" and h: "callbacks m h = None" and noexp: "\<And>n. h \<notin> set (expiring m n)"
    and l: "channels m l = Some Waiting" "l \<notin> ran (callbacks m)"
    using assms(1) by (auto simp: ready_def)
  have cb: "callbacks m' = (callbacks m)(h \<mapsto> l)" and chan: "channels m' = channels m"
    using handle_request_fresh [OF h] by (simp_all add: m'_def)
  have exp: "set (expiring m' n) = (if vu = Some n then insert h (set (expiring m n)) else set (expiring m n))" for n
    by (auto simp: m'_def expiring_request set_insert_def)
  have "monitor_ok m'"
    using ok l(2) by (auto simp: monitor_ok_def cb chan l(1) inj_on_def dom_def ran_def)
  then have ready': "ready m' is"
    using assms(1) by (auto simp: ready_def cb chan exp ran_def split: if_splits)
  have "active m' h vu l" using noexp by (auto simp: active_def cb exp)
  moreover have "active m' h1 vu1 l1" if "active m h1 vu1 l1" for h1 vu1 l1
  proof -
    have "h1 \<noteq> h" using that h by (auto simp: active_def)
    then show ?thesis using that by (simp add: active_def cb exp)
  qed
  ultimately show ?thesis using ready' chan by blast
qed

lemma outcome_Cons:
  "outcome h vu (i # is) = (case resolve h vu i of None \<Rightarrow> outcome h vu is | Some r \<Rightarrow> Some r)"
  by (simp add: outcome_def split: option.split)

lemma monitor_run_ready:
  assumes "ready m is"
  shows "\<exists>m'. block_monitor_inner options is m = Inr (m', Inr ()) \<and>
    (\<forall>h vu l. active m h vu l \<longrightarrow>
       channels m' l = Some (case outcome h vu is of None \<Rightarrow> Waiting | Some r \<Rightarrow> Delivered r)) \<and>
    (\<forall>l r. channels m l = Some (Delivered r) \<longrightarrow> channels m' l = Some (Delivered r))"
  using assms
proof (induction "is" arbitrary: m)
  case Nil
  then have "channels m l = Some Waiting" if "active m h vu l" for h vu l
    using that monitor_okD by (auto simp: ready_def active_def)
  then show ?case by (simp add: outcome_def)
next
  case (Cons i "is")
  have "\<exists>m1. monitor_iteration options i m = Inr (m1, Inr ()) \<and> ready m1 is \<and>
    (\<forall>h vu l. active m h vu l \<longrightarrow> (case resolve h vu i of
        None \<Rightarrow> active m1 h vu l | Some r \<Rightarrow> channels m1 l = Some (Delivered r))) \<and>
    (\<forall>l r. channels m l = Some (Delivered r) \<longrightarrow> channels m1 l = Some (Delivered r))"
  proof (cases i)
    case (Finalized_Block b)
    then show ?thesis using ready_finalized [of m b "is" options] Cons.prems by simp
  next
    case (Best_Block b)
    then show ?thesis using ready_best [of m b "is" options] Cons.prems by auto
  next
    case (Listener_Request h vu l)
    then show ?thesis using ready_request [of m h vu l "is"] Cons.prems by auto
  next
    case No_Branch
    then show ?thesis using Cons.prems by (simp add: ready_def)
  qed
  then obtain m1 where step: "monitor_iteration options i m = Inr (m1, Inr ())" and ready1: "ready m1 is"
    and act: "\<And>h vu l. active m h vu l \<Longrightarrow> (case resolve h vu i of
        None \<Rightarrow> active m1 h vu l | Some r \<Rightarrow> channels m1 l = Some (Delivered r))"
    and kept: "\<And>l r. channels m l = Some (Delivered r) \<Longrightarrow> channels m1 l = Some (Delivered r)"
    by blast
  from Cons.IH [OF ready1] obtain m' where run: "block_monitor_inner options is m1 = Inr (m', Inr ())"
    and act': "\<And>h vu l. active m1 h vu l \<Longrightarrow>
       channels m' l = Some (case outcome h vu is of None \<Rightarrow> Waiting | Some r \<Rightarrow> Delivered r)"
    and kept': "\<And>l r. channels m1 l = Some (Delivered r) \<Longrightarrow> channels m' l = Some (Delivered r)"
    by blast
  have "channels m' l = Some (case outcome h vu (i # is) of None \<Rightarrow> Waiting | Some r \<Rightarrow> Delivered r)"
    if "active m h vu l" for h vu l
  proof (cases "resolve h vu i :: ('a error + 'b) option")
    case None
    then show ?thesis using act [OF that] act' by (simp add: outcome_Cons)
  next
    case (Some r)
    then show ?thesis using act [OF that] kept' by (simp add: outcome_Cons)
  qed
  with step run kept kept' show ?case by (intro exI [of _ m']) simp
qed

lemma block_monitor_inner_append:
  assumes "block_monitor_inner options xs m = Inr (m1, Inr ())"
  shows "block_monitor_inner options (xs @ ys) m = block_monitor_inner options ys m1"
  using assms
proof (induction xs arbitrary: m)
  case (Cons x xs)
  then obtain m2 r where step: "monitor_iteration options x m = Inr (m2, r)"
    and rest: "(case r of Inl e \<Rightarrow> Inr (m2, Inl e) | Inr _ \<Rightarrow> block_monitor_inner options xs m2) =
      Inr (m1, Inr ())"
    by (auto simp: res_bind_eq_Inr)
  then show ?case using Cons.IH [of m2] by (cases r) simp_all
qed simp

lemma ready_run_prefix:
  assumes "ready m (xs @ ys)"
  shows "\<exists>m1. block_monitor_inner options xs m = Inr (m1, Inr ()) \<and> ready m1 ys"
  using assms
proof (induction xs arbitrary: m)
  case (Cons i xs)
  have "\<exists>m1. monitor_iteration options i m = Inr (m1, Inr ()) \<and> ready m1 (xs @ ys)"
  proof (cases i)
    case (Finalized_Block b)
    then show ?thesis using ready_finalized [of m b "xs @ ys" options] Cons.prems by auto
  next
    case (Best_Block b)
    then show ?thesis using ready_best [of m b "xs @ ys" options] Cons.prems by auto
  next
    case (Listener_Request h vu l)
    then show ?thesis using ready_request [of m h vu l "xs @ ys"] Cons.prems by auto
  next
    case No_Branch
    then show ?thesis using Cons.prems by (simp add: ready_def)
  qed
  then obtain m1 where "monitor_iteration options i m = Inr (m1, Inr ())" "ready m1 (xs @ ys)" by blast
  with Cons.IH [OF this(2)] show ?case by auto
qed simp

lemma monitor_outcome:
  assumes "is = pre @ Listener_Request h valid_until l # post"
    and "\<forall>i \<in> set is. good_input i"
    and "distinct (filter_map request_hash is)" and "distinct (filter_map request_listener is)"
    and "\<forall>l \<in> set (filter_map request_listener is). chans l = Some Waiting"
  shows "\<exists>m'. block_monitor_inner options is (monitor_start chans) = Inr (m', Inr ()) \<and>
    channels m' l = Some (case outcome h valid_until post of None \<Rightarrow> Waiting | Some r \<Rightarrow> Delivered r)"
proof -
  have "ready (monitor_start chans) is"
    using assms(2-5) by (simp add: ready_def monitor_start_def monitor_ok_def expiring_def)
  then obtain m1 where m1: "block_monitor_inner options pre (monitor_start chans) = Inr (m1, Inr ())"
    and ready1: "ready m1 (Listener_Request h valid_until l # post)"
    using ready_run_prefix unfolding assms(1) by blast
  let ?m2 = "handle_request h valid_until l m1"
  have "ready ?m2 post" "active ?m2 h valid_until l"
    using ready_request [OF ready1] by auto
  with monitor_run_ready [of ?m2 post options] obtain m' where
    "block_monitor_inner options post ?m2 = Inr (m', Inr ())"
    "channels m' l = Some (case outcome h valid_until post of None \<Rightarrow> Waiting | Some r \<Rightarrow> Delivered r)"
    by blast
  then show ?thesis
    unfolding assms(1) block_monitor_inner_append [OF m1] by simp
qed

text \<open>
  C11: the monitor refines its specification. Whatever finalized and best blocks and other requests are
  interleaved, when every transaction is registered once, the channel of a listener that registered
  \<open>h\<close> with a given expiry ends up holding exactly the specified outcome over the inputs after its
  registration: the first finalized block with \<open>h\<close> in it, or the end of its lifetime, whichever comes
  first, and it is still waiting when neither came. Best blocks answer nobody, and inputs before the
  registration do not matter.
\<close>

theorem monitor_refines_outcome:
  assumes "is = pre @ Listener_Request h valid_until l # post"
    and "\<forall>i \<in> set is. good_input i"
    and "distinct (filter_map request_hash is)" and "distinct (filter_map request_listener is)"
    and "\<forall>l \<in> set (filter_map request_listener is). chans l = Some Waiting"
  shows "\<exists>m'. block_monitor_inner options is (monitor_start chans) = Inr (m', Inr ()) \<and>
    channels m' l = Some (case outcome h valid_until post of None \<Rightarrow> Waiting | Some r \<Rightarrow> Delivered r)"
  using assms by (rule monitor_outcome)

definition example_block :: "u64 \<Rightarrow> nat \<Rightarrow> nat list \<Rightarrow> (unit, nat) block" where
  "example_block n bh hs = \<lparr>block_number = n, block_hash = bh, block_extrinsics = Inr hs\<rparr>"

theorem monitor_refines_outcome_witness:
  "\<exists>m' :: (unit, nat) monitor. block_monitor_inner All_Blocks
      [Finalized_Block (example_block 1 101 [7]), Listener_Request 7 (Some 3) 0, Listener_Request 8 None 1,
       Best_Block (example_block 2 102 [7]), Finalized_Block (example_block 2 102 [8]),
       Finalized_Block (example_block 3 103 [9])]
      (monitor_start [0 \<mapsto> Waiting, 1 \<mapsto> Waiting]) = Inr (m', Inr ()) \<and>
    channels m' 0 = Some (Delivered (Inl (MortalLifetimeSurpassed 3)))"
proof -
  let ?post = "[Listener_Request 8 None 1,
       Best_Block (example_block 2 102 [7]), Finalized_Block (example_block 2 102 [8]),
       Finalized_Block (example_block 3 103 [9])]"
  let ?is = "[Finalized_Block (example_block 1 101 [7])] @ Listener_Request 7 (Some 3) 0 # ?post"
  have "\<exists>m' :: (unit, nat) monitor.
      block_monitor_inner All_Blocks ?is (monitor_start [0 \<mapsto> Waiting, 1 \<mapsto> Waiting]) = Inr (m', Inr ()) \<and>
      channels m' 0 = Some (case outcome 7 (Some 3) ?post of None \<Rightarrow> Waiting | Some r \<Rightarrow> Delivered r)"
    by (rule monitor_refines_outcome [OF refl]) (simp_all add: example_block_def)
  then show ?thesis by (simp add: outcome_def example_block_def)
qed

text \<open>
  The accounting of expiry outlives the callback: an entry is only removed when its block is finalized.
  A transaction that is found, and whose hash is registered again later without an expiry, is reported
  as expired at the old block.
\<close>

lemma stale_expiry:
  "\<exists>m' :: (unit, nat) monitor. block_monitor_inner All_Blocks
      [Listener_Request 7 (Some 3) 0, Finalized_Block (example_block 1 101 [7]),
       Listener_Request 7 None 1, Finalized_Block (example_block 3 103 [])]
      (monitor_start [0 \<mapsto> Waiting, 1 \<mapsto> Waiting]) = Inr (m', Inr ()) \<and>
    channels m' 0 = Some (Delivered (Inr 101)) \<and>
    channels m' 1 = Some (Delivered (Inl (MortalLifetimeSurpassed 3)))"
  by (simp add: monitor_start_def handle_request_def handle_block_def example_block_def trigger_send_def
      set_insert_def)

theorem handle_block_finalized_witness:
  "\<exists>m' line. handle_block Best True (example_block 3 103 [7])
      (\<lparr>callbacks = [7 \<mapsto> 0, 8 \<mapsto> 1, 9 \<mapsto> 2], mortal_accounting = [3 \<mapsto> [7, 8]],
        channels = [0 \<mapsto> Waiting, 1 \<mapsto> Waiting, 2 \<mapsto> Waiting]\<rparr> :: (unit, nat) monitor) = Inr (m', Inr line) \<and>
    channels m' 0 = Some (Delivered (Inr 103)) \<and>
    channels m' 1 = Some (Delivered (Inl (MortalLifetimeSurpassed 3))) \<and> channels m' 2 = Some Waiting"
proof -
  let ?m = "\<lparr>callbacks = [7 \<mapsto> 0, 8 \<mapsto> 1, 9 \<mapsto> 2], mortal_accounting = [3 \<mapsto> [7, 8]],
        channels = [0 \<mapsto> Waiting, 1 \<mapsto> Waiting, 2 \<mapsto> Waiting]\<rparr> :: (unit, nat) monitor"
  have ok: "monitor_ok ?m" by (auto simp: monitor_ok_def inj_on_def split: if_splits)
  have ex: "block_extrinsics (example_block 3 103 [7]) = Inr [7]" by (simp add: example_block_def)
  have "listens ?m {7} 0" "\<not> listens ?m {7} 1" "\<not> listens ?m {7} 2" "listens ?m {7, 8} 1"
    "\<not> listens ?m {7, 8} 2"
    by (simp_all add: listens_def)
  moreover have "expiring ?m 3 = [7, 8]" by (simp add: expiring_def)
  ultimately show ?thesis
    using handle_block_finalized [OF ok ex, of Best] by (auto simp: example_block_def)
qed

end
