(* ===== verification/Monitor_Client.thy ===== *)
theory Monitor_Client
  imports Block_Monitor
begin

section \<open>The block monitor and its clients\<close>

text \<open>
  The rest of \<open>src/block_monitor.rs\<close>: the start of the monitor's task (\<open>new\<close>, \<open>new_with_options\<close>, \<open>run\<close>), the
  bounded channel on which clients register (\<open>register_listener\<close>), and what becomes of the registered
  clients when the task ends. The task owns the sending ends of all one-shot channels that it has not
  answered, in its callbacks or in the channel of requests; when it ends, by an error or by a panic, they
  are dropped, and every waiting client is woken with an error.
\<close>

subsection \<open>The state and its start\<close>

definition queue_capacity :: nat where
  "queue_capacity = 100"

record ('e, 'h) monitor_system =
  task_options :: display_options
  task_monitor :: "('e, 'h) monitor"
  task_running :: bool
  request_queue :: "('h \<times> u64 option \<times> listener) list"
  next_listener :: listener

definition new_with_options :: "'x + unit \<Rightarrow> display_options \<Rightarrow> ('e, 'h) monitor_system res" where
  "new_with_options connection options =
     res_bind (expect_ok ''should connect to rpc client'' connection) (\<lambda>_.
     Inr \<lparr>task_options = options, task_monitor = monitor_start Map.empty, task_running = True, request_queue = [],
       next_listener = 0\<rparr>)"

definition block_monitor_new :: "'x + unit \<Rightarrow> ('e, 'h) monitor_system res" where
  "block_monitor_new connection =
     res_bind (expect_ok ''should connect to rpc client'' connection) (\<lambda>_.
     Inr \<lparr>task_options = All_Blocks, task_monitor = monitor_start Map.empty, task_running = True, request_queue = [],
       next_listener = 0\<rparr>)"

subsection \<open>Registering\<close>

text \<open>
  A registration makes a new one-shot channel and sends its sender to the task. \<open>Inr None\<close>: the channel of
  requests is full, and \<open>send\<close> waits. When the task is gone, \<open>send\<close> fails and is unwrapped.
\<close>

definition register_listener ::
    "'h \<Rightarrow> u64 option \<Rightarrow> ('e, 'h) monitor_system \<Rightarrow> (listener \<times> ('e, 'h) monitor_system) option res" where
  "register_listener h valid_until s =
     (if \<not> task_running s then Inl Unwrap_Failed
      else if length (request_queue s) < queue_capacity then
        (let l = next_listener s; m = task_monitor s
         in Inr (Some (l, s\<lparr>task_monitor := m\<lparr>channels := (channels m)(l \<mapsto> Waiting)\<rparr>,
              request_queue := request_queue s @ [(h, valid_until, l)], next_listener := Suc l\<rparr>)))
      else Inr None)"

subsection \<open>The end of the task\<close>

definition owned_senders :: "('e, 'h) monitor_system \<Rightarrow> listener set" where
  "owned_senders s = ran (callbacks (task_monitor s)) \<union> set (map (snd \<circ> snd) (request_queue s))"

definition task_end :: "('e, 'h) monitor_system \<Rightarrow> ('e, 'h) monitor_system" where
  "task_end s =
     s\<lparr>task_monitor := \<lparr>callbacks = Map.empty, mortal_accounting = Map.empty,
         channels = (\<lambda>l. if channels (task_monitor s) l = Some Waiting \<and> l \<in> owned_senders s
           then Some Sender_Dropped else channels (task_monitor s) l)\<rparr>,
       task_running := False, request_queue := []\<rparr>"

text \<open>
  The state that \<open>handle_block\<close> leaves, also when it panics because a client has given up waiting: the
  callbacks taken and the answers sent up to the panic.
\<close>

fun notified :: "'e error + 'h \<Rightarrow> 'h list \<Rightarrow> ('e, 'h) monitor \<Rightarrow> ('e, 'h) monitor \<times> bool" where
  "notified v [] m = (m, True)"
| "notified v (h # hs) m =
     (case callbacks m h of
        None \<Rightarrow> notified v hs m
      | Some l \<Rightarrow>
          (let m1 = m\<lparr>callbacks := (callbacks m)(h := None)\<rparr>
           in case trigger_send l v m1 of Inl _ \<Rightarrow> (m1, False) | Inr m2 \<Rightarrow> notified v hs m2))"

definition after_block :: "bool \<Rightarrow> ('x, 'h) block \<Rightarrow> ('e, 'h) monitor \<Rightarrow> ('e, 'h) monitor" where
  "after_block finalized b m =
     (case block_extrinsics b of
        Inl _ \<Rightarrow> m
      | Inr extrinsics \<Rightarrow>
          (if finalized then
             (case notified (Inr (block_hash b)) extrinsics m of
                (m1, ok) \<Rightarrow>
                  if ok then fst (notified (Inl (MortalLifetimeSurpassed (block_number b))) (expiring m1 (block_number b))
                    (m1\<lparr>mortal_accounting := (mortal_accounting m1)(block_number b := None)\<rparr>))
                  else m1)
           else m))"

fun after_input :: "('x, 'h) mon_input \<Rightarrow> ('e, 'h) monitor \<Rightarrow> ('e, 'h) monitor" where
  "after_input (Finalized_Block b) m = after_block True b m"
| "after_input (Best_Block b) m = after_block False b m"
| "after_input (Listener_Request h valid_until l) m = handle_request h valid_until l m"
| "after_input No_Branch m = m"

definition task_iteration :: "('x, 'h) mon_input \<Rightarrow> ('e, 'h) monitor_system \<Rightarrow> ('e, 'h) monitor_system" where
  "task_iteration i s =
     (let s' = s\<lparr>task_monitor := after_input i (task_monitor s)\<rparr>
      in case monitor_iteration (task_options s) i (task_monitor s) of
           Inr (_, Inr _) \<Rightarrow> s'
         | _ \<Rightarrow> task_end s')"

subsection \<open>The steps of the system\<close>

text \<open>
  A client registers, or gives up waiting (its future is dropped); the task takes a request, handles a
  block, finds all its sources closed, or cannot subscribe to the blocks.
\<close>

datatype ('x, 'h) system_event =
    Register 'h "u64 option"
  | Give_Up listener
  | Take_Request
  | Handle_Block bool "('x, 'h) block"
  | Sources_Closed
  | Subscribe_Failed 'x

fun system_step :: "('x, 'h) system_event \<Rightarrow> ('e, 'h) monitor_system \<Rightarrow> ('e, 'h) monitor_system option" where
  "system_step (Register h valid_until) s =
     (case register_listener h valid_until s of Inr (Some (_, s')) \<Rightarrow> Some s' | _ \<Rightarrow> None)"
| "system_step (Give_Up l) s =
     (let m = task_monitor s
      in if channels m l = Some Waiting
         then Some (s\<lparr>task_monitor := m\<lparr>channels := (channels m)(l \<mapsto> Receiver_Dropped)\<rparr>\<rparr>) else None)"
| "system_step Take_Request s =
     (if task_running s then
        (case request_queue s of
           [] \<Rightarrow> None
         | (h, valid_until, l) # q \<Rightarrow>
             Some (task_iteration (Listener_Request h valid_until l :: (unit, 'h) mon_input) (s\<lparr>request_queue := q\<rparr>)))
      else None)"
| "system_step (Handle_Block finalized b) s =
     (if task_running s then Some (task_iteration (if finalized then Finalized_Block b else Best_Block b) s) else None)"
| "system_step Sources_Closed s =
     (if task_running s then Some (task_iteration (No_Branch :: (unit, 'h) mon_input) s) else None)"
| "system_step (Subscribe_Failed e) s = (if task_running s then Some (task_end s) else None)"

inductive monitor_system_runs ::
    "display_options \<Rightarrow> ('x, 'h) system_event list \<Rightarrow> ('e, 'h) monitor_system \<Rightarrow> bool"
  for options where
  system_start: "new_with_options (Inr () :: unit + unit) options = Inr s \<Longrightarrow> monitor_system_runs options [] s"
| system_next: "monitor_system_runs options steps s \<Longrightarrow> system_step st s = Some s' \<Longrightarrow>
    monitor_system_runs options (steps @ [st]) s'"

subsection \<open>What the task does to the channels\<close>

lemma notify_notified:
  "notify v hs m = (if snd (notified v hs m) then Inr (fst (notified v hs m)) else Inl Unwrap_Failed)"
  by (induction v hs m rule: notified.induct)
    (auto simp: trigger_send_def Let_def split: option.splits sum.splits if_splits)

lemma after_input_iteration:
  assumes "monitor_iteration options i m = Inr (m', r)"
  shows "after_input i m = m'"
proof (cases i)
  case (Finalized_Block b)
  then show ?thesis
    using assms
    by (auto simp: handle_block_def after_block_def notify_notified expiring_def Let_def res_bind_eq_Inr
        split: sum.splits if_splits prod.splits)
next
  case (Best_Block b)
  then show ?thesis
    using assms by (auto simp: handle_block_def after_block_def res_bind_eq_Inr split: sum.splits)
qed (use assms in auto)

text \<open>
  A step of the task makes and forgets no channel, and takes a sender out of its callbacks only when it
  answers the channel.
\<close>

definition answers_only :: "('e, 'h) monitor \<Rightarrow> ('e, 'h) monitor \<Rightarrow> bool" where
  "answers_only m m' \<longleftrightarrow>
     (\<forall>l. (channels m' l = None \<longleftrightarrow> channels m l = None) \<and>
       (channels m' l = Some Receiver_Dropped \<longrightarrow> channels m l = Some Receiver_Dropped) \<and>
       (channels m' l = Some Waiting \<longrightarrow>
         channels m l = Some Waiting \<and> (l \<in> ran (callbacks m) \<longrightarrow> l \<in> ran (callbacks m'))))"

lemma answers_only_refl [simp]: "answers_only m m"
  by (simp add: answers_only_def)

lemma answers_only_trans: "answers_only m m1 \<Longrightarrow> answers_only m1 m2 \<Longrightarrow> answers_only m m2"
  by (simp add: answers_only_def)

lemma ran_upd_other:
  assumes "l' \<in> ran f" and "f h \<noteq> Some l'"
  shows "l' \<in> ran (f(h := x))"
proof -
  from assms(1) obtain a where a: "f a = Some l'" by (auto simp: ran_def)
  then have "(f(h := x)) a = Some l'" using assms(2) by auto
  then show ?thesis by (rule ranI)
qed

lemma answers_only_notified: "answers_only m (fst (notified v hs m))"
proof (induction v hs m rule: notified.induct)
  case (2 v h hs m)
  show ?case
  proof (cases "callbacks m h")
    case None
    then show ?thesis using 2(1) by simp
  next
    case (Some l)
    let ?m1 = "m\<lparr>callbacks := (callbacks m)(h := None)\<rparr>"
    show ?thesis
    proof (cases "channels m l = Some Waiting")
      case True
      let ?m2 = "?m1\<lparr>channels := (channels m)(l \<mapsto> Delivered v)\<rparr>"
      have send: "trigger_send l v ?m1 = Inr ?m2" using True by (simp add: trigger_send_def)
      have "answers_only m ?m2" using True Some by (auto simp: answers_only_def intro!: ran_upd_other)
      moreover have "answers_only ?m2 (fst (notified v hs ?m2))" using 2(2) [OF Some refl send] .
      ultimately show ?thesis using Some send answers_only_trans by (simp add: Let_def)
    next
      case False
      then have "answers_only m ?m1" using Some by (auto simp: answers_only_def intro!: ran_upd_other)
      then show ?thesis using Some False by (simp add: trigger_send_def Let_def)
    qed
  qed
qed simp

lemma answers_only_accounting [simp]:
  "answers_only m (m1\<lparr>mortal_accounting := acc\<rparr>) = answers_only m m1"
  "answers_only (m1\<lparr>mortal_accounting := acc\<rparr>) m = answers_only m1 m"
  by (simp_all add: answers_only_def)

lemma answers_only_after_block: "answers_only m (after_block finalized b m)"
proof (cases "\<exists>extrinsics. finalized \<and> block_extrinsics b = Inr extrinsics")
  case True
  then obtain hs where b: "block_extrinsics b = Inr hs" and finalized by blast
  define m1 where "m1 = fst (notified (Inr (block_hash b)) hs m)"
  have m1: "answers_only m m1" unfolding m1_def by (rule answers_only_notified)
  let ?m2 = "m1\<lparr>mortal_accounting := (mortal_accounting m1)(block_number b := None)\<rparr>"
  have "answers_only m ?m2" using m1 by simp
  then have "answers_only m (fst (notified v hs' ?m2))" for v hs'
    using answers_only_notified by (rule answers_only_trans)
  then show ?thesis
    using b \<open>finalized\<close> m1 by (auto simp: after_block_def m1_def split: prod.splits if_splits)
qed (auto simp: after_block_def split: sum.splits)

lemma handle_request_callbacks: "callbacks (handle_request h valid_until l m) = (callbacks m)(h \<mapsto> l)"
  by (simp add: handle_request_def drop_sender_def Let_def split: option.splits)

lemma handle_request_channels:
  "channels (handle_request h valid_until l m) =
     (case callbacks m h of
        Some old \<Rightarrow> if channels m old = Some Waiting then (channels m)(old \<mapsto> Sender_Dropped) else channels m
      | None \<Rightarrow> channels m)"
  by (simp add: handle_request_def drop_sender_def Let_def split: option.splits)

lemma answers_only_handle_request: "answers_only m (handle_request h valid_until l m)"
  unfolding answers_only_def handle_request_callbacks handle_request_channels
  by (auto split: option.splits if_splits intro!: ran_upd_other)

subsection \<open>Who owns the senders\<close>

lemma answers_only_after_input: "answers_only m (after_input i m)"
  by (cases i) (simp_all add: answers_only_after_block answers_only_handle_request)

lemma owned_after_request:
  assumes "l' \<in> ran (callbacks m) \<or> l' = l" and "channels (handle_request h valid_until l m) l' = Some Waiting"
  shows "l' \<in> ran (callbacks (handle_request h valid_until l m))"
proof (cases "l' = l")
  case True
  then show ?thesis unfolding handle_request_callbacks by (auto intro: ranI [of _ h])
next
  case False
  then have "l' \<in> ran (callbacks m)" using assms(1) by simp
  then show ?thesis
    using assms(2) answers_only_handle_request [of m h valid_until l] unfolding answers_only_def by blast
qed

definition channels_ok :: "('x, 'h) system_event list \<Rightarrow> ('e, 'h) monitor_system \<Rightarrow> bool" where
  "channels_ok steps s \<longleftrightarrow>
     (\<forall>l. (channels (task_monitor s) l = None \<longleftrightarrow> next_listener s \<le> l) \<and>
       (channels (task_monitor s) l = Some Waiting \<longrightarrow> task_running s \<and> l \<in> owned_senders s) \<and>
       (channels (task_monitor s) l = Some Receiver_Dropped \<longrightarrow> Give_Up l \<in> set steps))"

lemma channels_ok_end:
  assumes "channels_ok steps s"
  shows "channels_ok steps (task_end s)"
  using assms by (auto simp: channels_ok_def task_end_def)

lemma channels_ok_more: "channels_ok steps s \<Longrightarrow> channels_ok (steps @ others) s"
  by (auto simp: channels_ok_def)

lemma task_end_cases:
  "task_iteration i s = s\<lparr>task_monitor := after_input i (task_monitor s)\<rparr> \<or>
   task_iteration i s = task_end (s\<lparr>task_monitor := after_input i (task_monitor s)\<rparr>)"
  by (auto simp: task_iteration_def Let_def split: sum.splits)

lemma channels_ok_iteration:
  assumes "channels_ok steps (s\<lparr>task_monitor := after_input i (task_monitor s)\<rparr>)"
  shows "channels_ok steps (task_iteration i s)"
  using task_end_cases [of i s] channels_ok_end [OF assms] assms by metis

lemma channels_ok_after_input:
  assumes "channels_ok steps s"
  shows "channels_ok steps (s\<lparr>task_monitor := after_input i (task_monitor s)\<rparr>)"
  using assms answers_only_after_input [of "task_monitor s" i]
  by (simp add: channels_ok_def answers_only_def owned_senders_def) blast

lemma channels_ok_take_request:
  assumes "channels_ok steps s" and "request_queue s = (h, valid_until, l) # q"
  shows "channels_ok steps (s\<lparr>request_queue := q,
    task_monitor := handle_request h valid_until l (task_monitor s)\<rparr>)"
proof -
  have "l' \<in> ran (callbacks (handle_request h valid_until l (task_monitor s))) \<union> set (map (snd \<circ> snd) q)"
    if "channels (handle_request h valid_until l (task_monitor s)) l' = Some Waiting" for l'
  proof -
    have "channels (task_monitor s) l' = Some Waiting"
      using that answers_only_handle_request [of "task_monitor s" h valid_until l] by (simp add: answers_only_def)
    moreover from this have "l' \<in> ran (callbacks (task_monitor s)) \<or> l' = l \<or> l' \<in> set (map (snd \<circ> snd) q)"
      using assms by (auto simp: channels_ok_def owned_senders_def)
    ultimately show ?thesis using owned_after_request [OF _ that] by blast
  qed
  then show ?thesis
    using assms(1) answers_only_handle_request [of "task_monitor s" h valid_until l]
    by (simp add: channels_ok_def answers_only_def owned_senders_def) blast
qed

lemma channels_ok_step:
  assumes "channels_ok steps s" and "system_step st s = Some s'"
  shows "channels_ok (steps @ [st]) s'"
proof -
  have ok: "channels_ok (steps @ [st]) s" using assms(1) by (rule channels_ok_more)
  show ?thesis
  proof (cases st)
    case (Register h valid_until)
    then show ?thesis
      using assms by (auto simp: register_listener_def channels_ok_def owned_senders_def Let_def split: if_splits)
  next
    case (Give_Up l)
    then have w: "channels (task_monitor s) l = Some Waiting"
      and s': "s' = s\<lparr>task_monitor := (task_monitor s)\<lparr>channels := (channels (task_monitor s))(l \<mapsto> Receiver_Dropped)\<rparr>\<rparr>"
      using assms(2) by (auto simp: Let_def split: if_splits)
    from w have "\<not> next_listener s \<le> l" using assms(1) unfolding channels_ok_def by (metis option.distinct(1))
    then show ?thesis using assms(1) Give_Up by (auto simp: s' channels_ok_def owned_senders_def)
  next
    case Take_Request
    then obtain h valid_until l q where q: "request_queue s = (h, valid_until, l) # q"
      and s': "s' = task_iteration (Listener_Request h valid_until l :: (unit, 'b) mon_input) (s\<lparr>request_queue := q\<rparr>)"
      using assms(2) by (auto split: if_splits list.splits)
    show ?thesis
      unfolding s' using channels_ok_take_request [OF ok q] by (intro channels_ok_iteration) simp
  next
    case (Handle_Block finalized b)
    then show ?thesis
      using assms(2) channels_ok_iteration [OF channels_ok_after_input [OF ok]] by (auto split: if_splits)
  next
    case Sources_Closed
    then show ?thesis
      using assms(2) channels_ok_iteration [OF channels_ok_after_input [OF ok]] by (auto split: if_splits)
  next
    case (Subscribe_Failed e)
    then show ?thesis using assms(2) channels_ok_end [OF ok] by (auto split: if_splits)
  qed
qed

lemma channels_ok_runs:
  assumes "monitor_system_runs options steps s"
  shows "channels_ok steps s"
  using assms
proof (induction rule: monitor_system_runs.induct)
  case (system_start s)
  then show ?case
    by (auto simp: new_with_options_def expect_ok_def monitor_start_def channels_ok_def)
next
  case (system_next steps s st s')
  then show ?case using channels_ok_step by blast
qed

subsection \<open>What ends the task\<close>

text \<open>
  The events after which the task may end: its blocks cannot be subscribed to or fetched, all its sources
  are closed, or a client has given up waiting.
\<close>

fun ends_task :: "('x, 'h) system_event \<Rightarrow> bool" where
  "ends_task (Register h valid_until) = False"
| "ends_task Take_Request = False"
| "ends_task (Handle_Block finalized b) = (case block_extrinsics b of Inl _ \<Rightarrow> True | Inr _ \<Rightarrow> False)"
| "ends_task (Give_Up l) = True"
| "ends_task Sources_Closed = True"
| "ends_task (Subscribe_Failed e) = True"

definition alive :: "('e, 'h) monitor_system \<Rightarrow> bool" where
  "alive s \<longleftrightarrow> task_running s \<and> monitor_ok (task_monitor s) \<and> distinct (map (snd \<circ> snd) (request_queue s)) \<and>
     (\<forall>l \<in> set (map (snd \<circ> snd) (request_queue s)).
       channels (task_monitor s) l = Some Waiting \<and> l \<notin> ran (callbacks (task_monitor s))) \<and>
     (\<forall>l. next_listener s \<le> l \<longrightarrow> channels (task_monitor s) l = None)"

lemma alive_register:
  assumes "alive s" and "register_listener h valid_until s = Inr (Some (l, s'))"
  shows "alive s'"
proof -
  let ?m = "task_monitor s" and ?l = "next_listener s"
  let ?m' = "?m\<lparr>channels := (channels ?m)(?l \<mapsto> Waiting)\<rparr>"
  have s': "s' = s\<lparr>task_monitor := ?m', request_queue := request_queue s @ [(h, valid_until, ?l)], next_listener := Suc ?l\<rparr>"
    using assms(2) by (auto simp: register_listener_def Let_def split: if_splits)
  have new: "channels ?m ?l = None" using assms(1) by (simp add: alive_def)
  have cb: "?l \<notin> ran (callbacks ?m)" using assms(1) new by (auto simp: alive_def monitor_ok_def ran_def)
  have q: "?l \<notin> set (map (snd \<circ> snd) (request_queue s))" using assms(1) new by (auto simp: alive_def)
  have "monitor_ok ?m'" using assms(1) by (simp add: alive_def monitor_ok_def)
  then show ?thesis
    unfolding s' alive_def using assms(1) cb q by (simp add: alive_def)
qed

lemma monitor_ok_handle_request:
  assumes "monitor_ok m" and "channels m l = Some Waiting" and "l \<notin> ran (callbacks m)"
  shows "monitor_ok (handle_request h valid_until l m)"
  unfolding monitor_ok_def handle_request_callbacks handle_request_channels
proof (intro conjI allI impI)
  have "inj_on (callbacks m) (dom (callbacks m))" using assms(1) by (simp add: monitor_ok_def)
  then show "inj_on ((callbacks m)(h \<mapsto> l)) (dom ((callbacks m)(h \<mapsto> l)))"
    using assms(3) by (auto simp: inj_on_def ran_def)
  fix h' l'
  assume cb: "((callbacks m)(h \<mapsto> l)) h' = Some l'"
  show "(case callbacks m h of
      Some old \<Rightarrow> if channels m old = Some Waiting then (channels m)(old \<mapsto> Sender_Dropped) else channels m
    | None \<Rightarrow> channels m) l' = Some Waiting"
  proof (cases "h' = h")
    case True
    then show ?thesis using cb assms(2,3) by (auto simp: ran_def split: option.splits)
  next
    case False
    then have "callbacks m h' = Some l'" using cb by simp
    moreover have "callbacks m h \<noteq> Some l'" using monitor_ok_inj [OF assms(1) calculation] False by auto
    ultimately show ?thesis using monitor_okD [OF assms(1)] by (auto split: option.splits)
  qed
qed

lemma alive_take_request:
  assumes "alive s" and "request_queue s = (h, valid_until, l) # q"
  shows "alive (s\<lparr>request_queue := q, task_monitor := handle_request h valid_until l (task_monitor s)\<rparr>)"
proof -
  let ?m = "task_monitor s" and ?m' = "handle_request h valid_until l (task_monitor s)"
  have l: "channels ?m l = Some Waiting" "l \<notin> ran (callbacks ?m)" using assms by (auto simp: alive_def)
  have ok: "monitor_ok ?m'"
    using assms(1) l by (intro monitor_ok_handle_request) (simp_all add: alive_def)
  have "channels ?m' l' = Some Waiting \<and> l' \<notin> ran (callbacks ?m')" if "l' \<in> set (map (snd \<circ> snd) q)" for l'
  proof -
    have "channels ?m l' = Some Waiting" "l' \<notin> ran (callbacks ?m)" "l' \<noteq> l" using assms that by (auto simp: alive_def)
    then show ?thesis
      unfolding handle_request_callbacks handle_request_channels by (auto simp: ran_def split: option.splits)
  qed
  moreover have "channels ?m' l' = None" if "next_listener s \<le> l'" for l'
    using assms(1) that answers_only_handle_request [of ?m h valid_until l] by (auto simp: alive_def answers_only_def)
  ultimately show ?thesis using assms ok by (simp add: alive_def)
qed

lemma alive_block:
  assumes "alive s" and "block_extrinsics b = Inr extrinsics"
  shows "alive (task_iteration (if finalized then Finalized_Block b else Best_Block b) s)"
proof (cases finalized)
  case True
  have ok: "monitor_ok (task_monitor s)" using assms(1) by (simp add: alive_def)
  from finalized_block_handled [OF ok assms(2), of "task_options s"] obtain m' line where
    run: "handle_block (task_options s) True b (task_monitor s) = Inr (m', Inr line)" and ok': "monitor_ok m'" and
    cb: "callbacks m' = callbacks (task_monitor s) |` (- (set extrinsics \<union> set (expiring (task_monitor s) (block_number b))))" and
    chan: "channels m' = (\<lambda>l.
      if listens (task_monitor s) (set extrinsics) l then Some (Delivered (Inr (block_hash b)))
      else if listens (task_monitor s) (set (expiring (task_monitor s) (block_number b))) l
        then Some (Delivered (Inl (MortalLifetimeSurpassed (block_number b))))
      else channels (task_monitor s) l)"
    by blast
  have "monitor_iteration (task_options s) (Finalized_Block b) (task_monitor s) = Inr (m', Inr ())"
    using run by simp
  then have "task_iteration (Finalized_Block b) s = s\<lparr>task_monitor := m'\<rparr>"
    using after_input_iteration [of "task_options s" "Finalized_Block b" "task_monitor s"] by (auto simp: task_iteration_def Let_def)
  moreover have "channels m' l = channels (task_monitor s) l" if "l \<notin> ran (callbacks (task_monitor s))" for l
    using that by (auto simp: chan listens_def ran_def)
  moreover have "l \<notin> ran (callbacks (task_monitor s))" if "next_listener s \<le> l" for l
    using that assms(1) by (auto simp: alive_def monitor_ok_def ran_def)
  moreover have "ran (callbacks m') \<subseteq> ran (callbacks (task_monitor s))"
    by (auto simp: cb ran_def restrict_map_def split: if_splits)
  ultimately show ?thesis using assms(1) ok' True by (auto simp: alive_def)
next
  case False
  then show ?thesis
    using assms by (simp add: task_iteration_def handle_block_def after_block_def Let_def alive_def)
qed

lemma alive_runs:
  assumes "monitor_system_runs options steps s" and "\<forall>st \<in> set steps. \<not> ends_task st"
  shows "alive s"
  using assms
proof (induction rule: monitor_system_runs.induct)
  case (system_start s)
  then show ?case
    by (auto simp: new_with_options_def expect_ok_def monitor_start_def alive_def monitor_ok_def)
next
  case (system_next steps s st s')
  then have alive: "alive s" by simp
  show ?case
  proof (cases st)
    case (Register h valid_until)
    then show ?thesis
      using system_next(2) alive_register [OF alive] by (auto split: sum.splits option.splits)
  next
    case Take_Request
    then obtain h valid_until l q where "request_queue s = (h, valid_until, l) # q"
      and "s' = task_iteration (Listener_Request h valid_until l :: (unit, 'b) mon_input) (s\<lparr>request_queue := q\<rparr>)"
      using system_next(2) by (auto split: if_splits list.splits)
    then show ?thesis using alive_take_request [OF alive] by (simp add: task_iteration_def Let_def)
  next
    case (Handle_Block finalized b)
    then obtain extrinsics where "block_extrinsics b = Inr extrinsics"
      using system_next.prems by (auto split: sum.splits)
    from alive_block [OF alive this, of finalized] show ?thesis
      using system_next(2) Handle_Block by (simp split: if_splits)
  qed (use system_next.prems in auto)
qed

subsection \<open>No client waits in vain\<close>

text \<open>
  C13: no client of the block monitor waits in vain. However registrations, blocks and the end of the task
  interleave, a registered client that has no answer has given up itself, or the task is running and owns
  the sender of its channel; the others have an answer or an error. The task only ends after an event that
  ends it: a failed subscription, a block that cannot be fetched, closed sources, or a client that gave
  up; from then on a registration panics.
\<close>

theorem waiting_clients_owned:
  assumes "monitor_system_runs options steps s" and "l < next_listener s"
  shows "(\<exists>c. channels (task_monitor s) l = Some c \<and>
      (wait_result recv_error c = None \<longrightarrow> Give_Up l \<in> set steps \<or> task_running s \<and> l \<in> owned_senders s)) \<and>
    (\<not> task_running s \<longrightarrow> (\<exists>st \<in> set steps. ends_task st) \<and>
      (\<forall>h valid_until. register_listener h valid_until s = Inl Unwrap_Failed))"
proof (intro conjI impI allI)
  have ok: "channels_ok steps s" using assms(1) by (rule channels_ok_runs)
  then have "channels (task_monitor s) l \<noteq> None" using assms(2) unfolding channels_ok_def by (metis not_le)
  then obtain c where c: "channels (task_monitor s) l = Some c" by auto
  then show "\<exists>c. channels (task_monitor s) l = Some c \<and>
      (wait_result recv_error c = None \<longrightarrow> Give_Up l \<in> set steps \<or> task_running s \<and> l \<in> owned_senders s)"
    using ok by (cases c) (auto simp: channels_ok_def)
  assume ended: "\<not> task_running s"
  then show "\<exists>st \<in> set steps. ends_task st" using alive_runs [OF assms(1)] by (auto simp: alive_def)
  show "register_listener h valid_until s = Inl Unwrap_Failed" for h valid_until
    using ended by (simp add: register_listener_def)
qed

subsection \<open>Examples\<close>

fun system_run :: "('x, 'h) system_event list \<Rightarrow> ('e, 'h) monitor_system \<Rightarrow> ('e, 'h) monitor_system option" where
  "system_run [] s = Some s"
| "system_run (st # sts) s = (case system_step st s of None \<Rightarrow> None | Some s' \<Rightarrow> system_run sts s')"

lemma system_run_runs:
  "monitor_system_runs options steps s \<Longrightarrow> system_run sts s = Some s' \<Longrightarrow> monitor_system_runs options (steps @ sts) s'"
proof (induction sts arbitrary: steps s)
  case (Cons st sts)
  then obtain s1 where s1: "system_step st s = Some s1" "system_run sts s1 = Some s'" by (auto split: option.splits)
  from Cons.IH [OF system_next [OF Cons.prems(1) s1(1)] s1(2)] show ?case by simp
qed simp

definition example_system :: "(unit, nat) monitor_system" where
  "example_system = \<lparr>task_options = Best, task_monitor = monitor_start Map.empty, task_running = True,
     request_queue = [], next_listener = 0\<rparr>"

text \<open>
  Two clients wait; the first one gives up, its transaction is found, and the failing send ends the task,
  which the second client is told as an error.
\<close>

definition example_events :: "(unit, nat) system_event list" where
  "example_events = [Register 7 None, Take_Request, Register 8 None, Take_Request, Give_Up 0,
     Handle_Block True (example_block 1 101 [7])]"

lemma system_started: "monitor_system_runs Best [] example_system"
  by (rule system_start) (simp add: new_with_options_def example_system_def expect_ok_def)

lemma dropped_waiter_ends_task:
  "\<exists>s. system_run example_events example_system = Some s \<and> \<not> task_running s \<and> next_listener s = 2 \<and>
     channels (task_monitor s) 0 = Some Receiver_Dropped \<and> channels (task_monitor s) 1 = Some Sender_Dropped"
  by (simp add: example_events_def example_system_def register_listener_def queue_capacity_def monitor_start_def
      task_iteration_def handle_request_def handle_block_def after_block_def example_block_def trigger_send_def
      task_end_def owned_senders_def Let_def ran_def)

theorem waiting_clients_owned_witness:
  "\<exists>s. system_run example_events example_system = Some s \<and>
     (\<exists>c. channels (task_monitor s) 1 = Some c \<and> wait_result ''e'' c \<noteq> None) \<and>
     register_listener 9 None s = Inl Unwrap_Failed"
proof -
  obtain s where run: "system_run example_events example_system = Some s" and ended: "\<not> task_running s"
    and n: "next_listener s = 2"
    using dropped_waiter_ends_task by blast
  from system_run_runs [OF system_started run]
  have runs: "monitor_system_runs Best example_events s" by simp
  have one: "(1 :: nat) < next_listener s" by (simp add: n)
  have not_up: "Give_Up 1 \<notin> set example_events" by (simp add: example_events_def)
  from waiting_clients_owned [OF runs one, of "''e''"] ended not_up run show ?thesis by blast
qed

end
