(* ===== verification/Monitored_Task.thy ===== *)
theory Monitored_Task
  imports Block_Monitor Tx_Task
begin

section \<open>A task that waits for the block monitor\<close>

text \<open>
  The composition of \<open>send_tx\<close> (\<open>src/runner.rs\<close>) with the block monitor (\<open>src/block_monitor.rs\<close>): an
  unwatched task registers its hash and the end of its lifetime with the monitor, and reports what
  \<open>wait\<close> returns.
\<close>

text \<open>A finalized block settles a hash if the hash is in it, or if the lifetime of the hash ends with it.\<close>

fun settled_by :: "'h \<Rightarrow> u64 option \<Rightarrow> ('x, 'h) mon_input \<Rightarrow> bool" where
  "settled_by h valid_until (Finalized_Block b) =
     (\<exists>hs. block_extrinsics b = Inr hs \<and> (h \<in> set hs \<or> valid_until = Some (block_number b)))"
| "settled_by h valid_until _ = False"

lemma resolve_settled: "(resolve h valid_until i = None) = (\<not> settled_by h valid_until i)"
  by (cases i) (auto split: sum.splits)

subsection \<open>The interface of a monitor\<close>

text \<open>
  The trait \<open>TransactionMonitor\<close> of \<open>src/transaction.rs\<close> as a task uses it: \<open>reply events h until\<close> is what
  \<open>wait(h, until)\<close> returns after these events on the chain, \<open>None\<close> while it waits. The first event that
  includes the transaction, with the hash of the block, or ends its lifetime, with the number of the block,
  decides; an event that does both counts as inclusion.
\<close>

locale transaction_monitor =
  fixes reply :: "'i list \<Rightarrow> 'h \<Rightarrow> u64 option \<Rightarrow> ('e error + 'h) option"
    and included :: "'h \<Rightarrow> 'i \<Rightarrow> 'h option"
    and ended :: "u64 option \<Rightarrow> 'i \<Rightarrow> u64 option"
  assumes reply_Nil: "reply [] h until = None"
    and reply_Cons: "reply (i # events) h until =
      (case included h i of
         Some b \<Rightarrow> Some (Inr b)
       | None \<Rightarrow> (case ended until i of Some n \<Rightarrow> Some (Inl (MortalLifetimeSurpassed n)) | None \<Rightarrow> reply events h until))"
begin

lemma reply_None_iff:
  "reply events h until = None \<longleftrightarrow> (\<forall>i \<in> set events. included h i = None \<and> ended until i = None)"
  by (induction events) (auto simp: reply_Nil reply_Cons split: option.splits)

lemma reply_first:
  assumes "reply events h until = Some r"
  shows "\<exists>xs i ys. events = xs @ i # ys \<and> (\<forall>j \<in> set xs. included h j = None \<and> ended until j = None) \<and>
    (case included h i of
       Some b \<Rightarrow> r = Inr b
     | None \<Rightarrow> \<exists>n. ended until i = Some n \<and> r = Inl (MortalLifetimeSurpassed n))"
  using assms
proof (induction events)
  case Nil
  then show ?case by (simp add: reply_Nil)
next
  case (Cons i events)
  show ?case
  proof (cases "included h i = None \<and> ended until i = None")
    case True
    then obtain xs j ys where "events = xs @ j # ys" "\<forall>j \<in> set xs. included h j = None \<and> ended until j = None"
      "case included h j of Some b \<Rightarrow> r = Inr b | None \<Rightarrow> \<exists>n. ended until j = Some n \<and> r = Inl (MortalLifetimeSurpassed n)"
      using Cons.IH Cons.prems by (auto simp: reply_Cons)
    then show ?thesis using True by (intro exI [of _ "i # xs"] exI [of _ j] exI [of _ ys]) simp
  next
    case False
    then show ?thesis
      using Cons.prems by (intro exI [of _ "[]"] exI [of _ i] exI [of _ events]) (auto simp: reply_Cons split: option.splits)
  qed
qed

text \<open>What a task whose submission was accepted makes of the reply.\<close>

lemma task_outcome:
  assumes "\<not> task_watched t" and "submit_answer a = Inr x"
    and "reply events (task_hash t) until = Some r" and "monitor_answer a = Some (now, r)"
  shows "\<exists>xs i ys. events = xs @ i # ys \<and> (\<forall>j \<in> set xs. included (task_hash t) j = None \<and> ended until j = None) \<and>
    (case included (task_hash t) i of
       Some b \<Rightarrow> snd (execute show_subxt t a) = Exec_Done (task_hash t) \<and>
         last (fst (execute show_subxt t a)) = FinalizedMonitor now b
     | None \<Rightarrow> \<exists>n. ended until i = Some n \<and> snd (execute show_subxt t a) = Exec_Error (task_hash t) \<and>
         last (fst (execute show_subxt t a)) = MortalDroppedMonitor now n)"
proof -
  obtain xs i ys where i: "events = xs @ i # ys" "\<forall>j \<in> set xs. included (task_hash t) j = None \<and> ended until j = None"
    and r: "case included (task_hash t) i of Some b \<Rightarrow> r = Inr b
      | None \<Rightarrow> \<exists>n. ended until i = Some n \<and> r = Inl (MortalLifetimeSurpassed n)"
    using reply_first [OF assms(3)] by blast
  show ?thesis
    using i r assms(1,2,4)
    by (intro exI [of _ xs] exI [of _ i] exI [of _ ys])
      (auto simp: execute_def send_tx_def event_finalized_monitor_def event_mortal_dropped_monitor_def split: option.splits)
qed

end

subsection \<open>The block monitor keeps the contract\<close>

fun included_in :: "'h \<Rightarrow> ('x, 'h) mon_input \<Rightarrow> 'h option" where
  "included_in h (Finalized_Block b) =
     (case block_extrinsics b of Inr hs \<Rightarrow> if h \<in> set hs then Some (block_hash b) else None | Inl _ \<Rightarrow> None)"
| "included_in h _ = None"

fun lifetime_ended :: "u64 option \<Rightarrow> ('x, 'h) mon_input \<Rightarrow> u64 option" where
  "lifetime_ended until (Finalized_Block b) =
     (case block_extrinsics b of Inr _ \<Rightarrow> if until = Some (block_number b) then Some (block_number b) else None | Inl _ \<Rightarrow> None)"
| "lifetime_ended until _ = None"

interpretation monitor_spec: transaction_monitor
    "\<lambda>(events :: ('x, 'h) mon_input list) h until. outcome h until events :: ('e error + 'h) option" included_in lifetime_ended
proof unfold_locales
  fix h :: 'h and until and i :: "('x, 'h) mon_input" and events
  show "outcome h until [] = (None :: ('e error + 'h) option)" by (simp add: outcome_def)
  show "(outcome h until (i # events) :: ('e error + 'h) option) = (case included_in h i of Some b \<Rightarrow> Some (Inr b)
      | None \<Rightarrow> (case lifetime_ended until i of Some n \<Rightarrow> Some (Inl (MortalLifetimeSurpassed n)) | None \<Rightarrow> outcome h until events))"
    by (cases i) (auto simp: outcome_Cons split: sum.splits option.splits)
qed

lemma settled_iff: "settled_by h until i = (\<not> (included_in h i = None \<and> lifetime_ended until i = None))"
  by (cases i) (auto split: sum.splits)

text \<open>
  C12: an unwatched transaction that the node accepted, with a block monitor that does not fail and with
  which every hash is registered once, is reported as done exactly if
  a finalized block contains it before its lifetime ends. The first finalized block, after the
  registration, that contains the transaction or ends its lifetime decides: in the first case the task is
  done and its log ends with the hash of that block, in the second it has failed and its log ends with
  the number of that block; a block that does both counts as the first case. If there is no such block,
  \<open>wait\<close> does not return. Best blocks, other listeners and earlier blocks have no influence.
\<close>

theorem monitored_task_outcome:
  fixes "is" :: "('x, 'h) mon_input list" and a :: "('e, 'h) sink_answers"
  assumes "is = pre @ Listener_Request (task_hash t) (tx_valid_until (task_tx t)) l # post"
    and "\<forall>i \<in> set is. good_input i"
    and "distinct (filter_map request_hash is)" and "distinct (filter_map request_listener is)"
    and "\<forall>l \<in> set (filter_map request_listener is). chans l = Some Waiting"
    and "\<not> task_watched t" and "submit_answer a = Inr h"
    and "block_monitor_inner options is (monitor_start chans) = Inr (m, Inr ())"
    and "\<forall>r. wait_result recv_error (the (channels m l)) = Some r \<longrightarrow> monitor_answer a = Some (now, r)"
  shows "(wait_result recv_error (the (channels m l)) = None \<longleftrightarrow>
      (\<forall>i \<in> set post. \<not> settled_by (task_hash t) (tx_valid_until (task_tx t)) i)) \<and>
    (wait_result recv_error (the (channels m l)) \<noteq> None \<longrightarrow>
      (\<exists>xs b ys hs. post = xs @ Finalized_Block b # ys \<and> block_extrinsics b = Inr hs \<and>
        (\<forall>i \<in> set xs. \<not> settled_by (task_hash t) (tx_valid_until (task_tx t)) i) \<and>
        (if task_hash t \<in> set hs
         then snd (execute show_subxt t a) = Exec_Done (task_hash t) \<and>
           last (fst (execute show_subxt t a)) = FinalizedMonitor now (block_hash b)
         else tx_valid_until (task_tx t) = Some (block_number b) \<and> snd (execute show_subxt t a) = Exec_Error (task_hash t) \<and>
           last (fst (execute show_subxt t a)) = MortalDroppedMonitor now (block_number b))))"
proof -
  let ?h = "task_hash t" and ?vu = "tx_valid_until (task_tx t)"
  have chan: "channels m l = Some (case outcome ?h ?vu post of None \<Rightarrow> Waiting | Some r \<Rightarrow> Delivered r)"
    using monitor_outcome [OF assms(1-5), of options] assms(8) by auto
  show ?thesis
  proof (cases "outcome ?h ?vu post :: ('e error + 'h) option")
    case None
    moreover have "(outcome ?h ?vu post :: ('e error + 'h) option) = None \<longleftrightarrow>
        (\<forall>i \<in> set post. included_in ?h i = None \<and> lifetime_ended ?vu i = None)"
      by (rule monitor_spec.reply_None_iff)
    ultimately show ?thesis using chan by (simp add: settled_iff)
  next
    case (Some r)
    then have wait: "wait_result recv_error (the (channels m l)) = Some r" using chan by simp
    then have answer: "monitor_answer a = Some (now, r)" using assms(9) by blast
    obtain xs i ys where i: "post = xs @ i # ys" "\<forall>j \<in> set xs. included_in ?h j = None \<and> lifetime_ended ?vu j = None"
      and out: "case included_in ?h i of
          Some b \<Rightarrow> snd (execute show_subxt t a) = Exec_Done ?h \<and> last (fst (execute show_subxt t a)) = FinalizedMonitor now b
        | None \<Rightarrow> \<exists>n. lifetime_ended ?vu i = Some n \<and> snd (execute show_subxt t a) = Exec_Error ?h \<and>
            last (fst (execute show_subxt t a)) = MortalDroppedMonitor now n"
      using monitor_spec.task_outcome [OF assms(6,7) Some answer] by blast
    then have settled: "settled_by ?h ?vu i" by (auto simp: settled_iff split: option.splits)
    then obtain b hs where b: "i = Finalized_Block b" "block_extrinsics b = Inr hs" by (cases i) auto
    have "if ?h \<in> set hs
      then snd (execute show_subxt t a) = Exec_Done ?h \<and> last (fst (execute show_subxt t a)) = FinalizedMonitor now (block_hash b)
      else ?vu = Some (block_number b) \<and> snd (execute show_subxt t a) = Exec_Error ?h \<and>
        last (fst (execute show_subxt t a)) = MortalDroppedMonitor now (block_number b)"
      using out by (auto simp: b split: if_splits)
    moreover have "\<forall>i \<in> set xs. \<not> settled_by ?h ?vu i" using i(2) by (simp add: settled_iff)
    moreover have "\<not> (\<forall>i \<in> set post. \<not> settled_by ?h ?vu i)" using settled i(1) by auto
    ultimately show ?thesis
      using wait i(1) unfolding b(1) using b(2)
      by (intro conjI impI exI [of _ xs] exI [of _ b] exI [of _ ys] exI [of _ hs]) simp_all
  qed
qed

subsection \<open>Examples\<close>

definition mortal_task :: "u64 \<Rightarrow> nat tx_task" where
  "mortal_task till = new_unwatched \<lparr>tx_hash = 7, tx_nonce = 0, tx_valid_until = Some till, tx_account_metadata = Derived 0\<rparr>"

definition monitored_answers :: "(unit error + nat) option \<Rightarrow> (unit, nat) sink_answers" where
  "monitored_answers r = \<lparr>sent_at = System_Time 1, answered_at = System_Time 2, watch_answer = Inr [],
     submit_answer = Inr 7, monitor_answer = map_option (\<lambda>r. (System_Time 3, r)) r\<rparr>"

text \<open>A transaction with a lifetime up to block 3 that is in the finalized block 2.\<close>

theorem monitored_task_outcome_witness:
  "\<exists>m :: (unit, nat) monitor. block_monitor_inner All_Blocks
      [Listener_Request 7 (Some 3) 0, Finalized_Block (example_block 1 101 []), Finalized_Block (example_block 2 102 [7]),
       Finalized_Block (example_block 3 103 [])] (monitor_start [0 \<mapsto> Waiting]) = Inr (m, Inr ()) \<and>
    wait_result ''closed'' (the (channels m 0)) = Some (Inr 102) \<and>
    snd (execute (\<lambda>_. '''') (mortal_task 3) (monitored_answers (Some (Inr 102)))) = Exec_Done 7"
proof -
  let ?post = "[Finalized_Block (example_block 1 101 []), Finalized_Block (example_block 2 102 [7]),
       Finalized_Block (example_block 3 103 [])]"
  let ?t = "mortal_task 3" and ?a = "monitored_answers (Some (Inr 102))"
  obtain m :: "(unit, nat) monitor" where
    run: "block_monitor_inner All_Blocks (Listener_Request 7 (Some 3) 0 # ?post) (monitor_start [0 \<mapsto> Waiting]) = Inr (m, Inr ())"
    and chan: "channels m 0 = Some (Delivered (Inr 102))"
    by (simp add: monitor_start_def handle_request_def handle_block_def example_block_def trigger_send_def set_insert_def)
  have t: "task_hash ?t = 7" "tx_valid_until (task_tx ?t) = Some 3" "\<not> task_watched ?t"
    by (simp_all add: mortal_task_def new_unwatched_def)
  have a: "submit_answer ?a = Inr 7" "monitor_answer ?a = Some (System_Time 3, Inr 102)"
    by (simp_all add: monitored_answers_def)
  have input: "Listener_Request 7 (Some 3) 0 # ?post = [] @ Listener_Request (task_hash ?t) (tx_valid_until (task_tx ?t)) 0 # ?post"
    by (simp add: t)
  have wait: "\<forall>r. wait_result ''closed'' (the (channels m 0)) = Some r \<longrightarrow> monitor_answer ?a = Some (System_Time 3, r)"
    by (simp add: chan a(2))
  let ?is = "Listener_Request 7 (Some 3) 0 # ?post"
  have good: "\<forall>i \<in> set ?is. good_input i" "distinct (filter_map request_hash ?is)" "distinct (filter_map request_listener ?is)"
    "\<forall>l \<in> set (filter_map request_listener ?is). [0 \<mapsto> Waiting] l = Some Waiting"
    by (simp_all add: example_block_def)
  have "wait_result ''closed'' (the (channels m 0)) \<noteq> None" by (simp add: chan)
  note monitored_task_outcome [OF input good t(3) a(1) run wait, of "\<lambda>_. ''''", THEN conjunct2, THEN mp, OF this]
  then have "snd (execute (\<lambda>_. '''') ?t ?a) = Exec_Done 7"
    by (auto simp: t Cons_eq_append_conv example_block_def split: if_splits)
  then show ?thesis using run chan by (intro exI [of _ m]) simp
qed

text \<open>
  The monitor compares numbers for equality when a block is finalized. A task that registers when the block
  at which its lifetime ends has been finalized already is never told so; without a timeout it waits, and
  with it the run, for ever.
\<close>

lemma late_registration_waits:
  fixes "is" :: "('x, 'h) mon_input list" and m :: "('e, 'h) monitor"
  assumes "is = pre @ Listener_Request h (Some till) l # post"
    and "\<forall>i \<in> set is. good_input i"
    and "distinct (filter_map request_hash is)" and "distinct (filter_map request_listener is)"
    and "\<forall>l \<in> set (filter_map request_listener is). chans l = Some Waiting"
    and "\<forall>b. Finalized_Block b \<in> set post \<longrightarrow> till < block_number b \<and> (\<forall>hs. block_extrinsics b = Inr hs \<longrightarrow> h \<notin> set hs)"
    and "block_monitor_inner options is (monitor_start chans) = Inr (m, Inr ())"
  shows "wait_result recv_error (the (channels m l)) = None"
proof -
  have "\<not> settled_by h (Some till) i" if "i \<in> set post" for i
    by (cases i) (use that assms(6) in fastforce)+
  then have "outcome h (Some till) post = (None :: ('e error + 'h) option)"
    by (simp add: outcome_def find_map_None_iff resolve_settled)
  then show ?thesis using monitor_outcome [OF assms(1-5), of options] assms(7) by auto
qed

end
