(* ===== verification/Payload.thy ===== *)
theory Payload
  imports Transaction
begin

section \<open>Payloads\<close>

text \<open>
  The payload builders of \<open>src/subxt_transaction.rs\<close> and the source they come from in
  \<open>src/scenario.rs\<close>. A payload of subxt's dynamic interface is the pallet, the call and the arguments that
  the code passes; \<open>as_ref\<close> is the view of an account id as bytes, \<open>hex_bytes\<close> the ASCII bytes that
  \<open>hex::encode\<close> prints for them.
\<close>

record 'a payload_context =
  to_account_id :: 'a
  from_account_id :: 'a
  ctx_account :: string
  ctx_nonce :: u128

datatype dynamic_value =
    Vec_Value "u8 list"
  | Bytes_Value "u8 list"
  | U128_Value u128
  | Variant_Value string "dynamic_value list"
  | Composite_Value "dynamic_value list"

record dynamic_payload =
  pallet_name :: string
  call_name :: string
  call_fields :: "dynamic_value list"

type_synonym 'a payload_builder = "'a payload_context \<Rightarrow> dynamic_payload res"

definition remark_payload_builder ::
    "('a \<Rightarrow> u8 list) \<Rightarrow> (u8 list \<Rightarrow> u8 list) \<Rightarrow> u32 \<Rightarrow> 'a payload_builder" where
  "remark_payload_builder as_ref hex_bytes size_kb ctx =
     (let encoded = hex_bytes (as_ref (to_account_id ctx))
      in if encoded = [] then Inl Unwrap_Failed
         else Inr \<lparr>pallet_name = ''System'', call_name = ''remark'',
           call_fields = [Vec_Value (replicate (unat (ucast size_kb * 1024 :: usize)) (last encoded))]\<rparr>)"

definition sub_transfer_payload_builder :: "('a \<Rightarrow> u8 list) \<Rightarrow> 'a payload_builder" where
  "sub_transfer_payload_builder as_ref ctx =
     Inr \<lparr>pallet_name = ''Balances'', call_name = ''transfer_keep_alive'',
       call_fields = [Variant_Value ''Id'' [Bytes_Value (as_ref (to_account_id ctx))], U128_Value 1]\<rparr>"

definition eth_transfer_payload_builder :: "('a \<Rightarrow> u8 list) \<Rightarrow> 'a payload_builder" where
  "eth_transfer_payload_builder as_ref ctx =
     Inr \<lparr>pallet_name = ''Balances'', call_name = ''transfer_keep_alive'',
       call_fields = [Composite_Value [Bytes_Value (as_ref (to_account_id ctx))], U128_Value 1]\<rparr>"

subsection \<open>The source of the payload builder\<close>

datatype ('a, 'b) payload_source =
    Recipe transaction_recipe
  | Sub_Custom "'a payload_builder"
  | Eth_Custom "'b payload_builder"

text \<open>The view of the account ids of the two chains as bytes, and the printing of bytes.\<close>

record ('a, 'b) id_bytes =
  sub_as_ref :: "'a \<Rightarrow> u8 list"
  eth_as_ref :: "'b \<Rightarrow> u8 list"
  hex_bytes :: "u8 list \<Rightarrow> u8 list"

fun into_sub_builder :: "('a, 'b) id_bytes \<Rightarrow> ('a, 'b) payload_source \<Rightarrow> 'a payload_builder res" where
  "into_sub_builder ids (Sub_Custom f) = Inr f"
| "into_sub_builder ids (Recipe r) =
     (case call r of
        Remark size_kb \<Rightarrow> Inr (remark_payload_builder (sub_as_ref ids) (hex_bytes ids) size_kb)
      | Transfer \<Rightarrow> Inr (sub_transfer_payload_builder (sub_as_ref ids)))"
| "into_sub_builder ids (Eth_Custom _) =
     Inl (Panic ''EthCustom payload builder cannot be used with ChainType::Sub'')"

fun into_eth_builder :: "('a, 'b) id_bytes \<Rightarrow> ('a, 'b) payload_source \<Rightarrow> 'b payload_builder res" where
  "into_eth_builder ids (Eth_Custom f) = Inr f"
| "into_eth_builder ids (Recipe r) =
     (case call r of
        Remark size_kb \<Rightarrow> Inr (remark_payload_builder (eth_as_ref ids) (hex_bytes ids) size_kb)
      | Transfer \<Rightarrow> Inr (eth_transfer_payload_builder (eth_as_ref ids)))"
| "into_eth_builder ids (Sub_Custom _) =
     Inl (Panic ''SubCustom payload builder cannot be used with ChainType::Eth'')"

lemma remark_length:
  "unat (ucast (size_kb :: u32) * 1024 :: usize) = unat size_kb * 1024"
proof -
  have "unat size_kb < 2 ^ 32" using unat_bound [of size_kb] by simp
  then have "unat (ucast size_kb :: usize) * unat (1024 :: usize) < 2 ^ LENGTH(64)"
    by (simp add: unsigned_ucast_eq take_bit_nat_eq_self)
  then have "unat (ucast size_kb * 1024 :: usize) = unat (ucast size_kb :: usize) * unat (1024 :: usize)"
    by (rule unat_mult_lem [THEN iffD1])
  then show ?thesis using \<open>unat size_kb < 2 ^ 32\<close> by (simp add: unsigned_ucast_eq take_bit_nat_eq_self)
qed

text \<open>
  A recipe resolves on both chains, to a builder that addresses the receiver. The remark builder
  makes a \<open>System.remark\<close> of exactly the requested number of kilobytes for every account whose bytes print
  to something, with no overflow for any 32 bit size; a transfer moves one unit to the receiver. A
  custom builder of the other chain is refused with a panic.
\<close>

lemma recipe_resolves:
  assumes "hex_bytes ids (sub_as_ref ids (to_account_id ctx)) \<noteq> []"
  shows "(\<exists>f payload data. into_sub_builder ids (Recipe (recipe_remark size_kb)) = Inr f \<and> f ctx = Inr payload \<and>
      pallet_name payload = ''System'' \<and> call_name payload = ''remark'' \<and>
      call_fields payload = [Vec_Value data] \<and> length data = 1024 * unat size_kb) \<and>
    (\<exists>f payload. into_sub_builder ids (Recipe recipe_transfer) = Inr f \<and> f ctx = Inr payload \<and>
      call_fields payload = [Variant_Value ''Id'' [Bytes_Value (sub_as_ref ids (to_account_id ctx))], U128_Value 1]) \<and>
    (\<exists>f. into_eth_builder ids (Recipe (recipe_remark size_kb)) = Inr f) \<and>
    (\<exists>f. into_eth_builder ids (Recipe recipe_transfer) = Inr f) \<and>
    (\<exists>msg. into_sub_builder ids (Eth_Custom g) = Inl (Panic msg)) \<and>
    (\<exists>msg. into_eth_builder ids (Sub_Custom g') = Inl (Panic msg))"
  using assms
  by (simp add: recipe_remark_def recipe_transfer_def remark_payload_builder_def remark_length
      sub_transfer_payload_builder_def)

lemma recipe_resolves_example:
  "\<exists>f payload data. into_sub_builder \<lparr>sub_as_ref = id, eth_as_ref = id, hex_bytes = (\<lambda>bs. bs @ bs)\<rparr>
      (Recipe (recipe_remark 2)) = Inr f \<and>
    f \<lparr>to_account_id = [7], from_account_id = [8], ctx_account = ''0'', ctx_nonce = 0\<rparr> = Inr payload \<and>
    call_fields payload = [Vec_Value data] \<and> length data = 2048"
proof -
  let ?ids = "\<lparr>sub_as_ref = id, eth_as_ref = id, hex_bytes = (\<lambda>bs. bs @ bs)\<rparr> :: (u8 list, u8 list) id_bytes"
  let ?ctx = "\<lparr>to_account_id = [7], from_account_id = [8], ctx_account = ''0'', ctx_nonce = 0\<rparr> :: u8 list payload_context"
  have "hex_bytes ?ids (sub_as_ref ?ids (to_account_id ?ctx)) \<noteq> []" by simp
  from recipe_resolves [OF this, THEN conjunct1, of 2] show ?thesis by auto
qed

end
