(* ===== verification/Scenario.thy ===== *)
theory Scenario
  imports Accounts Payload Runner
begin

section \<open>Scenarios\<close>

text \<open>
  The model of \<open>src/scenario.rs\<close>: the scenario types, \<open>ScenarioBuilder\<close> with its setters, the parameters
  of the transactions to build, \<open>build_transactions\<close>, which builds them on several threads and sorts
  them by nonce, and \<open>build\<close>. What a chain provides (its sink and its transaction builder) is an argument
  of \<open>build\<close>, so that the same definition serves both chains; \<open>Subxt_Sink\<close> models it.
\<close>

subsection \<open>Data\<close>

datatype chain_type = Sub | Eth | Fake

datatype scenario_type =
    One_Shot string "u128 option"
  | From_Single_Account string "u128 option" u32
  | From_Many_Accounts u32 u32 "u128 option" u32

record tx_build_params =
  param_account :: string
  param_nonce :: "u128 option"
  param_mortality :: "u64 option"

text \<open>\<open>'r\<close> is the runner of a chain; the stop sender of an executor is the other end of its stop channel.\<close>

datatype 'r scenario_executor =
    Eth_Executor 'r
  | Substrate_Executor 'r

record ('a, 'b) scenario_builder =
  account_id :: "string option"
  start_id :: "u32 option"
  last_id :: "u32 option"
  nonce_from :: "u128 option"
  txs_count :: u32
  tx_payload_builder_source :: "('a, 'b) payload_source option"
  mortality :: "u64 option"
  does_block_monitoring :: bool
  watched_txs :: bool
  builder_send_threshold :: "usize option"
  rpc_uri :: "string option"
  builder_chain_type :: "chain_type option"
  installs_ctrl_c_stop_hook :: bool
  builder_executor_id :: "string option"
  tip :: u128
  log_file_name_prefix :: "string option"
  builder_base_dir_path :: "string option"
  builder_timeout :: "duration option"
  use_legacy_backend :: bool

definition scenario_builder_new :: "('a, 'b) scenario_builder" where
  "scenario_builder_new =
     \<lparr>account_id = None, start_id = None, last_id = None, nonce_from = None, txs_count = 1,
      tx_payload_builder_source = Some (Recipe recipe_transfer), mortality = None,
      does_block_monitoring = False, watched_txs = False, builder_send_threshold = Some 1000,
      rpc_uri = None, builder_chain_type = None, installs_ctrl_c_stop_hook = False,
      builder_executor_id = None, tip = 0, log_file_name_prefix = None, builder_base_dir_path = None,
      builder_timeout = None, use_legacy_backend = False\<rparr>"

subsection \<open>Setters\<close>

definition with_account_id :: "string \<Rightarrow> ('a, 'b) scenario_builder \<Rightarrow> ('a, 'b) scenario_builder" where
  "with_account_id i sb = sb\<lparr>account_id := Some i\<rparr>"

definition with_start_id :: "u32 \<Rightarrow> ('a, 'b) scenario_builder \<Rightarrow> ('a, 'b) scenario_builder" where
  "with_start_id i sb = sb\<lparr>start_id := Some i\<rparr>"

definition with_last_id :: "u32 \<Rightarrow> ('a, 'b) scenario_builder \<Rightarrow> ('a, 'b) scenario_builder" where
  "with_last_id i sb = sb\<lparr>last_id := Some i\<rparr>"

definition with_nonce_from :: "u128 option \<Rightarrow> ('a, 'b) scenario_builder \<Rightarrow> ('a, 'b) scenario_builder" where
  "with_nonce_from n sb = sb\<lparr>nonce_from := n\<rparr>"

definition with_txs_count :: "u32 \<Rightarrow> ('a, 'b) scenario_builder \<Rightarrow> ('a, 'b) scenario_builder" where
  "with_txs_count n sb = sb\<lparr>txs_count := n\<rparr>"

definition with_transfer_recipe :: "('a, 'b) scenario_builder \<Rightarrow> ('a, 'b) scenario_builder" where
  "with_transfer_recipe sb = sb\<lparr>tx_payload_builder_source := Some (Recipe recipe_transfer)\<rparr>"

definition with_remark_recipe :: "u32 \<Rightarrow> ('a, 'b) scenario_builder \<Rightarrow> ('a, 'b) scenario_builder" where
  "with_remark_recipe remark sb = sb\<lparr>tx_payload_builder_source := Some (Recipe (recipe_remark remark))\<rparr>"

definition with_tx_payload_builder_sub ::
    "'a payload_builder \<Rightarrow> ('a, 'b) scenario_builder \<Rightarrow> ('a, 'b) scenario_builder" where
  "with_tx_payload_builder_sub f sb = sb\<lparr>tx_payload_builder_source := Some (Sub_Custom f)\<rparr>"

definition with_tx_payload_builder_eth ::
    "'b payload_builder \<Rightarrow> ('a, 'b) scenario_builder \<Rightarrow> ('a, 'b) scenario_builder" where
  "with_tx_payload_builder_eth f sb = sb\<lparr>tx_payload_builder_source := Some (Eth_Custom f)\<rparr>"

definition with_tip :: "u128 \<Rightarrow> ('a, 'b) scenario_builder \<Rightarrow> ('a, 'b) scenario_builder" where
  "with_tip t sb = sb\<lparr>tip := t\<rparr>"

definition with_block_monitoring :: "bool \<Rightarrow> ('a, 'b) scenario_builder \<Rightarrow> ('a, 'b) scenario_builder" where
  "with_block_monitoring b sb = sb\<lparr>does_block_monitoring := b\<rparr>"

definition with_mortality :: "u64 \<Rightarrow> ('a, 'b) scenario_builder \<Rightarrow> ('a, 'b) scenario_builder" where
  "with_mortality n sb = sb\<lparr>mortality := Some n\<rparr>"

definition with_rpc_uri :: "string \<Rightarrow> ('a, 'b) scenario_builder \<Rightarrow> ('a, 'b) scenario_builder" where
  "with_rpc_uri u sb = sb\<lparr>rpc_uri := Some u\<rparr>"

definition with_watched_txs :: "bool \<Rightarrow> ('a, 'b) scenario_builder \<Rightarrow> ('a, 'b) scenario_builder" where
  "with_watched_txs b sb = sb\<lparr>watched_txs := b\<rparr>"

definition with_chain_type :: "chain_type \<Rightarrow> ('a, 'b) scenario_builder \<Rightarrow> ('a, 'b) scenario_builder" where
  "with_chain_type c sb = sb\<lparr>builder_chain_type := Some c\<rparr>"

definition with_send_threshold :: "usize \<Rightarrow> ('a, 'b) scenario_builder \<Rightarrow> ('a, 'b) scenario_builder" where
  "with_send_threshold n sb = sb\<lparr>builder_send_threshold := Some n\<rparr>"

definition with_installed_ctrlc_stop_hook :: "bool \<Rightarrow> ('a, 'b) scenario_builder \<Rightarrow> ('a, 'b) scenario_builder" where
  "with_installed_ctrlc_stop_hook b sb = sb\<lparr>installs_ctrl_c_stop_hook := b\<rparr>"

definition with_timeout_in_secs :: "u64 \<Rightarrow> ('a, 'b) scenario_builder \<Rightarrow> ('a, 'b) scenario_builder" where
  "with_timeout_in_secs secs sb = sb\<lparr>builder_timeout := Some (seconds (unat secs))\<rparr>"

definition with_executor_id :: "string \<Rightarrow> ('a, 'b) scenario_builder \<Rightarrow> ('a, 'b) scenario_builder" where
  "with_executor_id i sb = sb\<lparr>builder_executor_id := Some i\<rparr>"

definition with_log_file_name_prefix :: "string \<Rightarrow> ('a, 'b) scenario_builder \<Rightarrow> ('a, 'b) scenario_builder" where
  "with_log_file_name_prefix p sb = sb\<lparr>log_file_name_prefix := Some p\<rparr>"

definition with_base_dir_path :: "string \<Rightarrow> ('a, 'b) scenario_builder \<Rightarrow> ('a, 'b) scenario_builder" where
  "with_base_dir_path p sb = sb\<lparr>builder_base_dir_path := Some p\<rparr>"

definition with_legacy_backend :: "bool \<Rightarrow> ('a, 'b) scenario_builder \<Rightarrow> ('a, 'b) scenario_builder" where
  "with_legacy_backend b sb = sb\<lparr>use_legacy_backend := b\<rparr>"

lemmas setter_defs = with_account_id_def with_start_id_def with_last_id_def with_nonce_from_def
  with_txs_count_def with_transfer_recipe_def with_remark_recipe_def with_tx_payload_builder_sub_def
  with_tx_payload_builder_eth_def with_tip_def with_block_monitoring_def with_mortality_def
  with_rpc_uri_def with_watched_txs_def with_chain_type_def with_send_threshold_def
  with_installed_ctrlc_stop_hook_def with_timeout_in_secs_def with_executor_id_def
  with_log_file_name_prefix_def with_base_dir_path_def with_legacy_backend_def

subsection \<open>The parameters of the transactions\<close>

text \<open>
  The inner loop: one entry per transaction, with the nonce counted up from \<open>nonce_from\<close>. The nonce is
  incremented after every entry, also after the last one.
\<close>

fun push_build_params ::
    "profile \<Rightarrow> string \<Rightarrow> u64 option \<Rightarrow> nat \<Rightarrow> u128 option \<Rightarrow> tx_build_params list res" where
  "push_build_params prof account mort 0 nonce = Inr []"
| "push_build_params prof account mort (Suc k) nonce =
     res_bind (case nonce of
         None \<Rightarrow> Inr None
       | Some n \<Rightarrow> res_bind (u_add prof n 1) (\<lambda>n'. Inr (Some n'))) (\<lambda>nonce'.
     res_bind (push_build_params prof account mort k nonce') (\<lambda>rest.
     Inr (\<lparr>param_account = account, param_nonce = nonce, param_mortality = mort\<rparr> # rest)))"

definition build_params :: "profile \<Rightarrow> ('a, 'b) scenario_builder \<Rightarrow> tx_build_params list res" where
  "build_params prof sb =
     (case start_id sb of
        Some start \<Rightarrow>
          (let last = (case last_id sb of Some l \<Rightarrow> l | None \<Rightarrow> start)
           in res_bind (res_mapM
                (\<lambda>account. push_build_params prof (show_u32 (of_nat account)) (mortality sb)
                   (unat (txs_count sb)) (nonce_from sb))
                [unat start..<Suc (unat last)])
              (\<lambda>pss. Inr (concat pss)))
      | None \<Rightarrow>
          res_bind (opt_expect ''to have configured an account id for transactions generation'' (account_id sb))
            (\<lambda>account. push_build_params prof account (mortality sb) (unat (txs_count sb)) (nonce_from sb)))"

subsection \<open>Building the transactions\<close>

text \<open>
  \<open>build_tx i\<close> is the call of \<open>build_transaction\<close> for the \<open>i\<close>-th entry, made by the task of its chunk; a
  panic in a task makes its join handle an \<open>Err\<close>, which is unwrapped. The slice is indexed with a bounds
  check. \<open>sort_by_key\<close> is stable, as is \<open>sort_key\<close>.
\<close>

definition build_transactions ::
    "profile \<Rightarrow> usize \<Rightarrow> (nat \<Rightarrow> bool \<Rightarrow> tx_build_params \<Rightarrow> u128 \<Rightarrow> 'h tx_task res) \<Rightarrow>
       ('a, 'b) scenario_builder \<Rightarrow> u128 \<Rightarrow> 'h tx_task list res" where
  "build_transactions prof available build_tx sb the_tip =
     res_bind (build_params prof sb) (\<lambda>params.
     let n = of_nat (length params) :: usize;
         t = min n available
     in res_bind (res_mapM (\<lambda>thread_idx. thread_chunk prof n t (of_nat thread_idx)) [0..<unat t]) (\<lambda>chunks.
     res_bind (res_mapM (\<lambda>(lo, hi). join_thread (res_mapM (\<lambda>i.
           if i < length params then build_tx i (watched_txs sb) (params ! i) the_tip
           else Inl Index_Out_Of_Bounds) [unat lo..<unat hi])) chunks) (\<lambda>results.
     Inr (sort_key task_nonce (concat results)))))"

subsection \<open>Building the executor\<close>

definition accounts_of :: "profile \<Rightarrow> ('a, 'b) scenario_builder \<Rightarrow> accounts_description res" where
  "accounts_of prof sb =
     (case start_id sb of
        Some start \<Rightarrow>
          (let last = (case last_id sb of Some l \<Rightarrow> l | None \<Rightarrow> start)
           in res_bind (u_add prof last 1) (\<lambda>stop. Inr (Derived_Range start stop)))
      | None \<Rightarrow>
          (case (case account_id sb of None \<Rightarrow> None | Some i \<Rightarrow> parse_u32 i) of
             Some i \<Rightarrow> res_bind (u_add prof i 1) (\<lambda>stop. Inr (Derived_Range i stop))
           | None \<Rightarrow>
               res_bind (opt_expect ''to have configured an account id for transactions generation'' (account_id sb))
                 (\<lambda>name. Inr (Keyring name))))"

text \<open>
  What a chain provides: \<open>chain_sink uri accounts monitoring legacy\<close> connects a sink, with a block monitor
  if \<open>monitoring\<close>, and \<open>chain_build_tx\<close> is its transaction builder on that sink.
\<close>

record ('s, 'c, 'h) chain =
  chain_sink :: "string \<Rightarrow> accounts_description \<Rightarrow> bool \<Rightarrow> bool \<Rightarrow> 's res"
  chain_build_tx :: "'s \<Rightarrow> 'c payload_builder \<Rightarrow> nat \<Rightarrow> bool \<Rightarrow> tx_build_params \<Rightarrow> u128 \<Rightarrow> 'h tx_task res"

definition build_on ::
    "profile \<Rightarrow> usize \<Rightarrow> ('s, 'c, 'h) chain \<Rightarrow> 'c payload_builder \<Rightarrow> usize \<Rightarrow> string \<Rightarrow> accounts_description \<Rightarrow>
       ('a, 'b) scenario_builder \<Rightarrow> 'h runner res" where
  "build_on prof available ch payload_builder threshold uri accounts sb =
     res_bind (chain_sink ch uri accounts (does_block_monitoring sb) (use_legacy_backend sb)) (\<lambda>sink.
     res_bind (build_transactions prof available (chain_build_tx ch sink payload_builder) sb (tip sb)) (\<lambda>txs.
     Inr (runner_new threshold (rev txs) (log_file_name_prefix sb) (builder_base_dir_path sb)
       (builder_executor_id sb) (builder_timeout sb))))"

text \<open>The result of \<open>build\<close>: the executor, and whether the ctrl-c hook was installed on it.\<close>

definition build ::
    "profile \<Rightarrow> usize \<Rightarrow> ('a, 'b) id_bytes \<Rightarrow> ('s, 'a, 'h) chain \<Rightarrow> ('t, 'b, 'h) chain \<Rightarrow>
       ('a, 'b) scenario_builder \<Rightarrow> ('h runner scenario_executor \<times> bool) res" where
  "build prof available ids sub eth sb =
     res_bind (opt_expect ''to have configured the send threshold. qed.'' (builder_send_threshold sb)) (\<lambda>threshold.
     res_bind (opt_expect ''to have configured the rpc uri. qed.'' (rpc_uri sb)) (\<lambda>uri.
     res_bind (opt_expect ''to have a configured chain type. qed'' (builder_chain_type sb)) (\<lambda>chain_type.
     res_bind (accounts_of prof sb) (\<lambda>accounts.
     case chain_type of
       Eth \<Rightarrow>
         res_bind (opt_expect ''No payload source configured'' (tx_payload_builder_source sb)) (\<lambda>source.
         res_bind (into_eth_builder ids source) (\<lambda>payload_builder.
         res_bind (build_on prof available eth payload_builder threshold uri accounts sb) (\<lambda>r.
         Inr (Eth_Executor r, installs_ctrl_c_stop_hook sb))))
     | Sub \<Rightarrow>
         res_bind (opt_expect ''No payload source configured'' (tx_payload_builder_source sb)) (\<lambda>source.
         res_bind (into_sub_builder ids source) (\<lambda>payload_builder.
         res_bind (build_on prof available sub payload_builder threshold uri accounts sb) (\<lambda>r.
         Inr (Substrate_Executor r, installs_ctrl_c_stop_hook sb))))
     | Fake \<Rightarrow> Inl Unimplemented))))"

end
