(* ===== verification/Scenario_Order.thy ===== *)
theory Scenario_Order
  imports Scenario
begin

section \<open>The transactions of a scenario\<close>

text \<open>
  What \<open>build_transactions\<close> returns: the transactions of all parameters sorted by nonce, whatever the number
  of threads; for a range of accounts, one round over the accounts per nonce; and the accounts that
  \<open>build\<close> derives are those that the parameters name.
\<close>

subsection \<open>The result does not depend on the threads\<close>

lemma build_transactions_eq:
  fixes available :: usize
  assumes "build_params prof sb = Inr ps" and "length ps < 2 ^ 32" and "0 < available"
    and "\<And>i. i < length ps \<Longrightarrow> build_tx i (watched_txs sb) (ps ! i) the_tip = Inr (mk i)"
  shows "build_transactions prof available build_tx sb the_tip = Inr (sort_key task_nonce (map mk [0..<length ps]))"
proof -
  define n where "n = length ps"
  have n64: "n < 2 ^ 64" "0 + n < 2 ^ 64" using assms(2) by (simp_all add: n_def)
  define t where "t = min n (unat available)"
  note t = threads_available [OF n64(1), of available, folded t_def]
  have "n * n < 2 ^ 32 * 2 ^ 32" using assms(2) by (intro mult_strict_mono) (auto simp: n_def)
  then have nn: "n * n < 2 ^ 64" by simp
  let ?f = "\<lambda>i. if i < length ps then build_tx i (watched_txs sb) (ps ! i) the_tip else Inl Index_Out_Of_Bounds"
  have chunks: "res_mapM (\<lambda>i. thread_chunk prof (of_nat n) (of_nat t) (of_nat i)) [0..<t] =
      Inr (map (\<lambda>i. (of_nat (i * n div t) :: usize, of_nat (Suc i * n div t) :: usize)) [0..<t])"
    by (rule res_mapM_total) (rule thread_chunk_of_nat, use nn in \<open>auto simp: t_def\<close>)
  have f: "?f k = Inr (mk k)" if "0 \<le> k" "k < 0 + n" for k using assms(4) that by (simp add: n_def)
  obtain results where results: "res_mapM (\<lambda>(lo, hi). join_thread (res_mapM ?f [unat lo..<unat hi]))
      (map (\<lambda>i. (of_nat (i * n div t) :: usize, of_nat (Suc i * n div t) :: usize)) [0..<t]) = Inr results"
    and all: "concat results = map mk [0..<n]"
    using threads_joined [where f = ?f and g = mk, OF n64(2) t(3) [OF assms(3)] f] unfolding add_0 by blast
  show ?thesis
    unfolding build_transactions_def assms(1) res_bind_Inr Let_def n_def [symmetric] t(1,2) chunks
      results [unfolded n_def [symmetric]] all ..
qed

subsection \<open>The parameters\<close>

lemma push_build_params_None:
  "push_build_params prof account mort k None =
     Inr (replicate k \<lparr>param_account = account, param_nonce = None, param_mortality = mort\<rparr>)"
  by (induction k) auto

lemma push_build_params_Some:
  assumes "unat n + k < 2 ^ 128"
  shows "push_build_params prof account mort k (Some n) =
    Inr (map (\<lambda>j. \<lparr>param_account = account, param_nonce = Some (n + of_nat j), param_mortality = mort\<rparr>) [0..<k])"
  using assms
proof (induction k arbitrary: n)
  case (Suc k)
  have add: "u_add prof n 1 = Inr (n + 1)" using Suc.prems by (simp add: u_add_def)
  have "unat (n + 1) = unat n + 1"
    using Suc.prems unat_add_lem [of n 1, THEN iffD1] by simp
  then have "unat (n + 1) + k < 2 ^ 128" using Suc.prems by simp
  from Suc.IH [OF this] show ?case
    by (simp add: add upt_conv_Cons algebra_simps comp_def flip: map_Suc_upt del: upt_Suc)
qed simp

definition param :: "u64 option \<Rightarrow> u128 option \<Rightarrow> nat \<Rightarrow> tx_build_params" where
  "param mort nonce account =
     \<lparr>param_account = show_nat account, param_nonce = nonce, param_mortality = mort\<rparr>"

lemma build_params_range:
  assumes "start_id sb = Some start" and "last_id sb = Some final" and "nonce_from sb = Some n"
    and "unat n + unat (txs_count sb) < 2 ^ 128"
  shows "build_params prof sb =
    Inr (concat (map (\<lambda>a. map (\<lambda>j. param (mortality sb) (Some (n + of_nat j)) a) [0..<unat (txs_count sb)])
      [unat start..<Suc (unat final)]))"
proof -
  have "unat (of_nat a :: u32) = a" if "a \<in> set [unat start..<Suc (unat final)]" for a
    by (rule unat_of_nat_small) (use that unat_bound [of final] in auto)
  then have "res_mapM (\<lambda>account. push_build_params prof (show_u32 (of_nat account)) (mortality sb)
        (unat (txs_count sb)) (Some n)) [unat start..<Suc (unat final)] =
      Inr (map (\<lambda>a. map (\<lambda>j. param (mortality sb) (Some (n + of_nat j)) a) [0..<unat (txs_count sb)])
        [unat start..<Suc (unat final)])"
    by (intro res_mapM_total) (simp add: push_build_params_Some [OF assms(4)] param_def show_u32_def del: upt_Suc)
  then show ?thesis by (simp add: build_params_def assms(1-3) del: upt_Suc)
qed

lemma build_params_range_fetch:
  assumes "start_id sb = Some start" and "last_id sb = Some final" and "nonce_from sb = None"
  shows "build_params prof sb =
    Inr (concat (map (\<lambda>a. replicate (unat (txs_count sb)) (param (mortality sb) None a))
      [unat start..<Suc (unat final)]))"
proof -
  have "unat (of_nat a :: u32) = a" if "a \<in> set [unat start..<Suc (unat final)]" for a
    by (rule unat_of_nat_small) (use that unat_bound [of final] in auto)
  then have "res_mapM (\<lambda>account. push_build_params prof (show_u32 (of_nat account)) (mortality sb)
        (unat (txs_count sb)) None) [unat start..<Suc (unat final)] =
      Inr (map (\<lambda>a. replicate (unat (txs_count sb)) (param (mortality sb) None a)) [unat start..<Suc (unat final)])"
    by (intro res_mapM_total) (simp add: push_build_params_None param_def show_u32_def del: upt_Suc)
  then show ?thesis by (simp add: build_params_def assms(1-3) del: upt_Suc)
qed

subsection \<open>Sorting blocks\<close>

lemma sort_key_eqI:
  assumes "sorted (map f ys)" and "\<And>k. filter (\<lambda>x. f x = k) ys = filter (\<lambda>x. f x = k) xs"
  shows "sort_key f xs = ys"
proof (rule properties_for_sort_key)
  show "mset ys = mset xs"
  proof (rule multiset_eqI)
    fix x
    have count: "count (mset zs) x = count (mset (filter (\<lambda>y. f y = f x) zs)) x" for zs
      by (induction zs) auto
    show "count (mset ys) x = count (mset xs) x"
      unfolding count [of ys] count [of xs] assms(2) ..
  qed
  show "filter (\<lambda>x. f k = f x) ys = filter (\<lambda>x. f k = f x) xs" if "k \<in> set ys" for k
    using assms(2) [of "f k"] by (simp add: eq_commute [of "f k"])
qed (rule assms(1))

text \<open>
  Blocks that each hold one element of every key are sorted into rounds: the elements of the first key
  in the order of the blocks, then those of the second key, and so on.
\<close>

lemma sorted_rounds:
  assumes "sorted (map key [0..<c])"
  shows "sorted (concat (map (\<lambda>j. replicate n (key j)) [0..<c]))"
proof -
  have "sorted (concat (map (\<lambda>j. replicate n (key j)) [0..<k]))" if "k \<le> c" for k
    using that
  proof (induction k)
    case (Suc k)
    have "key j \<le> key k" if "j < k" for j
      using assms that Suc.prems sorted_nth_mono [of "map key [0..<c]" j k] by simp
    with Suc show ?case by (auto simp: sorted_append)
  qed simp
  from this [of c] show ?thesis by simp
qed

lemma concat_one_round:
  assumes "inj_on key {0..<c}" and "j < c"
  shows "concat (map (\<lambda>i. if key i = key j then h i else []) [0..<c]) = h j"
proof -
  have eq: "key i = key j \<longleftrightarrow> i = j" if "i < c" for i
    using assms that by (auto dest: inj_onD)
  have split: "[0..<c] = [0..<j] @ j # [Suc j..<c]"
    using assms(2) by (metis less_imp_add_positive upt_add_eq_append upt_conv_Cons zero_le)
  have low: "concat (map (\<lambda>i. if key i = key j then h i else []) [0..<j]) = []"
    using assms(2) eq by (auto simp: concat_eq_Nil_conv)
  have high: "concat (map (\<lambda>i. if key i = key j then h i else []) [Suc j..<c]) = []"
    using eq by (auto simp: concat_eq_Nil_conv)
  show ?thesis unfolding split map_append list.map concat_append concat.simps low high by simp
qed

lemma sort_key_rounds:
  assumes "sorted (map key [0..<c])" and "inj_on key {0..<c}"
    and "\<And>a x. a \<in> set blocks \<Longrightarrow> x \<in> set (B a) \<Longrightarrow> f x \<in> key ` {0..<c}"
    and "\<And>a j. a \<in> set blocks \<Longrightarrow> j < c \<Longrightarrow> filter (\<lambda>x. f x = key j) (B a) = [g a j]"
  shows "sort_key f (concat (map B blocks)) = concat (map (\<lambda>j. map (\<lambda>a. g a j) blocks) [0..<c])"
proof (rule sort_key_eqI)
  have g: "f (g a j) = key j" if "a \<in> set blocks" "j < c" for a j
  proof -
    have "g a j \<in> set (filter (\<lambda>x. f x = key j) (B a))" using assms(4) [OF that] by simp
    then show ?thesis by simp
  qed
  have round: "map f (map (\<lambda>a. g a j) blocks) = replicate (length blocks) (key j)" if "j < c" for j
    using g [OF _ that] by (simp add: comp_def map_replicate_const [symmetric] cong: map_cong)
  have e: "map (\<lambda>j. map f (map (\<lambda>a. g a j) blocks)) [0..<c] = map (\<lambda>j. replicate (length blocks) (key j)) [0..<c]"
    by (rule map_cong [OF refl]) (use round in auto)
  have "sorted (concat (map (\<lambda>j. map f (map (\<lambda>a. g a j) blocks)) [0..<c]))"
    unfolding e by (rule sorted_rounds [OF assms(1)])
  then show "sorted (map f (concat (map (\<lambda>j. map (\<lambda>a. g a j) blocks) [0..<c])))"
    by (simp add: map_concat comp_def)
  fix k
  have blocks: "filter (\<lambda>x. f x = k) (concat (map B blocks)) = concat (map (\<lambda>a. filter (\<lambda>x. f x = k) (B a)) blocks)"
    by (simp add: filter_concat comp_def)
  have rounds: "filter (\<lambda>x. f x = k) (concat (map (\<lambda>j. map (\<lambda>a. g a j) blocks) [0..<c])) =
      concat (map (\<lambda>j. if key j = k then map (\<lambda>a. g a j) blocks else []) [0..<c])"
    unfolding filter_concat map_map comp_def
    by (rule arg_cong [of _ _ concat], rule map_cong [OF refl]) (use g in \<open>auto simp: filter_id_conv filter_empty_conv\<close>)
  show "filter (\<lambda>x. f x = k) (concat (map (\<lambda>j. map (\<lambda>a. g a j) blocks) [0..<c])) =
      filter (\<lambda>x. f x = k) (concat (map B blocks))"
  proof (cases "k \<in> key ` {0..<c}")
    case True
    then obtain j where j: "j < c" "k = key j" by auto
    have "concat (map (\<lambda>i. if key i = k then map (\<lambda>a. g a i) blocks else []) [0..<c]) = map (\<lambda>a. g a j) blocks"
      unfolding j(2) by (rule concat_one_round [OF assms(2) j(1)])
    moreover have "concat (map (\<lambda>a. filter (\<lambda>x. f x = k) (B a)) blocks) = map (\<lambda>a. g a j) blocks"
      using assms(4) j by (simp cong: map_cong)
    ultimately show ?thesis unfolding rounds blocks by simp
  next
    case False
    then have "concat (map (\<lambda>i. if key i = k then map (\<lambda>a. g a i) blocks else []) [0..<c]) = []"
      by (auto simp: concat_eq_Nil_conv)
    moreover have "concat (map (\<lambda>a. filter (\<lambda>x. f x = k) (B a)) blocks) = []"
      using False assms(3) by (fastforce simp: concat_eq_Nil_conv filter_empty_conv)
    ultimately show ?thesis unfolding rounds blocks by (simp only:)
  qed
qed

subsection \<open>The order of the transactions of a range\<close>

text \<open>A list of \<open>m\<close> blocks of \<open>c\<close> indices each, in which block \<open>b\<close> holds every \<open>g b j\<close> once, in some order.\<close>

lemma upt_blocks: "[0..<m * c] = concat (map (\<lambda>b. map ((+) (b * c)) [0..<c]) [0..<m])"
proof (induction m)
  case (Suc m)
  have "[0..<Suc m * c] = [0..<m * c] @ [m * c..<Suc m * c]"
    by (rule upt_glue [symmetric]) simp_all
  moreover have "[m * c..<Suc m * c] = map ((+) (m * c)) [0..<c]"
    using upt_shift [of "m * c" 0 c] by (simp add: add.commute)
  ultimately show ?case using Suc.IH by simp
qed simp

lemma distinct_singleton: "set xs = {x} \<Longrightarrow> distinct xs \<Longrightarrow> xs = [x]"
  by (cases xs; cases "tl xs") (auto simp: insert_eq_iff split: if_splits)

lemma filter_bij_upt:
  assumes "bij_betw p {0..<c} {0..<c}" and "j < (c :: nat)"
  shows "\<exists>i < c. p i = j \<and> filter (\<lambda>i. p i = j) [0..<c] = [i]"
proof -
  have "j \<in> p ` {0..<c}" using assms by (simp add: bij_betw_def)
  then obtain i where i: "i < c" "p i = j" by auto
  have only: "x = i" if "x < c" "p x = j" for x
    using assms(1) i that inj_onD [of p "{0..<c}" x i] by (simp add: bij_betw_def)
  have "set (filter (\<lambda>i. p i = j) [0..<c]) = {i}"
  proof (rule set_eqI)
    show "x \<in> set (filter (\<lambda>i. p i = j) [0..<c]) \<longleftrightarrow> x \<in> {i}" for x
      using i only [of x] by auto
  qed
  moreover have "distinct (filter (\<lambda>i. p i = j) [0..<c])" by simp
  ultimately have "filter (\<lambda>i. p i = j) [0..<c] = [i]"
    by (rule distinct_singleton)
  then show ?thesis using i by blast
qed

lemma build_rounds:
  fixes available :: usize and key :: "nat \<Rightarrow> u128"
  assumes "build_params prof sb = Inr ps" and "length ps = m * c" and "m * c < 2 ^ 32" and "0 < available"
    and build: "\<And>i. i < m * c \<Longrightarrow> build_tx i (watched_txs sb) (ps ! i) the_tip = Inr (mk i)"
    and perm: "\<And>b. b < m \<Longrightarrow> bij_betw (p b) {0..<c} {0..<c}"
    and mk: "\<And>b i. b < m \<Longrightarrow> i < c \<Longrightarrow> mk (b * c + i) = g b (p b i)"
    and nonce: "\<And>b j. b < m \<Longrightarrow> j < c \<Longrightarrow> task_nonce (g b j) = key j"
    and key: "sorted (map key [0..<c])" "inj_on key {0..<c}"
  shows "build_transactions prof available build_tx sb the_tip =
    Inr (concat (map (\<lambda>j. map (\<lambda>b. g b j) [0..<m]) [0..<c]))"
proof -
  have p: "p b i < c" if "b < m" "i < c" for b i using perm [OF that(1)] that(2) by (auto simp: bij_betw_def)
  have block: "map mk (map ((+) (b * c)) [0..<c]) = map (\<lambda>i. g b (p b i)) [0..<c]" if "b < m" for b
    using mk [OF that] by simp
  have "map mk [0..<m * c] = concat (map (\<lambda>b. map (\<lambda>i. g b (p b i)) [0..<c]) [0..<m])"
    unfolding upt_blocks map_concat map_map comp_def
    by (rule arg_cong [of _ _ concat], rule map_cong [OF refl]) (use mk in auto)
  moreover have "sort_key task_nonce (concat (map (\<lambda>b. map (\<lambda>i. g b (p b i)) [0..<c]) [0..<m])) =
      concat (map (\<lambda>j. map (\<lambda>b. g b j) [0..<m]) [0..<c])"
  proof (rule sort_key_rounds [OF key])
    show "task_nonce x \<in> key ` {0..<c}" if "b \<in> set [0..<m]" "x \<in> set (map (\<lambda>i. g b (p b i)) [0..<c])" for b x
      using that nonce p by auto
    fix b j
    assume b: "b \<in> set [0..<m]" and j: "j < c"
    then have bm: "b < m" by simp
    obtain i where i: "i < c" "p b i = j" "filter (\<lambda>i. p b i = j) [0..<c] = [i]"
      using filter_bij_upt [OF perm [OF bm] j] by blast
    have "task_nonce (g b (p b x)) = key j \<longleftrightarrow> p b x = j" if "x < c" for x
      using nonce [OF bm p [OF bm that]] inj_onD [OF key(2), of "p b x" j] p [OF bm that] j by auto
    then have "filter (\<lambda>x. task_nonce (g b (p b x)) = key j) [0..<c] = filter (\<lambda>i. p b i = j) [0..<c]"
      by (intro filter_cong) auto
    then show "filter (\<lambda>x. task_nonce x = key j) (map (\<lambda>i. g b (p b i)) [0..<c]) = [g b j]"
      using i by (simp add: filter_map comp_def)
  qed
  ultimately show ?thesis
    using build_transactions_eq [of prof sb ps available build_tx the_tip mk] assms(1-4) build by simp
qed

lemma blocks_index:
  "concat (map (\<lambda>a. map (f a) [0..<c]) [s..<s + m]) = map (\<lambda>k. f (s + k div c) (k mod c)) [0..<m * c]"
proof -
  have "map (\<lambda>i. f (s + (b * c + i) div c) (i mod c)) [0..<c] = map (f (s + b)) [0..<c]" for b
    by (rule map_cong [OF refl]) simp
  then have "map (\<lambda>k. f (s + k div c) (k mod c)) [0..<m * c] = concat (map (\<lambda>b. map (f (s + b)) [0..<c]) [0..<m])"
    unfolding upt_blocks map_concat map_map comp_def mod_mult_self3 mod_mult_self4 by (simp only:)
  then show ?thesis
    using upt_shift [of s 0 m] by (simp add: comp_def)
qed

lemma blocks_bound: "b < m \<Longrightarrow> i < c \<Longrightarrow> b * c + i < m * (c :: nat)"
proof -
  assume "b < m" and "i < c"
  then have "Suc b * c \<le> m * c" by (intro mult_right_mono) auto
  then show ?thesis using \<open>i < c\<close> by simp
qed

text \<open>The parameters of a range by index: transaction \<open>k\<close> is the one of round \<open>k mod c\<close> of account \<open>start + k div c\<close>.\<close>

lemma build_params_index:
  assumes "start_id sb = Some start" and "last_id sb = Some final" and "nonce_from sb = nonce"
    and "\<forall>n. nonce = Some n \<longrightarrow> unat n + unat (txs_count sb) < 2 ^ 128"
  shows "build_params prof sb =
    Inr (map (\<lambda>k. param (mortality sb) (map_option (\<lambda>n. n + of_nat (k mod unat (txs_count sb))) nonce)
        (unat start + k div unat (txs_count sb)))
      [0..<(Suc (unat final) - unat start) * unat (txs_count sb)])"
proof -
  let ?c = "unat (txs_count sb)" and ?m = "Suc (unat final) - unat start"
  let ?f = "\<lambda>a j. param (mortality sb) (map_option (\<lambda>n. n + of_nat j) nonce) a"
  have "build_params prof sb = Inr (concat (map (\<lambda>a. map (?f a) [0..<?c]) [unat start..<Suc (unat final)]))"
  proof (cases nonce)
    case None
    then show ?thesis
      using build_params_range_fetch [of sb start final prof] assms(1-3)
      by (simp add: map_replicate_const del: upt_Suc)
  next
    case (Some n)
    then show ?thesis
      using build_params_range [of sb start final n prof] assms by (simp del: upt_Suc)
  qed
  moreover have "concat (map (\<lambda>a. map (?f a) [0..<?c]) [unat start..<Suc (unat final)]) =
      concat (map (\<lambda>a. map (?f a) [0..<?c]) [unat start..<unat start + ?m])"
    by (cases "unat start \<le> Suc (unat final)") (simp_all del: upt_Suc)
  ultimately show ?thesis unfolding blocks_index by simp
qed

lemma filter_sort_key: "filter (\<lambda>t. f t = k) (sort_key f xs) = filter (\<lambda>t. f t = k) xs"
  using sort_key_stable [of f k xs] by (simp add: eq_commute [of k])

text \<open>
  C10: the transactions do not depend on how many threads build them: on every machine \<open>build_transactions\<close>
  returns the same list, which holds the transaction of every parameter once, in ascending order of the
  nonces, transactions with equal nonces in the order of their parameters.
\<close>

theorem build_transactions_any_threads:
  fixes available available' :: usize
  assumes "build_params prof sb = Inr ps" and "length ps < 2 ^ 32" and "0 < available" and "0 < available'"
    and "\<forall>i < length ps. build_tx i (watched_txs sb) (ps ! i) the_tip = Inr (mk i)"
  shows "\<exists>txs. build_transactions prof available build_tx sb the_tip = Inr txs \<and>
    build_transactions prof available' build_tx sb the_tip = Inr txs \<and>
    sorted (map task_nonce txs) \<and> mset txs = mset (map mk [0..<length ps]) \<and>
    (\<forall>k. filter (\<lambda>t. task_nonce t = k) txs = filter (\<lambda>t. task_nonce t = k) (map mk [0..<length ps]))"
proof -
  have "\<forall>n :: usize. 0 < n \<longrightarrow> build_transactions prof n build_tx sb the_tip =
      Inr (sort_key task_nonce (map mk [0..<length ps]))"
    using build_transactions_eq assms(1,2,5) by blast
  then show ?thesis using assms(3,4) by (simp add: filter_sort_key)
qed

lemma range_rounds:
  fixes available :: usize
  assumes "start_id sb = Some start" and "last_id sb = Some final" and "nonce_from sb = Some n"
    and "m = Suc (unat final) - unat start" and "c = unat (txs_count sb)"
    and "unat n + c < 2 ^ 128" and "m * c < 2 ^ 32" and "0 < available"
    and "\<forall>b j. b < m \<and> j < c \<longrightarrow>
      build_tx (b * c + j) (watched_txs sb) (param (mortality sb) (Some (n + of_nat j)) (unat start + b)) the_tip =
        Inr (mk b j) \<and> task_nonce (mk b j) = n + of_nat j"
  shows "build_transactions prof available build_tx sb the_tip =
    Inr (concat (map (\<lambda>j. map (\<lambda>b. mk b j) [0..<m]) [0..<c]))"
proof -
  let ?f = "\<lambda>b j. param (mortality sb) (Some (n + of_nat j)) (unat start + b)"
  have ps: "build_params prof sb = Inr (map (\<lambda>k. ?f (k div c) (k mod c)) [0..<m * c])"
    using build_params_index [OF assms(1-3), of prof] assms(4-6) by simp
  have add: "unat (n + of_nat j) = unat n + j" if "j < c" for j
  proof -
    have j: "unat (of_nat j :: u128) = j" using that assms(6) by simp
    then have "unat n + unat (of_nat j :: u128) < 2 ^ LENGTH(128)" using that assms(6) by simp
    from unat_add_lem [THEN iffD1, OF this] show ?thesis by (simp only: j)
  qed
  show ?thesis
  proof (rule build_rounds [where p = "\<lambda>_ i. i" and mk = "\<lambda>k. mk (k div c) (k mod c)"
        and key = "\<lambda>j. n + of_nat j", OF ps])
    show "sorted (map (\<lambda>j. n + of_nat j) [0..<c])"
      by (auto simp: sorted_iff_nth_mono word_le_nat_alt add)
    show "inj_on (\<lambda>j. n + of_nat j) {0..<c}"
      by (rule inj_onI) (use add in \<open>metis atLeastLessThan_iff add_left_cancel\<close>)
    fix i assume i: "i < m * c"
    then have "i div c < m" by (simp add: less_mult_imp_div_less)
    moreover have "i mod c < c" using i by (cases "c = 0") simp_all
    ultimately have "build_tx (i div c * c + i mod c) (watched_txs sb) (?f (i div c) (i mod c)) the_tip =
        Inr (mk (i div c) (i mod c))"
      using assms(9) by blast
    then show "build_tx i (watched_txs sb) (map (\<lambda>k. ?f (k div c) (k mod c)) [0..<m * c] ! i) the_tip =
        Inr (mk (i div c) (i mod c))"
      using i by simp
  qed (use assms(7-9) in \<open>simp_all add: bij_betw_def\<close>)
qed

text \<open>
  C24: with an explicit first nonce, a range of accounts is sent in rounds: every account's transaction with
  the first nonce, in the order of the ids, then every account's transaction with the next nonce, and so
  on, whatever the number of threads.
\<close>

theorem range_scenario_order:
  fixes available :: usize
  assumes "start_id sb = Some start" and "last_id sb = Some final" and "nonce_from sb = Some n"
    and "m = Suc (unat final) - unat start" and "c = unat (txs_count sb)"
    and "unat n + c < 2 ^ 128" and "m * c < 2 ^ 32" and "0 < available"
    and "\<forall>b j. b < m \<and> j < c \<longrightarrow>
      build_tx (b * c + j) (watched_txs sb) (param (mortality sb) (Some (n + of_nat j)) (unat start + b)) the_tip =
        Inr (mk b j) \<and> task_nonce (mk b j) = n + of_nat j"
  shows "build_transactions prof available build_tx sb the_tip =
    Inr (concat (map (\<lambda>j. map (\<lambda>b. mk b j) [0..<m]) [0..<c]))"
  using assms by (rule range_rounds)

subsection \<open>Examples\<close>

definition example_range :: "(unit, unit) scenario_builder" where
  "example_range = with_txs_count 2 (with_nonce_from (Some 3) (with_last_id 6 (with_start_id 5 scenario_builder_new)))"

definition example_built :: "tx_build_params \<Rightarrow> string tx_task" where
  "example_built p = new_watched \<lparr>tx_hash = param_account p,
     tx_nonce = (case param_nonce p of None \<Rightarrow> 0 | Some n \<Rightarrow> n), tx_valid_until = None,
     tx_account_metadata = (case parse_u32 (param_account p) of None \<Rightarrow> No_Account | Some i \<Rightarrow> Derived i)\<rparr>"

lemmas example_range_simps = example_range_def setter_defs scenario_builder_new_def

theorem range_scenario_order_witness:
  "build_transactions Debug 3 (\<lambda>_ _ p _. Inr (example_built p)) example_range 0 =
     Inr [example_built (param None (Some 3) 5), example_built (param None (Some 3) 6),
       example_built (param None (Some 4) 5), example_built (param None (Some 4) 6)]"
proof -
  let ?mk = "\<lambda>b j. example_built (param None (Some (3 + of_nat j)) (5 + b))"
  have "build_transactions Debug 3 (\<lambda>_ _ p _. Inr (example_built p)) example_range 0 =
    Inr (concat (map (\<lambda>j. map (\<lambda>b. ?mk b j) [0..<2]) [0..<2]))"
    by (rule range_scenario_order [of _ 5 6 3])
      (simp_all add: example_range_simps example_built_def new_watched_def param_def)
  then show ?thesis
    by (simp add: upt_rec [of 0] upt_rec [of "Suc 0"])
qed

theorem build_transactions_any_threads_witness:
  "\<exists>txs. build_transactions Debug 1 (\<lambda>_ _ p _. Inr (example_built p)) example_range 0 = Inr txs \<and>
    build_transactions Debug 7 (\<lambda>_ _ p _. Inr (example_built p)) example_range 0 = Inr txs \<and> sorted (map task_nonce txs)"
proof -
  define ps where "ps = map (\<lambda>k. param None (Some (3 + of_nat (k mod 2))) (5 + k div 2)) [0..<4]"
  have ps: "build_params Debug example_range = Inr ps"
    using build_params_index [of example_range 5 6 "Some 3" Debug]
    by (simp add: ps_def example_range_simps)
  show ?thesis
    using build_transactions_any_threads [OF ps, of 1 7 "\<lambda>_ _ p _. Inr (example_built p)" 0
        "\<lambda>i. example_built (ps ! i)"] by (auto simp: ps_def)
qed

end
