(* ===== verification/Subxt_Build.thy ===== *)
theory Subxt_Build
  imports Subxt_Sink Scenario_Order
begin

section \<open>Building transactions with subxt\<close>

text \<open>
  \<open>build_subxt_tx\<close> of \<open>src/subxt_transaction.rs\<close> with the functions it calls, the two transaction builders
  of \<open>src/transaction.rs\<close> on top of it, and the two chains that \<open>build\<close> of \<open>src/scenario.rs\<close> connects to.
  What subxt returns to one call of \<open>build_subxt_tx\<close> is the record \<open>tx_client\<close>: the partial transaction of
  every attempt, the offline one, the signature, and the last finalized block.
\<close>

subsection \<open>Data\<close>

record extrinsic_params =
  extrinsic_nonce :: u64
  extrinsic_tip :: u128
  extrinsic_mortal :: "u64 option"

record 's subxt_transaction =
  signed :: 's
  st_nonce :: u128
  st_valid_until :: "u64 option"
  st_account_metadata :: account_metadata

definition subxt_transaction_new ::
    "'s \<Rightarrow> u128 \<Rightarrow> u64 option \<Rightarrow> account_metadata \<Rightarrow> 's subxt_transaction" where
  "subxt_transaction_new tx nonce valid_until meta =
     \<lparr>signed = tx, st_nonce = nonce, st_valid_until = valid_until, st_account_metadata = meta\<rparr>"

definition subxt_as_transaction :: "('s \<Rightarrow> 'h) \<Rightarrow> 's subxt_transaction \<Rightarrow> 'h transaction" where
  "subxt_as_transaction hash_of t =
     \<lparr>tx_hash = hash_of (signed t), tx_nonce = st_nonce t, tx_valid_until = st_valid_until t,
      tx_account_metadata = st_account_metadata t\<rparr>"

record ('e, 'acc, 'kp, 'p, 's, 'ref) tx_client =
  create_partial :: "nat \<Rightarrow> dynamic_payload \<Rightarrow> 'acc \<Rightarrow> extrinsic_params \<Rightarrow> 'e + 'p"
  create_partial_offline :: "dynamic_payload \<Rightarrow> extrinsic_params \<Rightarrow> 'e + 'p"
  sign :: "'p \<Rightarrow> 'kp \<Rightarrow> 's"
  latest_finalized_block_ref :: "'e + 'ref"
  block_at :: "'ref \<Rightarrow> 'e + u64"

subsection \<open>A transaction with a mortality\<close>

definition tx_params :: "u64 option \<Rightarrow> u64 \<Rightarrow> u128 \<Rightarrow> extrinsic_params" where
  "tx_params mort nonce the_tip =
     (let params = \<lparr>extrinsic_nonce = nonce, extrinsic_tip = the_tip, extrinsic_mortal = None\<rparr>
      in case mort of
           Some mortal \<Rightarrow> params\<lparr>extrinsic_mortal := Some mortal\<rparr>
         | None \<Rightarrow> params)"

definition make_subxt_transaction ::
    "profile \<Rightarrow> ('e, 'acc, 'kp, 'p, 's, 'ref) tx_client \<Rightarrow> ('api, 'rpc, 'kp, 'm) subxt_sink \<Rightarrow> 'p \<Rightarrow> 'kp \<Rightarrow> u128 \<Rightarrow>
       u64 option \<Rightarrow> string \<Rightarrow> 's subxt_transaction res" where
  "make_subxt_transaction prof cl sink partial_tx from_keypair nonce mort account =
     res_bind (case mort of
         Some _ \<Rightarrow>
           res_bind (expect_ok ''to get the last finalized block ref. qed'' (latest_finalized_block_ref cl)) (\<lambda>block_ref.
           res_bind (expect_ok ''to get the corresponding block header. qed.'' (block_at cl block_ref)) (\<lambda>number.
           Inr (Some number)))
       | None \<Rightarrow> Inr None) (\<lambda>block_number.
     let submittable_tx = sign cl partial_tx from_keypair
     in res_bind (case mort of
           None \<Rightarrow> Inr None
         | Some mortal \<Rightarrow>
             (case block_number of
                None \<Rightarrow> Inr None
              | Some number \<Rightarrow> res_bind (u_add prof number mortal) (\<lambda>n. Inr (Some n)))) (\<lambda>valid_until.
     res_bind (opt_expect ''account metadata exists'' (get_to_account_metadata account sink)) (\<lambda>meta.
     Inr (subxt_transaction_new submittable_tx nonce valid_until meta))))"

definition default_retries :: nat where
  "default_retries = 10"

text \<open>The loop over the attempts; the result inside the computation is the \<open>Result\<close> of the function.\<close>

fun create_online_loop ::
    "profile \<Rightarrow> ('e, 'acc, 'kp, 'p, 's, 'ref) tx_client \<Rightarrow> ('api, 'rpc, 'kp, 'm) subxt_sink \<Rightarrow> dynamic_payload \<Rightarrow>
       'acc \<Rightarrow> 'kp \<Rightarrow> u128 \<Rightarrow> u64 option \<Rightarrow> string \<Rightarrow> u128 \<Rightarrow> nat list \<Rightarrow> ('e error + 's subxt_transaction) res" where
  "create_online_loop prof cl sink tx_call from_id from_keypair nonce mort account the_tip [] =
     Inr (Inl (Other ''failed to create transaction with online client''))"
| "create_online_loop prof cl sink tx_call from_id from_keypair nonce mort account the_tip (i # attempts) =
     (case create_partial cl i tx_call from_id (tx_params mort (ucast nonce) the_tip) of
        Inr tx \<Rightarrow>
          res_bind (make_subxt_transaction prof cl sink tx from_keypair nonce mort account) (\<lambda>t. Inr (Inr t))
      | Inl _ \<Rightarrow>
          create_online_loop prof cl sink tx_call from_id from_keypair nonce mort account the_tip attempts)"

definition create_online_transaction ::
    "profile \<Rightarrow> ('e, 'acc, 'kp, 'p, 's, 'ref) tx_client \<Rightarrow> 'kp \<Rightarrow> u128 \<Rightarrow> u64 option \<Rightarrow> string \<Rightarrow>
       ('api, 'rpc, 'kp, 'm) subxt_sink \<Rightarrow> 'acc \<Rightarrow> 'acc \<Rightarrow> u128 \<Rightarrow> 'acc payload_builder \<Rightarrow>
       ('e error + 's subxt_transaction) res" where
  "create_online_transaction prof cl from_keypair nonce mort account sink from_id to_id the_tip payload_builder =
     res_bind (payload_builder \<lparr>to_account_id = to_id, from_account_id = from_id, ctx_account = account,
         ctx_nonce = nonce\<rparr>) (\<lambda>tx_call.
     create_online_loop prof cl sink tx_call from_id from_keypair nonce mort account the_tip [0..<default_retries])"

subsection \<open>Building a transaction\<close>

text \<open>
  \<open>nonce_answer\<close> is what the sink's \<open>check_account_nonce\<close> returns to this call, if it is made. An immortal
  transaction is built offline.
\<close>

definition build_subxt_tx ::
    "profile \<Rightarrow> ('kp \<Rightarrow> 'acc) \<Rightarrow> ('e, 'acc, 'kp, 'p, 's, 'ref) tx_client \<Rightarrow> ('acc \<Rightarrow> 'e box_error + u128) \<Rightarrow>
       tx_build_params \<Rightarrow> u128 \<Rightarrow> ('api, 'rpc, 'kp, 'm) subxt_sink \<Rightarrow> 'acc payload_builder \<Rightarrow> 's subxt_transaction res" where
  "build_subxt_tx prof account_of cl nonce_answer params the_tip sink payload_builder =
     (let account = param_account params
      in res_bind (opt_expect ''to account exists'' (get_to_account_id account_of account sink)) (\<lambda>to_id.
      res_bind (opt_expect ''from account exists'' (get_from_account_id account_of account sink)) (\<lambda>from_id.
      res_bind (opt_expect ''from account exists'' (get_from_key_pair account sink)) (\<lambda>from_keypair.
      res_bind (case param_nonce params of
          Some nonce \<Rightarrow> Inr nonce
        | None \<Rightarrow> expect_ok ''account nonce shall exists'' (nonce_answer from_id)) (\<lambda>nonce.
      case param_mortality params of
        Some _ \<Rightarrow>
          res_bind (create_online_transaction prof cl from_keypair nonce (param_mortality params) account sink
              from_id to_id the_tip payload_builder) (\<lambda>r.
          expect_ok ''failed to create mortal transaction'' r)
      | None \<Rightarrow>
          (let params = \<lparr>extrinsic_nonce = ucast nonce, extrinsic_tip = the_tip, extrinsic_mortal = None\<rparr>
           in res_bind (payload_builder \<lparr>to_account_id = to_id, from_account_id = from_id, ctx_account = account,
                ctx_nonce = nonce\<rparr>) (\<lambda>tx_call.
           res_bind (case create_partial_offline cl tx_call params of Inl _ \<Rightarrow> Inl Unwrap_Failed | Inr p \<Rightarrow> Inr p) (\<lambda>p.
           res_bind (opt_expect ''account metadata exists'' (get_to_account_metadata account sink)) (\<lambda>meta.
           Inr (subxt_transaction_new (sign cl p from_keypair) nonce None meta))))))))))"

definition substrate_build_transaction ::
    "profile \<Rightarrow> ('s \<Rightarrow> 'h) \<Rightarrow> ('kp \<Rightarrow> 'acc) \<Rightarrow> ('e, 'acc, 'kp, 'p, 's, 'ref) tx_client \<Rightarrow> ('acc \<Rightarrow> 'e box_error + u128) \<Rightarrow>
       bool \<Rightarrow> tx_build_params \<Rightarrow> u128 \<Rightarrow> ('api, 'rpc, 'kp, 'm) subxt_sink \<Rightarrow> 'acc payload_builder \<Rightarrow> 'h tx_task res" where
  "substrate_build_transaction prof hash_of account_of cl nonce_answer watched params the_tip sink payload_builder =
     res_bind (build_subxt_tx prof account_of cl nonce_answer params the_tip sink payload_builder) (\<lambda>tx.
     Inr (if watched then new_watched (subxt_as_transaction hash_of tx)
          else new_unwatched (subxt_as_transaction hash_of tx)))"

definition eth_build_transaction ::
    "profile \<Rightarrow> ('s \<Rightarrow> 'h) \<Rightarrow> ('kp \<Rightarrow> 'acc) \<Rightarrow> ('e, 'acc, 'kp, 'p, 's, 'ref) tx_client \<Rightarrow> ('acc \<Rightarrow> 'e box_error + u128) \<Rightarrow>
       bool \<Rightarrow> tx_build_params \<Rightarrow> u128 \<Rightarrow> ('api, 'rpc, 'kp, 'm) subxt_sink \<Rightarrow> 'acc payload_builder \<Rightarrow> 'h tx_task res" where
  "eth_build_transaction prof hash_of account_of cl nonce_answer watched params the_tip sink payload_builder =
     res_bind (build_subxt_tx prof account_of cl nonce_answer params the_tip sink payload_builder) (\<lambda>tx.
     Inr (if watched then new_watched (subxt_as_transaction hash_of tx)
          else new_unwatched (subxt_as_transaction hash_of tx)))"

subsection \<open>What a transaction is built from\<close>

text \<open>
  The nonce is a \<open>u128\<close> in the tool and a \<open>u64\<close> in the extrinsic: a nonce from \<open>2 ^ 64\<close> on is recorded as it is and
  signed without its upper half.
\<close>

lemma nonce_truncated:
  assumes "build_subxt_tx prof account_of cl nonce_answer params the_tip sink payload_builder = Inr tx"
    and "param_nonce params = Some (2 ^ 64)" and "param_mortality params = None"
  shows "\<exists>tx_call p kp meta.
    create_partial_offline cl tx_call \<lparr>extrinsic_nonce = 0, extrinsic_tip = the_tip, extrinsic_mortal = None\<rparr> = Inr p \<and>
    tx = subxt_transaction_new (sign cl p kp) (2 ^ 64) None meta"
proof -
  have low: "(18446744073709551616 :: u64) = 0" by simp
  show ?thesis
    using assms by (auto simp: build_subxt_tx_def Let_def res_bind_eq_Inr low split: sum.splits) (metis old.sum.exhaust)
qed

lemma create_online_retried:
  "(\<forall>i \<in> set is. \<exists>e. create_partial cl i tx_call from_id (tx_params mort (ucast nonce) the_tip) = Inl e) \<Longrightarrow>
   create_online_loop prof cl sink tx_call from_id kp nonce mort account the_tip (is @ js) =
     create_online_loop prof cl sink tx_call from_id kp nonce mort account the_tip js"
  by (induction "is") auto

lemma create_online_first:
  assumes "k < default_retries"
    and "\<forall>i < k. \<exists>e. create_partial cl i tx_call from_id (tx_params mort (ucast nonce) the_tip) = Inl e"
    and "create_partial cl k tx_call from_id (tx_params mort (ucast nonce) the_tip) = Inr p"
  shows "create_online_loop prof cl sink tx_call from_id kp nonce mort account the_tip [0..<default_retries] =
    res_bind (make_subxt_transaction prof cl sink p kp nonce mort account) (\<lambda>t. Inr (Inr t))"
proof -
  have "[0..<default_retries] = [0..<k] @ k # [Suc k..<default_retries]"
    using assms(1) by (metis less_imp_add_positive upt_add_eq_append upt_conv_Cons zero_le)
  then show ?thesis
    using create_online_retried [of "[0..<k]" cl tx_call from_id mort nonce the_tip prof sink kp account
        "k # [Suc k..<default_retries]"] assms(2,3) by simp
qed

text \<open>
  C27: a mortal transaction takes up to ten attempts: it is built from the first partial transaction that
  the node makes, with the nonce that was asked for, valid until the last finalized block plus its
  mortality, under the receiver's metadata; and the build panics only after ten failures. The nonce in
  the extrinsic is the low 64 bits of the transaction's.
\<close>

theorem mortal_transaction_attempts:
  assumes "to_accounts sink account = Some (kp', meta)" and "from_accounts sink account = Some (kp, meta')"
    and "param_account params = account" and "param_nonce params = Some nonce" and "param_mortality params = Some mort"
    and "payload_builder \<lparr>to_account_id = account_of kp', from_account_id = account_of kp, ctx_account = account,
      ctx_nonce = nonce\<rparr> = Inr tx_call"
    and "latest_finalized_block_ref cl = Inr block" and "block_at cl block = Inr number"
    and "unat number + unat mort < 2 ^ 64"
  shows "(\<forall>k p. k < default_retries \<longrightarrow>
      (\<forall>i < k. \<exists>e. create_partial cl i tx_call (account_of kp) (tx_params (Some mort) (ucast nonce) the_tip) = Inl e) \<longrightarrow>
      create_partial cl k tx_call (account_of kp) (tx_params (Some mort) (ucast nonce) the_tip) = Inr p \<longrightarrow>
      build_subxt_tx prof account_of cl nonce_answer params the_tip sink payload_builder =
        Inr \<lparr>signed = sign cl p kp, st_nonce = nonce, st_valid_until = Some (number + mort), st_account_metadata = meta\<rparr>) \<and>
    ((\<forall>i < default_retries. \<exists>e. create_partial cl i tx_call (account_of kp)
        (tx_params (Some mort) (ucast nonce) the_tip) = Inl e) \<longrightarrow>
      build_subxt_tx prof account_of cl nonce_answer params the_tip sink payload_builder =
        Inl (Expect_Failed ''failed to create mortal transaction''))"
proof (intro conjI allI impI)
  note build_simps = build_subxt_tx_def create_online_transaction_def get_to_account_id_def get_from_account_id_def
    get_from_key_pair_def get_to_account_metadata_def
  fix k p
  assume k: "k < default_retries"
    "\<forall>i < k. \<exists>e. create_partial cl i tx_call (account_of kp) (tx_params (Some mort) (ucast nonce) the_tip) = Inl e"
    "create_partial cl k tx_call (account_of kp) (tx_params (Some mort) (ucast nonce) the_tip) = Inr p"
  have "make_subxt_transaction prof cl sink p kp nonce (Some mort) account =
      Inr \<lparr>signed = sign cl p kp, st_nonce = nonce, st_valid_until = Some (number + mort), st_account_metadata = meta\<rparr>"
    using assms(1,7-9) by (simp add: make_subxt_transaction_def expect_ok_def Let_def u_add_def
        get_to_account_metadata_def subxt_transaction_new_def)
  then show "build_subxt_tx prof account_of cl nonce_answer params the_tip sink payload_builder =
      Inr \<lparr>signed = sign cl p kp, st_nonce = nonce, st_valid_until = Some (number + mort), st_account_metadata = meta\<rparr>"
    using assms(1-6) create_online_first [OF k, of prof sink kp account]
    by (simp add: build_simps expect_ok_def Let_def)
next
  assume fails: "\<forall>i < default_retries. \<exists>e. create_partial cl i tx_call (account_of kp)
    (tx_params (Some mort) (ucast nonce) the_tip) = Inl e"
  have "create_online_loop prof cl sink tx_call (account_of kp) kp nonce (Some mort) account the_tip [0..<default_retries] =
      Inr (Inl (Other ''failed to create transaction with online client''))"
    using create_online_retried [of "[0..<default_retries]" cl tx_call "account_of kp" "Some mort" nonce the_tip prof sink kp
        account "[]"] fails by simp
  then show "build_subxt_tx prof account_of cl nonce_answer params the_tip sink payload_builder =
      Inl (Expect_Failed ''failed to create mortal transaction'')"
    using assms(1-6) by (simp add: build_subxt_tx_def create_online_transaction_def get_to_account_id_def
        get_from_account_id_def get_from_key_pair_def expect_ok_def Let_def)
qed

subsection \<open>The accounts of a scenario\<close>

lemma push_build_params_account:
  "push_build_params prof account mort k nonce = Inr ps \<Longrightarrow> p \<in> set ps \<Longrightarrow> param_account p = account"
  by (induction k arbitrary: nonce ps) (auto simp: res_bind_eq_Inr)

lemma res_mapM_mem:
  "res_mapM f xs = Inr ys \<Longrightarrow> y \<in> set ys \<Longrightarrow> \<exists>x \<in> set xs. f x = Inr y"
  by (induction xs arbitrary: ys) (auto simp: res_bind_eq_Inr)

lemma build_params_accounts:
  assumes "build_params prof sb = Inr ps" and "p \<in> set ps"
  shows "case start_id sb of
      Some start \<Rightarrow> \<exists>i. start \<le> i \<and> i \<le> (case last_id sb of Some l \<Rightarrow> l | None \<Rightarrow> start) \<and> param_account p = show_u32 i
    | None \<Rightarrow> account_id sb = Some (param_account p)"
proof (cases "start_id sb")
  case None
  then show ?thesis
    using assms push_build_params_account by (auto simp: build_params_def res_bind_eq_Inr opt_expect_eq_Inr)
next
  case (Some start)
  define final where "final = (case last_id sb of Some l \<Rightarrow> l | None \<Rightarrow> start)"
  obtain pss where pss: "res_mapM (\<lambda>account. push_build_params prof (show_u32 (of_nat account)) (mortality sb)
      (unat (txs_count sb)) (nonce_from sb)) [unat start..<Suc (unat final)] = Inr pss" and ps: "ps = concat pss"
    using assms(1) Some by (auto simp: build_params_def res_bind_eq_Inr final_def Let_def)
  obtain qs where qs: "qs \<in> set pss" "p \<in> set qs" using assms(2) ps by auto
  obtain a where a: "a \<in> set [unat start..<Suc (unat final)]"
    "push_build_params prof (show_u32 (of_nat a)) (mortality sb) (unat (txs_count sb)) (nonce_from sb) = Inr qs"
    using res_mapM_mem [OF pss qs(1)] by blast
  have "unat (of_nat a :: u32) = a" using a(1) unat_bound [of final] by (intro unat_of_nat_small) auto
  then have "start \<le> of_nat a" "of_nat a \<le> final" using a(1) by (auto simp: word_le_nat_alt)
  then show ?thesis using push_build_params_account [OF a(2) qs(2)] Some by (auto simp: final_def)
qed

lemma push_build_params_mortality:
  "push_build_params prof account mort k nonce = Inr ps \<Longrightarrow> p \<in> set ps \<Longrightarrow> param_mortality p = mort"
  by (induction k arbitrary: nonce ps) (auto simp: res_bind_eq_Inr)

lemma build_params_mortality:
  assumes "build_params prof sb = Inr ps" and "p \<in> set ps"
  shows "param_mortality p = mortality sb"
proof (cases "start_id sb")
  case None
  then show ?thesis
    using assms push_build_params_mortality by (auto simp: build_params_def res_bind_eq_Inr)
next
  case (Some start)
  then obtain pss where pss: "res_mapM (\<lambda>account. push_build_params prof (show_u32 (of_nat account)) (mortality sb)
      (unat (txs_count sb)) (nonce_from sb)) [unat start..<Suc (unat (case last_id sb of Some l \<Rightarrow> l | None \<Rightarrow> start))] = Inr pss"
    and "ps = concat pss"
    using assms(1) by (auto simp: build_params_def res_bind_eq_Inr Let_def)
  then obtain qs where "qs \<in> set pss" "p \<in> set qs" using assms(2) by auto
  with res_mapM_mem [OF pss] push_build_params_mortality show ?thesis by blast
qed

text \<open>Every transaction of a scenario is what its builder made for one of the parameters, with the tip.\<close>

lemma build_transactions_built:
  assumes "build_transactions prof available build_tx sb the_tip = Inr txs" and "t \<in> set txs"
  shows "\<exists>i ps p. build_params prof sb = Inr ps \<and> p \<in> set ps \<and> build_tx i (watched_txs sb) p the_tip = Inr t"
proof -
  let ?one = "\<lambda>ps i. if i < length ps then build_tx i (watched_txs sb) (ps ! i) the_tip else Inl Index_Out_Of_Bounds"
  have "\<exists>ps chunks results. build_params prof sb = Inr ps \<and>
      res_mapM (\<lambda>(lo :: usize, hi :: usize). join_thread (res_mapM (?one ps) [unat lo..<unat hi])) chunks = Inr results \<and>
      txs = sort_key task_nonce (concat results)"
    using assms(1) unfolding build_transactions_def Let_def
    by (elim res_bind_InrE) (intro exI conjI, assumption, assumption, simp)
  then obtain ps and chunks :: "(usize \<times> usize) list" and results where ps: "build_params prof sb = Inr ps"
    and results: "res_mapM (\<lambda>(lo :: usize, hi :: usize). join_thread (res_mapM (?one ps) [unat lo..<unat hi])) chunks = Inr results"
    and txs: "txs = sort_key task_nonce (concat results)"
    by blast
  obtain ts where ts: "ts \<in> set results" "t \<in> set ts" using assms(2) txs by auto
  from res_mapM_mem [OF results ts(1)] obtain lo hi :: usize where "res_mapM (?one ps) [unat lo..<unat hi] = Inr ts"
    by (auto simp: join_thread_def split: sum.splits)
  from res_mapM_mem [OF this ts(2)] obtain i where "?one ps i = Inr t" by blast
  then have "i < length ps" "build_tx i (watched_txs sb) (ps ! i) the_tip = Inr t" by (auto split: if_splits)
  then show ?thesis using ps nth_mem by blast
qed

lemma immortal_signed:
  assumes "build_subxt_tx prof account_of cl nonce_answer params the_tip sink payload_builder = Inr tx"
    and "param_mortality params = None"
  shows "\<exists>ctx tx_call p kp. ctx_nonce ctx = st_nonce tx \<and> payload_builder ctx = Inr tx_call \<and>
    create_partial_offline cl tx_call \<lparr>extrinsic_nonce = ucast (st_nonce tx), extrinsic_tip = the_tip, extrinsic_mortal = None\<rparr> =
      Inr p \<and> signed tx = sign cl p kp"
proof -
  obtain to_id from_id kp nonce tx_call p meta
    where "payload_builder \<lparr>to_account_id = to_id, from_account_id = from_id, ctx_account = param_account params,
        ctx_nonce = nonce\<rparr> = Inr tx_call"
      and "(case create_partial_offline cl tx_call
          \<lparr>extrinsic_nonce = ucast nonce, extrinsic_tip = the_tip, extrinsic_mortal = None\<rparr> of
        Inl _ \<Rightarrow> Inl Unwrap_Failed | Inr p \<Rightarrow> Inr p) = Inr p"
      and "tx = subxt_transaction_new (sign cl p kp) nonce None meta"
    using assms unfolding build_subxt_tx_def Let_def by (auto simp: res_bind_eq_Inr)
  then show ?thesis
    by (intro exI [of _ "\<lparr>to_account_id = to_id, from_account_id = from_id, ctx_account = param_account params,
        ctx_nonce = nonce\<rparr>"] exI) (auto simp: subxt_transaction_new_def split: sum.splits)
qed

text \<open>
  C26: which transactions of a scenario find their account among those that \<open>build\<close> derives, when the range of
  ids is not empty: all, except those of a single account whose id is written with superfluous characters,
  such as \<open>05\<close> or \<open>+5\<close>. The account is then derived under the number and looked up under the text, so that
  \<open>build_subxt_tx\<close> panics. Any generator of keys that derives all ids will do, for senders and receivers alike.
\<close>

theorem scenario_accounts_exist:
  fixes available :: usize
  assumes "accounts_of prof sb = Inr description" and "build_params prof sb = Inr ps" and "p \<in> set ps"
    and "derive_accounts prof available description seed generate = Inr accounts"
    and "\<forall>i. generate (Request_Derived seed i) = Inr (key i)" and "0 < available"
    and "\<forall>start stop. description = Derived_Range start stop \<longrightarrow> start < stop"
  shows "(\<exists>a. accounts (param_account p) = Some a) \<longleftrightarrow>
    \<not> (start_id sb = None \<and> (\<exists>name i. account_id sb = Some name \<and> parse_u32 name = Some i \<and> name \<noteq> show_u32 i))"
proof (cases description)
  case (Keyring name)
  then have "start_id sb = None" "account_id sb = Some name" "parse_u32 name = None"
    using assms(1) by (auto simp: accounts_of_def res_bind_eq_Inr opt_expect_eq_Inr split: option.splits)
  then show ?thesis
    using assms(4) build_params_accounts [OF assms(2,3)] Keyring by (auto simp: derive_accounts_def res_bind_eq_Inr)
next
  case (Derived_Range start stop)
  have "start < stop" using assms(7) Derived_Range by simp
  then have "start \<le> stop" by (rule less_imp_le)
  then obtain accounts' where
    "derive_accounts prof available (Derived_Range start stop) seed generate = Inr accounts'"
    and dom': "dom accounts' = {show_u32 i | i. start \<le> i \<and> i < stop}"
    using range_accounts_derived [of start stop available generate seed key prof] assms(5,6) by auto
  then have dom: "dom accounts = {show_u32 i | i. start \<le> i \<and> i < stop}"
    using assms(4) Derived_Range by simp
  have succ: "j < stop" if "u_add prof i 1 = Inr stop" "j \<le> i" "start \<le> i" for i j
  proof -
    have "stop = i + 1"
      using that(1) by (auto simp: u_add_def on_overflow_def split: if_splits profile.splits)
    moreover from this have "1 + i \<noteq> 0" using \<open>start < stop\<close> by (auto simp: add.commute)
    ultimately show ?thesis using that(2) unatSuc [of i] by (simp add: word_less_nat_alt word_le_nat_alt add.commute)
  qed
  show ?thesis
  proof (cases "start_id sb")
    case None
    then obtain name i where i: "account_id sb = Some name" "parse_u32 name = Some i" "i = start" "u_add prof i 1 = Inr stop"
      using assms(1) Derived_Range by (auto simp: accounts_of_def res_bind_eq_Inr opt_expect_eq_Inr split: option.splits)
    have name: "param_account p = name"
      using build_params_accounts [OF assms(2,3)] None i(1) by simp
    have "stop = start + 1"
      using i(3,4) by (auto simp: u_add_def on_overflow_def split: if_splits profile.splits)
    then have "j = start" if "start \<le> j" "j < stop" for j
      using that \<open>start < stop\<close> by (metis inc_le antisym not_less)
    then have "dom accounts = {show_u32 start}" using dom \<open>start < stop\<close> by auto
    then have "(\<exists>a. accounts name = Some a) \<longleftrightarrow> name = show_u32 start" by blast
    then show ?thesis using None i(1-3) by (simp add: name)
  next
    case (Some s)
    define final where "final = (case last_id sb of Some l \<Rightarrow> l | None \<Rightarrow> s)"
    have s: "s = start" "u_add prof final 1 = Inr stop"
      using assms(1) Derived_Range Some by (auto simp: accounts_of_def res_bind_eq_Inr final_def Let_def)
    obtain i where "start \<le> i" "i \<le> final" "param_account p = show_u32 i"
      using build_params_accounts [OF assms(2,3)] Some s(1) by (auto simp: final_def)
    then have "\<exists>a. accounts (param_account p) = Some a"
      using dom succ [OF s(2)] by (metis (mono_tags, lifting) domD mem_Collect_eq order_trans)
    then show ?thesis using Some by simp
  qed
qed

subsection \<open>Examples\<close>

text \<open>A key pair is its URI, a payload its own partial transaction; the node fails three times.\<close>

definition example_client :: "(unit, string, string, dynamic_payload \<times> extrinsic_params, string \<times> u64, unit) tx_client" where
  "example_client = \<lparr>create_partial = (\<lambda>i tx_call _ params. if i < 3 then Inl () else Inr (tx_call, params)),
     create_partial_offline = (\<lambda>tx_call params. Inr (tx_call, params)),
     sign = (\<lambda>p kp. (kp, extrinsic_nonce (snd p))), latest_finalized_block_ref = Inr (), block_at = (\<lambda>_. Inr 100)\<rparr>"

definition example_accounts_sink :: "(unit, unit, string, unit) subxt_sink" where
  "example_accounts_sink = \<lparr>api = (), from_accounts = [''7'' \<mapsto> (''from'', Derived 7)],
     to_accounts = [''7'' \<mapsto> (''to'', Derived 7)], nonces = Map.empty, rpc_client = (),
     current_pending_extrinsics = None, block_monitor = None\<rparr>"

theorem mortal_transaction_attempts_witness:
  "\<exists>payload. build_subxt_tx Debug id example_client (\<lambda>_. Inl (Boxed ())) \<lparr>param_account = ''7'', param_nonce = Some 5,
      param_mortality = Some 64\<rparr> 0 example_accounts_sink (\<lambda>_. Inr payload) =
    Inr \<lparr>signed = (''from'', 5), st_nonce = 5, st_valid_until = Some 164, st_account_metadata = Derived 7\<rparr>"
proof (intro exI)
  let ?payload = "\<lparr>pallet_name = ''System'', call_name = ''remark'', call_fields = []\<rparr>"
  let ?params = "\<lparr>param_account = ''7'', param_nonce = Some 5, param_mortality = Some 64\<rparr>"
  have "(\<forall>k p. k < default_retries \<longrightarrow>
      (\<forall>i < k. \<exists>e. create_partial example_client i ?payload (id ''from'') (tx_params (Some 64) (ucast (5 :: u128)) 0) = Inl e) \<longrightarrow>
      create_partial example_client k ?payload (id ''from'') (tx_params (Some 64) (ucast (5 :: u128)) 0) = Inr p \<longrightarrow>
      build_subxt_tx Debug id example_client (\<lambda>_. Inl (Boxed ())) ?params 0 example_accounts_sink (\<lambda>_. Inr ?payload) =
        Inr \<lparr>signed = sign example_client p ''from'', st_nonce = 5, st_valid_until = Some (100 + 64),
          st_account_metadata = Derived 7\<rparr>)"
    by (rule mortal_transaction_attempts [THEN conjunct1])
      (simp_all add: example_client_def example_accounts_sink_def)
  from this [rule_format, of 3 "(?payload, tx_params (Some 64) (ucast (5 :: u128)) 0)"]
  show "build_subxt_tx Debug id example_client (\<lambda>_. Inl (Boxed ())) ?params 0 example_accounts_sink (\<lambda>_. Inr ?payload) =
    Inr \<lparr>signed = (''from'', 5), st_nonce = 5, st_valid_until = Some 164, st_account_metadata = Derived 7\<rparr>"
    by (simp add: example_client_def default_retries_def tx_params_def)
qed

definition example_account_7 :: "(unit, unit) scenario_builder" where
  "example_account_7 = with_account_id ''7'' scenario_builder_new"

theorem scenario_accounts_exist_witness:
  "\<exists>accounts a. derive_accounts Debug 4 (Derived_Range 7 8) sender_seed example_generate = Inr accounts \<and>
    accounts ''7'' = Some a"
proof -
  have parse: "parse_u32 ''7'' = Some 7" by (simp add: parse_u32_def parse_uint_def digit_value_def)
  have desc: "accounts_of Debug example_account_7 = Inr (Derived_Range 7 8)"
    by (simp add: accounts_of_def example_account_7_def setter_defs scenario_builder_new_def parse u_add_def)
  let ?p = "\<lparr>param_account = ''7'', param_nonce = None, param_mortality = None\<rparr>"
  have params: "build_params Debug example_account_7 = Inr [?p]"
    by (simp add: build_params_def example_account_7_def setter_defs scenario_builder_new_def push_build_params_None)
  obtain accounts where accounts: "derive_accounts Debug 4 (Derived_Range 7 8) sender_seed example_generate = Inr accounts"
    using derive_accounts_entries [of 7 8 4 example_generate sender_seed "derivation_uri sender_seed" Debug]
    by (auto simp: example_generate_Derived)
  have show7: "show_u32 7 = ''7''" by (simp add: show_u32_def show_nat.simps digit_char_def char_of_def bit_0)
  have "\<exists>a. accounts (param_account ?p) = Some a"
    by (rule scenario_accounts_exist [OF desc params _ accounts, THEN iffD2])
      (auto simp: example_generate_Derived example_account_7_def setter_defs scenario_builder_new_def parse show7)
  then show ?thesis using accounts by auto
qed

text \<open>
  A single id with a superfluous zero: \<open>05\<close> parses as the id 5, whose account is derived under the name \<open>5\<close>,
  and the look-up of the literal \<open>05\<close> panics.
\<close>

lemma superfluous_zero_panics:
  assumes "accounts_of Debug (with_account_id ''05'' scenario_builder_new) = Inr description"
    and "derive_accounts Debug 4 description receiver_seed example_generate = Inr accounts"
    and "to_accounts sink = accounts" and "param_account params = ''05''"
  shows "build_subxt_tx Debug account_of cl nonce_answer params the_tip sink payload_builder =
    Inl (Expect_Failed ''to account exists'')"
proof -
  have parse: "parse_u32 ''05'' = Some 5" by (simp add: parse_u32_def parse_uint_def digit_value_def)
  have d: "description = Derived_Range 5 6"
    using assms(1) by (simp add: accounts_of_def setter_defs scenario_builder_new_def parse u_add_def)
  have "accounts = collect_map (map (account_entry (derivation_uri receiver_seed)) [5..<6])"
    using assms(2) derive_accounts_entries [of 5 6 4 example_generate receiver_seed "derivation_uri receiver_seed" Debug]
    by (simp add: d example_generate_Derived)
  moreover have "show_nat 5 = ''5''" by (simp add: show_nat.simps digit_char_def char_of_def bit_0)
  ultimately have "accounts ''05'' = None" by (simp add: account_entry_def upt_rec [of 5])
  then show ?thesis using assms(3,4) by (simp add: build_subxt_tx_def get_to_account_id_def)
qed

end
