(* ===== verification/Chain_Service.thy ===== *)
theory Chain_Service
  imports Scenario_Order
begin

section \<open>The interface of a chain\<close>

text \<open>
  \<open>build\<close> of \<open>src/scenario.rs\<close> uses a chain through its sink and its transaction builder, in one and the same
  way for both kinds of chains. The locale below states what it relies on; the composition of \<open>build\<close> for a
  range of accounts is proved from that, and holds for every chain that keeps the contract.
\<close>

text \<open>What a runner will send, in the order in which it pops its transactions.\<close>

type_synonym entry = "u128 \<times> account_metadata \<times> u64 option \<times> bool"

definition sent_entry :: "'h tx_task \<Rightarrow> entry" where
  "sent_entry t = (task_nonce t, tx_account_metadata (task_tx t), tx_valid_until (task_tx t), task_watched t)"

definition sending_order :: "'h runner \<Rightarrow> entry list" where
  "sending_order r = map sent_entry (rev (transactions r))"

lemma sending_order_new [simp]: "sending_order (runner_new threshold (rev txs) f b e limit) = map sent_entry txs"
  by (simp add: sending_order_def runner_new_def)

lemma runner_new_settings [simp]:
  "send_threshold (runner_new threshold txs f b e limit) = threshold" "timeout (runner_new threshold txs f b e limit) = limit"
  "transactions (runner_new threshold txs f b e limit) = txs"
  by (simp_all add: runner_new_def)

text \<open>
  The accounts of a range are known to a sink under their ids. Building an immortal transaction for a known
  account succeeds, with the nonce that was asked for, or else the one that the sink answers to this call.
\<close>

locale chain_service =
  fixes ch :: "('s, 'c, 'h) chain"
    and reachable :: "string \<Rightarrow> bool \<Rightarrow> bool"
    and knows :: "'s \<Rightarrow> string \<Rightarrow> account_metadata \<Rightarrow> bool"
    and answers :: "'s \<Rightarrow> nat \<Rightarrow> string \<Rightarrow> u128 \<Rightarrow> bool"
    and signs :: "nat \<Rightarrow> bool"
  assumes connects: "reachable uri legacy \<Longrightarrow> unat start + m = Suc (unat final) \<Longrightarrow> 0 < m \<Longrightarrow> unat final + 1 < 2 ^ 32 \<Longrightarrow>
      \<exists>sink. chain_sink ch uri (Derived_Range start (final + 1)) monitoring legacy = Inr sink \<and>
        (\<forall>b < m. knows sink (show_nat (unat start + b)) (Derived (of_nat (unat start + b))))"
    and builds: "knows sink (param_account p) meta \<Longrightarrow> param_mortality p = None \<Longrightarrow>
      (case param_nonce p of Some k \<Rightarrow> k = n | None \<Rightarrow> answers sink i (param_account p) n) \<Longrightarrow>
      \<forall>ctx. \<exists>tx_call. payload_builder ctx = Inr tx_call \<Longrightarrow> signs i \<Longrightarrow>
      \<exists>t. chain_build_tx ch sink payload_builder i watched p the_tip = Inr t \<and> sent_entry t = (n, meta, None, watched)"
begin

lemma builds_all:
  assumes "\<forall>ctx. \<exists>tx_call. payload_builder ctx = Inr tx_call" and "\<forall>i. signs i"
    and "\<And>i. i < k \<Longrightarrow> knows sink (param_account (p i)) (meta i) \<and> param_mortality (p i) = None \<and>
      (case param_nonce (p i) of Some n' \<Rightarrow> n' = n i | None \<Rightarrow> answers sink i (param_account (p i)) (n i))"
  shows "\<exists>mk. \<forall>i < k. chain_build_tx ch sink payload_builder i watched (p i) the_tip = Inr (mk i) \<and>
    sent_entry (mk i) = (n i, meta i, None, watched)"
proof -
  have "\<forall>i. \<exists>t. i < k \<longrightarrow> chain_build_tx ch sink payload_builder i watched (p i) the_tip = Inr t \<and>
      sent_entry t = (n i, meta i, None, watched)"
  proof
    fix i
    show "\<exists>t. i < k \<longrightarrow> chain_build_tx ch sink payload_builder i watched (p i) the_tip = Inr t \<and>
      sent_entry t = (n i, meta i, None, watched)"
    proof (cases "i < k")
      case True
      note p = assms(3) [OF this]
      from builds [OF p [THEN conjunct1] p [THEN conjunct2, THEN conjunct1] p [THEN conjunct2, THEN conjunct2] assms(1)] assms(2)
      show ?thesis by blast
    qed simp
  qed
  then show ?thesis by metis
qed

text \<open>With an explicit first nonce the accounts of a range are sent in rounds.\<close>

lemma range_in_rounds:
  fixes available :: usize
  assumes "start_id sb = Some start" and "last_id sb = Some final" and "nonce_from sb = Some n" and "mortality sb = None"
    and "\<forall>ctx. \<exists>tx_call. payload_builder ctx = Inr tx_call"
    and "unat start + m = Suc (unat final)" and "0 < m" and "c = unat (txs_count sb)"
    and "unat final + 1 < 2 ^ 32" and "unat n + c < 2 ^ 128" and "m * c < 2 ^ 32" and "0 < available"
    and "reachable uri (use_legacy_backend sb)" and "\<forall>i. signs i"
  shows "\<exists>r. build_on prof available ch payload_builder threshold uri (Derived_Range start (final + 1)) sb = Inr r \<and>
    sending_order r = concat (map (\<lambda>j. map (\<lambda>b. (n + of_nat j, Derived (of_nat (unat start + b)), None, watched_txs sb))
      [0..<m]) [0..<c]) \<and>
    send_threshold r = threshold \<and> timeout r = builder_timeout sb"
proof -
  let ?p = "\<lambda>b j. param (mortality sb) (Some (n + of_nat j)) (unat start + b)"
  let ?meta = "\<lambda>b. Derived (of_nat (unat start + b))"
  obtain sink where sink: "chain_sink ch uri (Derived_Range start (final + 1)) (does_block_monitoring sb) (use_legacy_backend sb) = Inr sink"
    and known: "\<forall>b < m. knows sink (show_nat (unat start + b)) (?meta b)"
    using connects [OF assms(13,6,7,9)] by blast
  have "\<exists>mk. \<forall>i < m * c. chain_build_tx ch sink payload_builder i (watched_txs sb) (?p (i div c) (i mod c)) (tip sb) = Inr (mk i) \<and>
      sent_entry (mk i) = (n + of_nat (i mod c), ?meta (i div c), None, watched_txs sb)"
    by (rule builds_all [OF assms(5,14)]) (use known assms(4) in \<open>simp add: param_def less_mult_imp_div_less\<close>)
  then obtain mk where mk: "\<forall>i < m * c. chain_build_tx ch sink payload_builder i (watched_txs sb) (?p (i div c) (i mod c)) (tip sb) = Inr (mk i) \<and>
      sent_entry (mk i) = (n + of_nat (i mod c), ?meta (i div c), None, watched_txs sb)" by blast
  have index: "b * c + j < m * c \<and> (b * c + j) div c = b \<and> (b * c + j) mod c = j" if "b < m" "j < c" for b j
  proof -
    have "b * c + j < Suc b * c" using that(2) by simp
    also have "\<dots> \<le> m * c" using that(1) by (intro mult_right_mono) auto
    finally show ?thesis using that by simp
  qed
  have entry: "sent_entry (mk (b * c + j)) = (n + of_nat j, ?meta b, None, watched_txs sb)" if "b < m" "j < c" for b j
    using mk index [OF that] by metis
  have "build_transactions prof available (chain_build_tx ch sink payload_builder) sb (tip sb) =
      Inr (concat (map (\<lambda>j. map (\<lambda>b. mk (b * c + j)) [0..<m]) [0..<c]))"
  proof (rule range_rounds [OF assms(1-3) _ assms(8,10-12)])
    show "\<forall>b j. b < m \<and> j < c \<longrightarrow> chain_build_tx ch sink payload_builder (b * c + j) (watched_txs sb) (?p b j) (tip sb) =
        Inr (mk (b * c + j)) \<and> task_nonce (mk (b * c + j)) = n + of_nat j"
    proof (intro allI impI)
      fix b j
      assume bj: "b < m \<and> j < c"
      then have "task_nonce (mk (b * c + j)) = n + of_nat j" using entry [of b j] by (simp add: sent_entry_def)
      then show "chain_build_tx ch sink payload_builder (b * c + j) (watched_txs sb) (?p b j) (tip sb) =
          Inr (mk (b * c + j)) \<and> task_nonce (mk (b * c + j)) = n + of_nat j"
        using mk index [of b j] bj by fastforce
    qed
  qed (use assms(6) in simp)
  moreover have "map sent_entry (concat (map (\<lambda>j. map (\<lambda>b. mk (b * c + j)) [0..<m]) [0..<c])) =
      concat (map (\<lambda>j. map (\<lambda>b. (n + of_nat j, ?meta b, None, watched_txs sb)) [0..<m]) [0..<c])"
    unfolding map_concat map_map comp_def
    by (intro arg_cong [of _ _ concat] map_cong refl) (use entry in simp)
  ultimately show ?thesis using sink by (simp add: build_on_def)
qed

end

text \<open>\<open>build\<close> on a chain, once the settings of the scenario are given.\<close>

lemma build_Sub:
  assumes "builder_chain_type sb = Some Sub" and "rpc_uri sb = Some uri" and "builder_send_threshold sb = Some threshold"
    and "tx_payload_builder_source sb = Some source" and "into_sub_builder ids source = Inr payload_builder"
    and "accounts_of prof sb = Inr accounts" and "build_on prof available sub payload_builder threshold uri accounts sb = Inr r"
  shows "build prof available ids sub eth sb = Inr (Substrate_Executor r, installs_ctrl_c_stop_hook sb)"
  using assms by (simp add: build_def)

lemma build_Eth:
  assumes "builder_chain_type sb = Some Eth" and "rpc_uri sb = Some uri" and "builder_send_threshold sb = Some threshold"
    and "tx_payload_builder_source sb = Some source" and "into_eth_builder ids source = Inr payload_builder"
    and "accounts_of prof sb = Inr accounts" and "build_on prof available eth payload_builder threshold uri accounts sb = Inr r"
  shows "build prof available ids sub eth sb = Inr (Eth_Executor r, installs_ctrl_c_stop_hook sb)"
  using assms by (simp add: build_def)

lemma accounts_of_range:
  assumes "start_id sb = Some start" and "last_id sb = Some final" and "unat final + 1 < 2 ^ 32"
  shows "accounts_of prof sb = Inr (Derived_Range start (final + 1))"
  using assms by (simp add: accounts_of_def u_add_def)

end
