(* ===== verification/Subxt_Chain.thy ===== *)
theory Subxt_Chain
  imports Subxt_Build Chain_Service
begin

section \<open>The two chains\<close>

text \<open>
  What \<open>build\<close> of \<open>src/scenario.rs\<close> connects to for \<open>ChainType::Sub\<close> and \<open>ChainType::Eth\<close>: the sink with the
  accounts of the scenario, and the builder on it. Both keep the contract \<open>chain_service\<close>. The last part is on
  the nonces that the tasks of \<open>build_transactions\<close> fetch concurrently.
\<close>

text \<open>
  The cryptography of a chain: its development keys, the parser of secret URIs, the key of a URI, the
  account of a key and the hash of a signed transaction.
\<close>

record ('d, 'u, 'kp, 'acc, 's, 'h) crypto =
  dev_key :: "'d \<Rightarrow> 'kp"
  parse_uri :: "string \<Rightarrow> 'u option"
  from_uri :: "'u \<Rightarrow> 'kp option"
  account_of :: "'kp \<Rightarrow> 'acc"
  hash_of :: "'s \<Rightarrow> 'h"

text \<open>
  The calls of the chain's node by the transaction they are made for: the \<open>i\<close>-th call of \<open>build_transaction\<close>
  talks to \<open>client_of i\<close> and is given the nonce \<open>nonce_of i\<close> by \<open>check_account_nonce\<close>, if it asks for one.
  \<open>monitor_new\<close> connects a block monitor.
\<close>

record ('e, 'f, 'api, 'rpc, 'm, 'acc, 'kp, 'p, 's, 'ref) remote =
  remote_net :: "('e, 'f, 'api, 'rpc) net"
  monitor_new :: "string \<Rightarrow> 'm res"
  client_of :: "nat \<Rightarrow> ('e, 'acc, 'kp, 'p, 's, 'ref) tx_client"
  nonce_of :: "nat \<Rightarrow> 'acc \<Rightarrow> 'e box_error + u128"

definition chain_monitor :: "(string \<Rightarrow> 'm res) \<Rightarrow> string \<Rightarrow> bool \<Rightarrow> 'm option res" where
  "chain_monitor new uri does_monitoring =
     (if does_monitoring then res_bind (new uri) (\<lambda>m. Inr (Some m)) else Inr None)"

definition substrate_chain ::
    "profile \<Rightarrow> usize \<Rightarrow> (sr25519_dev, 'u, 'kp, 'acc, 's, 'h) crypto \<Rightarrow>
       ('e, 'f, 'api, 'rpc, 'm, 'acc, 'kp, 'p, 's, 'ref) remote \<Rightarrow> (('api, 'rpc, 'kp, 'm) subxt_sink, 'acc, 'h) chain" where
  "substrate_chain prof available cr rem =
     \<lparr>chain_sink = (\<lambda>uri accounts monitoring legacy.
        res_bind (chain_monitor (monitor_new rem) uri monitoring) (\<lambda>monitor.
        new_with_uri_with_accounts_description (remote_net rem) prof available uri accounts
          (generate_sr25519_keypair (dev_key cr) (parse_uri cr) (from_uri cr)) monitor legacy)),
      chain_build_tx = (\<lambda>sink payload_builder i watched params the_tip.
        substrate_build_transaction prof (hash_of cr) (account_of cr) (client_of rem i) (nonce_of rem i)
          watched params the_tip sink payload_builder)\<rparr>"

definition eth_chain ::
    "profile \<Rightarrow> usize \<Rightarrow> (eth_dev, 'u, 'kp, 'acc, 's, 'h) crypto \<Rightarrow>
       ('e, 'f, 'api, 'rpc, 'm, 'acc, 'kp, 'p, 's, 'ref) remote \<Rightarrow> (('api, 'rpc, 'kp, 'm) subxt_sink, 'acc, 'h) chain" where
  "eth_chain prof available cr rem =
     \<lparr>chain_sink = (\<lambda>uri accounts monitoring legacy.
        res_bind (chain_monitor (monitor_new rem) uri monitoring) (\<lambda>monitor.
        new_with_uri_with_accounts_description (remote_net rem) prof available uri accounts
          (generate_ecdsa_keypair (dev_key cr) (parse_uri cr) (from_uri cr)) monitor legacy)),
      chain_build_tx = (\<lambda>sink payload_builder i watched params the_tip.
        eth_build_transaction prof (hash_of cr) (account_of cr) (client_of rem i) (nonce_of rem i)
          watched params the_tip sink payload_builder)\<rparr>"

subsection \<open>Immortal transactions and ranges of accounts\<close>

definition offline_signing :: "('e, 'acc, 'kp, 'p, 's, 'ref) tx_client \<Rightarrow> bool" where
  "offline_signing cl \<longleftrightarrow> (\<forall>tx_call params. \<exists>p. create_partial_offline cl tx_call params = Inr p)"

lemma immortal_build:
  assumes "to_accounts sink account = Some (kp', meta)" and "from_accounts sink account = Some (kp, meta')"
    and "param_account params = account" and "param_mortality params = None"
    and "case param_nonce params of Some n \<Rightarrow> n = nonce | None \<Rightarrow> nonce_answer (acc_of kp) = Inr nonce"
    and "\<forall>ctx. \<exists>tx_call. payload_builder ctx = Inr tx_call" and "offline_signing cl"
  shows "\<exists>s. build_subxt_tx prof acc_of cl nonce_answer params the_tip sink payload_builder =
    Inr \<lparr>signed = s, st_nonce = nonce, st_valid_until = None, st_account_metadata = meta\<rparr>"
proof -
  let ?ctx = "\<lparr>to_account_id = acc_of kp', from_account_id = acc_of kp, ctx_account = account, ctx_nonce = nonce\<rparr>"
  let ?params = "\<lparr>extrinsic_nonce = ucast nonce, extrinsic_tip = the_tip, extrinsic_mortal = None\<rparr>"
  obtain tx_call where "payload_builder ?ctx = Inr tx_call" using assms(6) by blast
  moreover obtain p where "create_partial_offline cl tx_call ?params = Inr p"
    using assms(7) unfolding offline_signing_def by blast
  ultimately show ?thesis
    using assms(1-5) by (simp add: build_subxt_tx_def get_to_account_id_def get_from_account_id_def
        get_from_key_pair_def get_to_account_metadata_def subxt_transaction_new_def expect_ok_def Let_def
        split: option.splits)
qed

lemma derived_range_lookup:
  fixes available :: usize
  assumes "unat start + m = Suc (unat final)" and "0 < m" and "unat final + 1 < 2 ^ 32" and "0 < available"
    and "\<forall>i. generate (Request_Derived seed i) = Inr (key i)"
  shows "\<exists>accounts. derive_accounts prof available (Derived_Range start (final + 1)) seed generate = Inr accounts \<and>
    (\<forall>b < m. accounts (show_nat (unat start + b)) =
      Some (key (of_nat (unat start + b)), Derived (of_nat (unat start + b))))"
proof -
  have "unat final + unat (1 :: u32) < 2 ^ LENGTH(32)" using assms(3) by simp
  from unat_add_lem [THEN iffD1, OF this] have stop: "unat (final + 1) = unat start + m" using assms(1) by simp
  then have "start \<le> final + 1" by (simp add: word_le_nat_alt)
  have "\<forall>i. start \<le> i \<and> i < final + 1 \<longrightarrow> generate (Request_Derived seed i) = Inr (key i)"
    using assms(5) by simp
  from range_accounts_derived [OF \<open>start \<le> final + 1\<close> assms(4) this, of prof] obtain accounts where
    accounts: "derive_accounts prof available (Derived_Range start (final + 1)) seed generate = Inr accounts"
    and entries: "\<forall>i. start \<le> i \<and> i < final + 1 \<longrightarrow> accounts (show_u32 i) = Some (key i, Derived i)"
    by (elim exE conjE)
  have "accounts (show_nat (unat start + b)) = Some (key (of_nat (unat start + b)), Derived (of_nat (unat start + b)))"
    if "b < m" for b
  proof -
    have "unat start + b < 2 ^ LENGTH(32)" using that assms(1,3) by simp
    then have u: "unat (of_nat (unat start + b) :: u32) = unat start + b" by (rule unat_of_nat_small)
    then have "start \<le> of_nat (unat start + b)" "of_nat (unat start + b) < final + 1"
      using that stop unfolding word_le_nat_alt word_less_nat_alt u by simp_all
    then have "accounts (show_u32 (of_nat (unat start + b))) =
        Some (key (of_nat (unat start + b)), Derived (of_nat (unat start + b)))" using entries by blast
    then show ?thesis unfolding show_u32_def u .
  qed
  then show ?thesis using accounts by blast
qed

subsection \<open>The contract of the two chains\<close>

text \<open>
  A node is reachable if the connections that \<open>build\<close> opens succeed; that every id has a key is the promise of
  the key generator.
\<close>

definition node_reachable ::
    "usize \<Rightarrow> (account_generate_request \<Rightarrow> 'kp res) \<Rightarrow> ('e, 'f, 'api, 'rpc, 'm, 'acc, 'kp, 'p, 's, 'ref) remote \<Rightarrow>
       string \<Rightarrow> bool \<Rightarrow> bool" where
  "node_reachable available generate rem uri legacy \<longleftrightarrow> 0 < available \<and>
     (\<forall>seed i. \<exists>kp. generate (Request_Derived seed i) = Inr kp) \<and>
     (\<exists>a. net_connect (remote_net rem) uri legacy = Inr a) \<and> (\<exists>cl. net_client (remote_net rem) uri = Inr cl) \<and>
     (\<exists>bm. monitor_new rem uri = Inr bm)"

definition sink_knows :: "('api, 'rpc, 'kp, 'm) subxt_sink \<Rightarrow> string \<Rightarrow> account_metadata \<Rightarrow> bool" where
  "sink_knows sink account meta \<longleftrightarrow>
     (\<exists>kp kp'. from_accounts sink account = Some (kp, meta) \<and> to_accounts sink account = Some (kp', meta))"

definition sink_answers ::
    "('kp \<Rightarrow> 'acc) \<Rightarrow> ('e, 'f, 'api, 'rpc, 'm, 'acc, 'kp, 'p, 's, 'ref) remote \<Rightarrow> ('api, 'rpc, 'kp, 'm) subxt_sink \<Rightarrow> nat \<Rightarrow>
       string \<Rightarrow> u128 \<Rightarrow> bool" where
  "sink_answers acc_of rem sink i account n \<longleftrightarrow>
     (\<exists>kp meta. from_accounts sink account = Some (kp, meta) \<and> nonce_of rem i (acc_of kp) = Inr n)"

text \<open>The sink of a range of accounts has the keys of the range, as senders and as receivers.\<close>

lemma range_sink:
  fixes available :: usize
  assumes "node_reachable available generate rem uri legacy"
    and "unat start + m = Suc (unat final)" and "0 < m" and "unat final + 1 < 2 ^ 32"
  shows "\<exists>monitor sink. chain_monitor (monitor_new rem) uri monitoring = Inr monitor \<and>
    new_with_uri_with_accounts_description (remote_net rem) prof available uri (Derived_Range start (final + 1)) generate monitor legacy =
      Inr sink \<and>
    (\<forall>b < m. \<exists>kp kp'. from_accounts sink (show_nat (unat start + b)) = Some (kp, Derived (of_nat (unat start + b))) \<and>
      generate (Request_Derived sender_seed (of_nat (unat start + b))) = Inr kp \<and>
      to_accounts sink (show_nat (unat start + b)) = Some (kp', Derived (of_nat (unat start + b))))"
proof -
  have "0 < available" using assms(1) by (simp add: node_reachable_def)
  obtain key where key: "\<forall>seed i. generate (Request_Derived seed i) = Inr (key seed i)"
    using assms(1) unfolding node_reachable_def by metis
  obtain senders where senders: "derive_accounts prof available (Derived_Range start (final + 1)) sender_seed generate = Inr senders"
    "\<forall>b < m. senders (show_nat (unat start + b)) = Some (key sender_seed (of_nat (unat start + b)), Derived (of_nat (unat start + b)))"
    using derived_range_lookup [OF assms(2-4) \<open>0 < available\<close>, of generate sender_seed "key sender_seed" prof] key by blast
  obtain receivers where receivers: "derive_accounts prof available (Derived_Range start (final + 1)) receiver_seed generate = Inr receivers"
    "\<forall>b < m. receivers (show_nat (unat start + b)) = Some (key receiver_seed (of_nat (unat start + b)), Derived (of_nat (unat start + b)))"
    using derived_range_lookup [OF assms(2-4) \<open>0 < available\<close>, of generate receiver_seed "key receiver_seed" prof] key by blast
  obtain a cl bm where net: "net_connect (remote_net rem) uri legacy = Inr a"
    "net_client (remote_net rem) uri = Inr cl" "monitor_new rem uri = Inr bm"
    using assms(1) unfolding node_reachable_def by blast
  let ?monitor = "if monitoring then Some bm else None"
  let ?sink = "\<lparr>api = a, from_accounts = senders, to_accounts = receivers, nonces = Map.empty, rpc_client = cl,
    current_pending_extrinsics = None, block_monitor = ?monitor\<rparr>"
  have "chain_monitor (monitor_new rem) uri monitoring = Inr ?monitor" using net(3) by (simp add: chain_monitor_def)
  moreover have "new_with_uri_with_accounts_description (remote_net rem) prof available uri (Derived_Range start (final + 1))
      generate ?monitor legacy = Inr ?sink"
    using net by (simp add: new_with_uri_with_accounts_description_def senders receivers expect_ok_def)
  moreover have "\<forall>b < m. \<exists>kp kp'. from_accounts ?sink (show_nat (unat start + b)) = Some (kp, Derived (of_nat (unat start + b))) \<and>
      generate (Request_Derived sender_seed (of_nat (unat start + b))) = Inr kp \<and>
      to_accounts ?sink (show_nat (unat start + b)) = Some (kp', Derived (of_nat (unat start + b)))"
    using senders(2) receivers(2) key by simp
  ultimately show ?thesis by blast
qed

lemma known_build:
  assumes "sink_knows sink (param_account p) meta" and "param_mortality p = None"
    and "case param_nonce p of Some k \<Rightarrow> k = n | None \<Rightarrow> sink_answers acc_of rem sink i (param_account p) n"
    and "\<forall>ctx. \<exists>tx_call. payload_builder ctx = Inr tx_call" and "offline_signing (client_of rem i)"
  shows "\<exists>s. build_subxt_tx prof acc_of (client_of rem i) (nonce_of rem i) p the_tip sink payload_builder =
    Inr \<lparr>signed = s, st_nonce = n, st_valid_until = None, st_account_metadata = meta\<rparr>"
proof -
  obtain kp kp' where lookup: "from_accounts sink (param_account p) = Some (kp, meta)" "to_accounts sink (param_account p) = Some (kp', meta)"
    using assms(1) unfolding sink_knows_def by blast
  show ?thesis
    by (rule immortal_build [OF lookup(2,1)])
      (use assms(2-5) lookup(1) in \<open>simp_all add: sink_answers_def split: option.splits\<close>)
qed

lemmas built_entry_defs = subxt_as_transaction_def new_watched_def new_unwatched_def sent_entry_def

interpretation substrate: chain_service "substrate_chain prof available cr rem"
    "node_reachable available (generate_sr25519_keypair (dev_key cr) (parse_uri cr) (from_uri cr)) rem"
    sink_knows "sink_answers (account_of cr) rem" "\<lambda>i. offline_signing (client_of rem i)"
proof unfold_locales
  fix uri legacy monitoring and start final :: u32 and m
  let ?gen = "generate_sr25519_keypair (dev_key cr) (parse_uri cr) (from_uri cr)"
  assume "node_reachable available ?gen rem uri legacy" "unat start + m = Suc (unat final)" "0 < m" "unat final + 1 < 2 ^ 32"
  from range_sink [OF this, of monitoring prof] show "\<exists>sink. chain_sink (substrate_chain prof available cr rem) uri
      (Derived_Range start (final + 1)) monitoring legacy = Inr sink \<and>
    (\<forall>b < m. sink_knows sink (show_nat (unat start + b)) (Derived (of_nat (unat start + b))))"
    by (force simp: substrate_chain_def sink_knows_def)
next
  show "\<exists>t. chain_build_tx (substrate_chain prof available cr rem) sink payload_builder i watched p the_tip = Inr t \<and>
      sent_entry t = (n, meta, None, watched)"
    if "sink_knows sink (param_account p) meta" "param_mortality p = None"
      "case param_nonce p of Some k \<Rightarrow> k = n | None \<Rightarrow> sink_answers (account_of cr) rem sink i (param_account p) n"
      "\<forall>ctx. \<exists>tx_call. payload_builder ctx = Inr tx_call" "offline_signing (client_of rem i)"
    for sink p meta n i payload_builder watched the_tip
    using known_build [OF that, of prof the_tip] by (auto simp: substrate_chain_def substrate_build_transaction_def built_entry_defs)
qed

interpretation ethereum: chain_service "eth_chain prof available cr rem"
    "node_reachable available (generate_ecdsa_keypair (dev_key cr) (parse_uri cr) (from_uri cr)) rem"
    sink_knows "sink_answers (account_of cr) rem" "\<lambda>i. offline_signing (client_of rem i)"
proof unfold_locales
  fix uri legacy monitoring and start final :: u32 and m
  let ?gen = "generate_ecdsa_keypair (dev_key cr) (parse_uri cr) (from_uri cr)"
  assume "node_reachable available ?gen rem uri legacy" "unat start + m = Suc (unat final)" "0 < m" "unat final + 1 < 2 ^ 32"
  from range_sink [OF this, of monitoring prof] show "\<exists>sink. chain_sink (eth_chain prof available cr rem) uri
      (Derived_Range start (final + 1)) monitoring legacy = Inr sink \<and>
    (\<forall>b < m. sink_knows sink (show_nat (unat start + b)) (Derived (of_nat (unat start + b))))"
    by (force simp: eth_chain_def sink_knows_def)
next
  show "\<exists>t. chain_build_tx (eth_chain prof available cr rem) sink payload_builder i watched p the_tip = Inr t \<and>
      sent_entry t = (n, meta, None, watched)"
    if "sink_knows sink (param_account p) meta" "param_mortality p = None"
      "case param_nonce p of Some k \<Rightarrow> k = n | None \<Rightarrow> sink_answers (account_of cr) rem sink i (param_account p) n"
      "\<forall>ctx. \<exists>tx_call. payload_builder ctx = Inr tx_call" "offline_signing (client_of rem i)"
    for sink p meta n i payload_builder watched the_tip
    using known_build [OF that, of prof the_tip] by (auto simp: eth_chain_def eth_build_transaction_def built_entry_defs)
qed

subsection \<open>Nonces fetched from the node\<close>

lemma mset_filter_map_snd:
  "mset (issued_to a xs) = image_mset snd (filter_mset (\<lambda>x. fst x = a) (mset xs))"
  by (simp add: issued_to_def mset_filter)

lemma map_sort_key: "map f (sort_key f xs) = sort (map f xs)"
  by (rule properties_for_sort [symmetric]) simp_all

lemma consecutive_sorted:
  fixes r :: u128
  assumes "unat r + k < 2 ^ 128"
  shows "sorted (map (\<lambda>i. r + of_nat i) [0..<k])"
proof -
  have "unat (r + of_nat i) = unat r + i" if "i < k" for i
  proof -
    have i: "unat (of_nat i :: u128) = i" using that assms by simp
    then have "unat r + unat (of_nat i :: u128) < 2 ^ LENGTH(128)" using that assms by simp
    from unat_add_lem [THEN iffD1, OF this] show ?thesis by (simp only: i)
  qed
  then show ?thesis by (auto simp: sorted_iff_nth_mono word_le_nat_alt)
qed

text \<open>All calls have returned, call \<open>i\<close> with the nonce \<open>ns i\<close>.\<close>

definition all_returned :: "string list \<Rightarrow> 'e nonce_state \<Rightarrow> (nat \<Rightarrow> u128) \<Rightarrow> bool" where
  "all_returned accounts s ns \<longleftrightarrow>
     ns_calls s = map (\<lambda>i. (accounts ! i, Nonce_Returned (Inr (ns i)))) [0..<length accounts]"

lemma all_returned_nonces:
  fixes s :: "'e nonce_state"
  assumes "all_returned accounts s ns"
  shows "returned_nonces (ns_calls s) = mset (map (\<lambda>i. (accounts ! i, ns i)) [0..<length accounts])"
proof -
  have "filter_map returned_nonce (map (\<lambda>i. (accounts ! i, Nonce_Returned (Inr (ns i)) :: 'e nonce_pc)) is) =
      map (\<lambda>i. (accounts ! i, ns i)) is" for "is"
    by (induction "is") auto
  then show ?thesis using assms unfolding all_returned_def returned_nonces_def by simp
qed

lemma mset_pairs_of:
  "image_mset snd (filter_mset (\<lambda>x. fst x = a) (mset (map (\<lambda>t. (f t, g t)) xs))) =
     mset (map g (filter (\<lambda>t. f t = a) xs))"
  by (induction xs) auto

text \<open>
  Without an explicit first nonce, the transactions of every account are sent with consecutive nonces,
  in ascending order, from the nonce that the node reported for the account: whatever the threads and
  however their calls of \<open>check_account_nonce\<close> interleave, no nonce is skipped, repeated or sent out of
  order. \<open>account_in t\<close> is the sender that the transaction \<open>t\<close> was built for, \<open>mk i\<close> what the
  \<open>i\<close>-th call builds.
\<close>

lemma sent_to_issued:
  assumes "mset issuance = mset (map (\<lambda>t. (account_in t, task_nonce t)) ts)"
  shows "map task_nonce (filter (\<lambda>t. account_in t = a) (sort_key task_nonce ts)) = sort (issued_to a issuance)"
    and "length (issued_to a issuance) = count_list (map account_in ts) a"
proof -
  have "mset (issued_to a issuance) = image_mset snd (filter_mset (\<lambda>x. fst x = a)
      (mset (map (\<lambda>t. (account_in t, task_nonce t)) ts)))"
    by (simp only: assms [symmetric] mset_filter_map_snd)
  also have "\<dots> = mset (map task_nonce (filter (\<lambda>t. account_in t = a) ts))"
    by (rule mset_pairs_of)
  finally have same: "mset (issued_to a issuance) = mset (map task_nonce (filter (\<lambda>t. account_in t = a) ts))" .
  have "map task_nonce (filter (\<lambda>t. account_in t = a) (sort_key task_nonce ts)) =
      sort (map task_nonce (filter (\<lambda>t. account_in t = a) ts))"
    unfolding filter_sort map_sort_key ..
  also have "\<dots> = sort (issued_to a issuance)" by (rule properties_for_sort) (simp_all add: same)
  finally show "map task_nonce (filter (\<lambda>t. account_in t = a) (sort_key task_nonce ts)) =
      sort (issued_to a issuance)" .
  have "length (filter (\<lambda>t. account_in t = a) ts) = count_list (map account_in ts) a" by (induction ts) auto
  with arg_cong [OF same, of size] show "length (issued_to a issuance) = count_list (map account_in ts) a"
    by (simp only: size_mset length_map)
qed

lemma fetched_nonces_sent:
  fixes available :: usize
  assumes "build_params prof sb = Inr ps" and "length ps < 2 ^ 32" and "0 < available"
    and "length accounts = length ps" and "nonce_steps prof node accounts s" and "all_returned accounts s ns"
    and "\<And>i. i < length ps \<Longrightarrow> build_tx i (watched_txs sb) (ps ! i) the_tip = Inr (mk i) \<and>
      task_nonce (mk i) = ns i \<and> account_in (mk i) = accounts ! i"
    and "\<forall>r. node a (Inr r) \<longrightarrow> unat r + length ps < 2 ^ 128"
  defines "txs \<equiv> sort_key task_nonce (map mk [0..<length ps])"
  shows "build_transactions prof available build_tx sb the_tip = Inr txs \<and>
    (if count_list accounts a = 0 then filter (\<lambda>t. account_in t = a) txs = []
     else \<exists>r. node a (Inr r) \<and> map task_nonce (filter (\<lambda>t. account_in t = a) txs) =
       map (\<lambda>i. r + of_nat i) [0..<count_list accounts a])"
proof -
  note mk = assms(7)
  have build: "build_transactions prof available build_tx sb the_tip = Inr txs"
    unfolding txs_def by (rule build_transactions_eq [OF assms(1,2,3)]) (use mk in blast)
  have inv: "nonce_inv node accounts s" by (rule nonce_inv_steps [OF assms(5)])
  define issued where "issued = issued_to a (ns_issued s)"
  have pairs: "map (\<lambda>t. (account_in t, task_nonce t)) (map mk [0..<length ps]) =
      map (\<lambda>i. (accounts ! i, ns i)) [0..<length accounts]"
    using mk assms(4) by simp
  have "mset (ns_issued s) = mset (map (\<lambda>t. (account_in t, task_nonce t)) (map mk [0..<length ps]))"
    using inv all_returned_nonces [OF assms(6)] by (simp only: nonce_inv_def pairs)
  note issuance = sent_to_issued [OF this, of a]
  have sent: "map task_nonce (filter (\<lambda>t. account_in t = a) txs) = sort issued"
    unfolding txs_def issued_def by (rule issuance(1))
  have "map account_in (map mk [0..<length ps]) = map (\<lambda>i. accounts ! i) [0..<length accounts]"
    using mk assms(4) by simp
  then have len: "length issued = count_list accounts a"
    unfolding issued_def issuance(2) by (metis map_nth)
  show ?thesis
  proof (cases "issued = []")
    case True
    then have "filter (\<lambda>t. account_in t = a) txs = []" using sent by simp
    then show ?thesis using build True len by simp
  next
    case False
    define r where "r = hd issued"
    have node: "node a (Inr r)" using inv False by (simp add: nonce_inv_def issued_def r_def)
    have eq: "issued = map (\<lambda>i. r + of_nat i) [0..<count_list accounts a]"
      using nonce_map.consecutive_eq [of "ns_map s" "ns_issued s" a] inv len by (simp add: nonce_inv_def issued_def r_def)
    have "count_list accounts a \<le> length ps" using assms(4) count_le_length [of accounts a] by simp
    then have "unat r + count_list accounts a < 2 ^ 128" using assms(8) node by fastforce
    then have "sort issued = issued" using consecutive_sorted eq by (metis sorted_sort_id)
    then show ?thesis using build sent node eq False len by auto
  qed
qed

subsection \<open>An example\<close>

definition example_crypto :: "(sr25519_dev, string, string, string, string \<times> u64, string \<times> u64) crypto" where
  "example_crypto = \<lparr>dev_key = (\<lambda>_. ''dev''), parse_uri = Some, from_uri = Some, account_of = id, hash_of = id\<rparr>"

definition example_remote ::
    "(unit, unit, unit, unit, unit, string, string, dynamic_payload \<times> extrinsic_params, string \<times> u64, unit) remote" where
  "example_remote = \<lparr>remote_net = \<lparr>net_connect = (\<lambda>_ _. Inr ()), net_from_url = (\<lambda>_. Inr ()), net_client = (\<lambda>_. Inr ())\<rparr>,
     monitor_new = (\<lambda>_. Inr ()), client_of = (\<lambda>_. example_client), nonce_of = (\<lambda>_ _. Inl (Boxed ()))\<rparr>"

end
