(* ===== verification/Command_Line.thy ===== *)
theory Command_Line
  imports Subxt_Chain Journal Block_Monitor
begin

section \<open>The command line\<close>

text \<open>
  The commands of \<open>src/cli.rs\<close> with their defaults and what \<open>src/bin/main.rs\<close> does for each: the scenario
  builder of \<open>tx\<close>, the query of \<open>check-nonce\<close>, the replay of \<open>load-log\<close>, and the list of
  \<open>generate-endowed-accounts\<close>. Parsing the arguments is the business of \<open>clap\<close>.
\<close>

subsection \<open>Commands\<close>

record tx_args =
  tx_chain :: chain_type
  tx_ws :: string
  tx_unwatched :: bool
  tx_block_monitor :: bool
  tx_mortal :: "u64 option"
  tx_send_threshold :: u32
  tx_log_file :: "string option"
  tx_remark :: "u32 option"
  tx_tip :: u128
  tx_scenario :: scenario_type
  tx_use_legacy_backend :: bool

record generate_args =
  gen_chain :: chain_type
  gen_start_id :: u32
  gen_last_id :: u32
  gen_balance :: u128
  gen_out_file_name :: string
  gen_chain_spec :: "string option"

datatype cli_command =
    Tx tx_args
  | Check_Nonce chain_type string string
  | Metadata string
  | Block_Monitor_Command chain_type string display_options
  | Load_Log chain_type string bool bool "string option"
  | Generate_Endowed_Accounts generate_args

text \<open>The values of the options of \<open>tx\<close> that are not given.\<close>

definition tx_defaults :: "scenario_type \<Rightarrow> tx_args" where
  "tx_defaults scenario =
     \<lparr>tx_chain = Sub, tx_ws = ''ws://127.0.0.1:9933'', tx_unwatched = False, tx_block_monitor = False,
      tx_mortal = None, tx_send_threshold = 10000, tx_log_file = None, tx_remark = None, tx_tip = 0,
      tx_scenario = scenario, tx_use_legacy_backend = False\<rparr>"

subsection \<open>Sending transactions\<close>

fun populate_scenario_builder ::
    "('a, 'b) scenario_builder \<Rightarrow> scenario_type \<Rightarrow> ('a, 'b) scenario_builder" where
  "populate_scenario_builder sb (One_Shot account nonce) =
     with_nonce_from nonce (with_account_id account sb)"
| "populate_scenario_builder sb (From_Single_Account account first n_txs) =
     with_txs_count n_txs (with_nonce_from first (with_account_id account sb))"
| "populate_scenario_builder sb (From_Many_Accounts start final first n_txs) =
     with_txs_count n_txs (with_nonce_from first (with_last_id final (with_start_id start sb)))"

definition tx_scenario_builder :: "tx_args \<Rightarrow> ('a, 'b) scenario_builder" where
  "tx_scenario_builder args =
     (let sb = with_tip (tx_tip args)
            (with_legacy_backend (tx_use_legacy_backend args)
            (with_installed_ctrlc_stop_hook True
            (with_watched_txs (\<not> tx_unwatched args)
            (with_block_monitoring (tx_block_monitor args)
            (with_send_threshold (ucast (tx_send_threshold args))
            (with_chain_type (tx_chain args)
            (with_rpc_uri (tx_ws args) scenario_builder_new)))))));
          sb = populate_scenario_builder sb (tx_scenario args);
          sb = (case tx_mortal args of Some m \<Rightarrow> with_mortality m sb | None \<Rightarrow> sb)
      in case tx_remark args of Some inner \<Rightarrow> with_remark_recipe inner sb | None \<Rightarrow> sb)"

text \<open>The executor whose \<open>execute\<close> drives its runner.\<close>

definition tx_command ::
    "profile \<Rightarrow> usize \<Rightarrow> ('a, 'b) id_bytes \<Rightarrow> ('s, 'a, 'h) chain \<Rightarrow> ('t, 'b, 'h) chain \<Rightarrow> tx_args \<Rightarrow>
       ('h runner scenario_executor \<times> bool) res" where
  "tx_command prof available ids sub eth args =
     (case tx_chain args of
        Fake \<Rightarrow> Inl Unimplemented
      | Eth \<Rightarrow> build prof available ids sub eth (tx_scenario_builder args)
      | Sub \<Rightarrow> build prof available ids sub eth (tx_scenario_builder args))"

fun executor_runner :: "'r scenario_executor \<Rightarrow> 'r" where
  "executor_runner (Eth_Executor r) = r"
| "executor_runner (Substrate_Executor r) = r"

lemmas tx_builder_defs = tx_scenario_builder_def setter_defs scenario_builder_new_def Let_def

text \<open>The settings of the builder that the command \<open>from-many-accounts\<close> makes, and its payloads.\<close>

definition tx_source :: "tx_args \<Rightarrow> ('a, 'b) payload_source" where
  "tx_source args = Recipe (case tx_remark args of None \<Rightarrow> recipe_transfer | Some size_kb \<Rightarrow> recipe_remark size_kb)"

lemma tx_source_total:
  assumes "\<forall>key. hex_bytes ids (sub_as_ref ids key) \<noteq> []"
  shows "\<exists>payload_builder. into_sub_builder ids (tx_source args) = Inr payload_builder \<and>
    (\<forall>ctx. \<exists>tx_call. payload_builder ctx = Inr tx_call)"
  using assms by (cases "tx_remark args") (auto simp: tx_source_def recipe_transfer_def recipe_remark_def
      sub_transfer_payload_builder_def remark_payload_builder_def Let_def)

lemma tx_source_total_eth:
  assumes "\<forall>key. hex_bytes ids (eth_as_ref ids key) \<noteq> []"
  shows "\<exists>payload_builder. into_eth_builder ids (tx_source args) = Inr payload_builder \<and>
    (\<forall>ctx. \<exists>tx_call. payload_builder ctx = Inr tx_call)"
  using assms by (cases "tx_remark args") (auto simp: tx_source_def recipe_transfer_def recipe_remark_def
      eth_transfer_payload_builder_def remark_payload_builder_def Let_def)

lemma tx_many_settings:
  fixes sb :: "('a, 'b) scenario_builder"
  assumes "tx_scenario args = From_Many_Accounts start final first n_txs" and "tx_mortal args = None" and "sb = tx_scenario_builder args"
  shows "start_id sb = Some start" "last_id sb = Some final" "nonce_from sb = first" "mortality sb = None"
    "builder_chain_type sb = Some (tx_chain args)" "rpc_uri sb = Some (tx_ws args)"
    "builder_send_threshold sb = Some (ucast (tx_send_threshold args))"
    "tx_payload_builder_source sb = Some (tx_source args)" "txs_count sb = n_txs"
    "use_legacy_backend sb = tx_use_legacy_backend args" "watched_txs sb = (\<not> tx_unwatched args)"
    "installs_ctrl_c_stop_hook sb = True" "builder_timeout sb = None" "tip sb = tx_tip args"
  using assms by (simp_all add: tx_builder_defs tx_source_def split: option.split)

context chain_service begin

lemma many_in_rounds:
  fixes available :: usize and sb :: "('a, 'b) scenario_builder"
  assumes "tx_scenario args = From_Many_Accounts start final (Some n) n_txs" and "tx_mortal args = None"
    and "sb = tx_scenario_builder args" and "\<forall>ctx. \<exists>tx_call. payload_builder ctx = Inr tx_call"
    and "unat start + m = Suc (unat final)" and "0 < m" and "c = unat n_txs"
    and "unat final + 1 < 2 ^ 32" and "unat n + c < 2 ^ 128" and "m * c < 2 ^ 32" and "0 < available"
    and "reachable (tx_ws args) (tx_use_legacy_backend args)" and "\<forall>i. signs i"
  shows "\<exists>r. build_on prof available ch payload_builder (ucast (tx_send_threshold args)) (tx_ws args)
      (Derived_Range start (final + 1)) sb = Inr r \<and>
    sending_order r = concat (map (\<lambda>j. map (\<lambda>b. (n + of_nat j, Derived (of_nat (unat start + b)), None, \<not> tx_unwatched args))
      [0..<m]) [0..<c]) \<and>
    send_threshold r = ucast (tx_send_threshold args) \<and> timeout r = None"
proof -
  note sb = tx_many_settings [OF assms(1-3)]
  have c: "c = unat (txs_count sb)" and reach: "reachable (tx_ws args) (use_legacy_backend sb)"
    using assms(7,12) by (simp_all add: sb(9,10))
  from range_in_rounds [OF sb(1-4) assms(4-6) c assms(8-11) reach assms(13)] show ?thesis unfolding sb(11,13) .
qed

end

definition tx_payload_builder :: "('a, 'b) id_bytes \<Rightarrow> tx_args \<Rightarrow> 'a payload_builder" where
  "tx_payload_builder ids args =
     (case tx_remark args of
        None \<Rightarrow> sub_transfer_payload_builder (sub_as_ref ids)
      | Some size_kb \<Rightarrow> remark_payload_builder (sub_as_ref ids) (hex_bytes ids) size_kb)"

lemma tx_source_builder: "into_sub_builder ids (tx_source args) = Inr (tx_payload_builder ids args)"
  by (simp add: tx_source_def tx_payload_builder_def recipe_transfer_def recipe_remark_def split: option.splits)

text \<open>An immortal transaction of a Substrate scenario is the signed extrinsic with the payload and the tip.\<close>

lemma substrate_tasks_signed:
  assumes "build_on prof available (substrate_chain prof available cr rem) payload_builder threshold uri accounts sb = Inr r"
    and "mortality sb = None" and "t \<in> set (transactions r)"
  shows "\<exists>i ctx tx_call p kp. ctx_nonce ctx = task_nonce t \<and> payload_builder ctx = Inr tx_call \<and>
    create_partial_offline (client_of rem i) tx_call
      \<lparr>extrinsic_nonce = ucast (task_nonce t), extrinsic_tip = tip sb, extrinsic_mortal = None\<rparr> = Inr p \<and>
    task_hash t = hash_of cr (sign (client_of rem i) p kp)"
proof -
  obtain sink txs where txs: "build_transactions prof available (chain_build_tx (substrate_chain prof available cr rem) sink
      payload_builder) sb (tip sb) = Inr txs" and r: "transactions r = rev txs"
    using assms(1) by (auto simp: build_on_def res_bind_eq_Inr)
  have "t \<in> set txs" using assms(3) by (simp add: r)
  from build_transactions_built [OF txs this] obtain i ps p where ps: "build_params prof sb = Inr ps" "p \<in> set ps"
    and "chain_build_tx (substrate_chain prof available cr rem) sink payload_builder i (watched_txs sb) p (tip sb) = Inr t"
    by blast
  then obtain tx where tx: "build_subxt_tx prof (account_of cr) (client_of rem i) (nonce_of rem i) p (tip sb) sink payload_builder = Inr tx"
    and t: "task_hash t = hash_of cr (signed tx)" "task_nonce t = st_nonce tx"
    by (auto simp: substrate_chain_def substrate_build_transaction_def res_bind_eq_Inr built_entry_defs split: if_splits)
  have "param_mortality p = None" using build_params_mortality [OF ps] assms(2) by simp
  from immortal_signed [OF tx this] show ?thesis unfolding t by metis
qed

text \<open>
  C6: the command \<open>tx ... from-many-accounts --start-id s --last-id l --from n --count c\<close> without \<open>--mortal\<close> on a
  Substrate node sends exactly the nonces \<open>n\<close> up to \<open>n + c - 1\<close> for every account from \<open>s\<close> up to and including
  \<open>l\<close>, nonce by nonce, watched unless \<open>--unwatched\<close> is given, and under the given threshold. Each one is the
  extrinsic with the given tip that node and key sign for a remark of the size of \<open>--remark\<close>, or else for a
  transfer. The option \<open>--log-file\<close> has no influence on any of it.
\<close>

theorem tx_from_many_accounts:
  fixes available :: usize and ids :: "('acc, 'b) id_bytes"
  assumes "tx_chain args = Sub" and "tx_scenario args = From_Many_Accounts start final (Some n) n_txs"
    and "tx_mortal args = None"
    and "\<forall>key. hex_bytes ids (sub_as_ref ids key) \<noteq> []"
    and "unat start + m = Suc (unat final)" and "0 < m" and "c = unat n_txs"
    and "unat final + 1 < 2 ^ 32" and "unat n + c < 2 ^ 128" and "m * c < 2 ^ 32" and "0 < available"
    and "\<forall>seed i. \<exists>kp. generate_sr25519_keypair (dev_key cr) (parse_uri cr) (from_uri cr) (Request_Derived seed i) = Inr kp"
    and "\<exists>a. net_connect (remote_net rem) (tx_ws args) (tx_use_legacy_backend args) = Inr a"
    and "\<exists>cl. net_client (remote_net rem) (tx_ws args) = Inr cl" and "\<exists>bm. monitor_new rem (tx_ws args) = Inr bm"
    and "\<forall>i. offline_signing (client_of rem i)"
  shows "\<exists>r. tx_command prof available ids (substrate_chain prof available cr rem) eth args =
      Inr (Substrate_Executor r, True) \<and>
    sending_order r = concat (map (\<lambda>j. map (\<lambda>b. (n + of_nat j, Derived (of_nat (unat start + b)), None, \<not> tx_unwatched args))
      [0..<m]) [0..<c]) \<and>
    send_threshold r = ucast (tx_send_threshold args) \<and> timeout r = None \<and>
    (\<forall>t \<in> set (transactions r). \<exists>i ctx tx_call p kp.
      ctx_nonce ctx = task_nonce t \<and> tx_payload_builder ids args ctx = Inr tx_call \<and>
      create_partial_offline (client_of rem i) tx_call
        \<lparr>extrinsic_nonce = ucast (task_nonce t), extrinsic_tip = tx_tip args, extrinsic_mortal = None\<rparr> = Inr p \<and>
      task_hash t = hash_of cr (sign (client_of rem i) p kp)) \<and>
    tx_command prof available ids (substrate_chain prof available cr rem) eth (args\<lparr>tx_log_file := other\<rparr>) =
      Inr (Substrate_Executor r, True)"
proof -
  let ?sb = "tx_scenario_builder args :: ('acc, 'b) scenario_builder"
  have pb: "into_sub_builder ids (tx_source args) = Inr (tx_payload_builder ids args)"
    "\<forall>ctx. \<exists>tx_call. tx_payload_builder ids args ctx = Inr tx_call"
    using tx_source_total [OF assms(4), of args] by (simp_all add: tx_source_builder)
  note sb = tx_many_settings [OF assms(2,3) refl, where 'a = 'acc and 'b = 'b, unfolded assms(1)]
  have reach: "node_reachable available (generate_sr25519_keypair (dev_key cr) (parse_uri cr) (from_uri cr)) rem
      (tx_ws args) (tx_use_legacy_backend args)"
    using assms(11-15) by (simp add: node_reachable_def)
  from substrate.many_in_rounds [OF assms(2,3) refl pb(2) assms(5-11) reach assms(16), of prof prof] obtain r
    where r: "build_on prof available (substrate_chain prof available cr rem) (tx_payload_builder ids args) (ucast (tx_send_threshold args))
        (tx_ws args) (Derived_Range start (final + 1)) ?sb = Inr r"
      "sending_order r = concat (map (\<lambda>j. map (\<lambda>b. (n + of_nat j, Derived (of_nat (unat start + b)), None, \<not> tx_unwatched args))
        [0..<m]) [0..<c])"
      "send_threshold r = ucast (tx_send_threshold args)" "timeout r = None" by blast
  have "build prof available ids (substrate_chain prof available cr rem) eth ?sb = Inr (Substrate_Executor r, True)"
    using build_Sub [OF sb(5-8) pb(1) accounts_of_range [OF sb(1,2) assms(8)] r(1), of eth] by (simp only: sb(12))
  moreover note signed = substrate_tasks_signed [OF r(1) sb(4), unfolded sb(14)]
  moreover have "(tx_scenario_builder (args\<lparr>tx_log_file := other\<rparr>) :: ('acc, 'b) scenario_builder) = tx_scenario_builder args"
    by (simp add: tx_scenario_builder_def)
  ultimately show ?thesis using assms(1) r(2-4) by (intro exI [of _ r] conjI ballI) (simp_all add: tx_command_def)
qed

text \<open>The same on an Ethereum compatible node, through the same contract.\<close>

lemma tx_from_many_accounts_eth:
  fixes available :: usize and ids :: "('a, 'acc) id_bytes"
  assumes "tx_chain args = Eth" and "tx_scenario args = From_Many_Accounts start final (Some n) n_txs"
    and "tx_mortal args = None"
    and "\<forall>key. hex_bytes ids (eth_as_ref ids key) \<noteq> []"
    and "unat start + m = Suc (unat final)" and "0 < m" and "c = unat n_txs"
    and "unat final + 1 < 2 ^ 32" and "unat n + c < 2 ^ 128" and "m * c < 2 ^ 32" and "0 < available"
    and "node_reachable available (generate_ecdsa_keypair (dev_key cr) (parse_uri cr) (from_uri cr)) rem
      (tx_ws args) (tx_use_legacy_backend args)"
    and "\<forall>i. offline_signing (client_of rem i)"
  shows "\<exists>r. tx_command prof available ids sub (eth_chain prof available cr rem) args = Inr (Eth_Executor r, True) \<and>
    sending_order r = concat (map (\<lambda>j. map (\<lambda>b. (n + of_nat j, Derived (of_nat (unat start + b)), None, \<not> tx_unwatched args))
      [0..<m]) [0..<c])"
proof -
  let ?sb = "tx_scenario_builder args :: ('a, 'acc) scenario_builder"
  obtain payload_builder where pb: "into_eth_builder ids (tx_source args) = Inr payload_builder"
    "\<forall>ctx. \<exists>tx_call. payload_builder ctx = Inr tx_call"
    using tx_source_total_eth [OF assms(4)] by blast
  note sb = tx_many_settings [OF assms(2,3) refl, where 'a = 'a and 'b = 'acc, unfolded assms(1)]
  from ethereum.many_in_rounds [OF assms(2,3) refl pb(2) assms(5-13), of prof prof] obtain r
    where r: "build_on prof available (eth_chain prof available cr rem) payload_builder (ucast (tx_send_threshold args))
        (tx_ws args) (Derived_Range start (final + 1)) ?sb = Inr r"
      "sending_order r = concat (map (\<lambda>j. map (\<lambda>b. (n + of_nat j, Derived (of_nat (unat start + b)), None, \<not> tx_unwatched args))
        [0..<m]) [0..<c])" by blast
  have "build prof available ids sub (eth_chain prof available cr rem) ?sb = Inr (Eth_Executor r, True)"
    using build_Eth [OF sb(5-8) pb(1) accounts_of_range [OF sb(1,2) assms(8)] r(1), of sub] by (simp only: sb(12))
  then show ?thesis using assms(1) r(2) by (intro exI [of _ r]) (simp add: tx_command_def)
qed

definition example_many :: tx_args where
  "example_many = tx_defaults (From_Many_Accounts 5 6 (Some 10) 2)"

definition example_byte_ids :: "(string, unit) id_bytes" where
  "example_byte_ids = \<lparr>sub_as_ref = (\<lambda>s. 0 # map of_char s), eth_as_ref = (\<lambda>_. []), hex_bytes = (\<lambda>bs. bs @ bs)\<rparr>"

theorem tx_from_many_accounts_witness:
  "\<forall>eth :: (unit, unit, string \<times> u64) chain. \<exists>r.
    tx_command Debug 2 example_byte_ids (substrate_chain Debug 2 example_crypto example_remote) eth example_many =
      Inr (Substrate_Executor r, True) \<and>
    sending_order r = [(10, Derived 5, None, True), (10, Derived 6, None, True), (11, Derived 5, None, True),
      (11, Derived 6, None, True)]"
proof
  fix eth :: "(unit, unit, string \<times> u64) chain"
  have "\<exists>r. tx_command Debug 2 example_byte_ids (substrate_chain Debug 2 example_crypto example_remote) eth example_many =
      Inr (Substrate_Executor r, True) \<and>
    sending_order r = concat (map (\<lambda>j. map (\<lambda>b. (10 + of_nat j, Derived (of_nat (unat (5 :: u32) + b)), None,
      \<not> tx_unwatched example_many)) [0..<2]) [0..<2]) \<and>
    send_threshold r = ucast (tx_send_threshold example_many) \<and> timeout r = None \<and>
    (\<forall>t \<in> set (transactions r). \<exists>i ctx tx_call p kp.
      ctx_nonce ctx = task_nonce t \<and> tx_payload_builder example_byte_ids example_many ctx = Inr tx_call \<and>
      create_partial_offline (client_of example_remote i) tx_call
        \<lparr>extrinsic_nonce = ucast (task_nonce t), extrinsic_tip = tx_tip example_many, extrinsic_mortal = None\<rparr> = Inr p \<and>
      task_hash t = hash_of example_crypto (sign (client_of example_remote i) p kp)) \<and>
    tx_command Debug 2 example_byte_ids (substrate_chain Debug 2 example_crypto example_remote) eth
      (example_many\<lparr>tx_log_file := None\<rparr>) = Inr (Substrate_Executor r, True)"
    by (rule tx_from_many_accounts [where start = 5 and final = 6 and n = 10 and n_txs = 2])
      (simp_all add: example_many_def tx_defaults_def example_byte_ids_def example_crypto_def example_remote_def unwrap_def
        offline_signing_def example_client_def)
  then show "\<exists>r. tx_command Debug 2 example_byte_ids (substrate_chain Debug 2 example_crypto example_remote) eth example_many =
      Inr (Substrate_Executor r, True) \<and>
    sending_order r = [(10, Derived 5, None, True), (10, Derived 6, None, True), (11, Derived 5, None, True),
      (11, Derived 6, None, True)]"
    by (auto simp: example_many_def tx_defaults_def upt_rec [of 0] upt_rec [of "Suc 0"])
qed

subsection \<open>Asking for a nonce\<close>

definition describe_account :: "profile \<Rightarrow> string \<Rightarrow> accounts_description res" where
  "describe_account prof account =
     (case parse_u32 account of
        Some i \<Rightarrow> res_bind (u_add prof i 1) (\<lambda>stop. Inr (Derived_Range i stop))
      | None \<Rightarrow> Inr (Keyring account))"

text \<open>\<open>query\<close> is the storage entry of an account, \<open>hex_acc\<close> its hexadecimal text.\<close>

definition check_nonce_with ::
    "profile \<Rightarrow> usize \<Rightarrow> ('e0, 'f, 'api, 'rpc) net \<Rightarrow> (account_generate_request \<Rightarrow> 'kp res) \<Rightarrow> ('kp \<Rightarrow> 'acc) \<Rightarrow>
       ('acc \<Rightarrow> string) \<Rightarrow> ('acc \<Rightarrow> ('e, 'st, 'th, 'v) account_query) \<Rightarrow> string \<Rightarrow> string \<Rightarrow> ('e box_error + u128) res" where
  "check_nonce_with prof available net generate acc_of hex_acc query ws account =
     res_bind (describe_account prof account) (\<lambda>desc.
     res_bind (new_with_uri_with_accounts_description net prof available ws desc generate (None :: unit option) False) (\<lambda>sink.
     case get_from_account_id acc_of account sink of
       None \<Rightarrow> Inr (Inl (Boxed_Message ''account shall be correct''))
     | Some acc \<Rightarrow>
         res_bind (sink_check_account_nonce prof (hex_acc acc) (check_account_nonce (hex_acc acc) (query acc)) sink)
           (\<lambda>(r, _). Inr r)))"

subsection \<open>Replaying a log file\<close>

definition load_log_command ::
    "'h json_codec \<Rightarrow> ('h \<Rightarrow> string) \<Rightarrow> 'f estimators \<Rightarrow> 'h list \<Rightarrow> chain_type \<Rightarrow> string \<Rightarrow> bool \<Rightarrow> bool \<Rightarrow> string option \<Rightarrow>
       files \<Rightarrow> ('f stats_report \<times> files) res" where
  "load_log_command codec show_hash est order ct log_file show_graphs show_errors csv fs =
     (case ct of
        Fake \<Rightarrow> Inl Unimplemented
      | _ \<Rightarrow>
          res_bind (load_logs codec show_hash order log_file csv fs) (\<lambda>(logs, fs').
          res_bind (make_stats est (map (\<lambda>h. fst (the (logs h))) order)) (\<lambda>stats. Inr (stats, fs'))))"

text \<open>
  C23: the command \<open>load-log\<close> on the file of a run reports what the run printed, up to the order of the logs:
  the loaded map need not be iterated in the order of the map of the run. The number of logs, the names,
  numbers of samples and extremes of all lines, the failure reasons and the timeline are the same; the mean
  and the quantile of a line are estimates over the same samples, taken in the order of the loaded map. If
  the orders are the same, so is the whole report.
\<close>

theorem replayed_stats:
  assumes "run_end codec est date order r fs = Inr (logs, stats, fs')"
    and "\<forall>d json. to_json codec d = Some json \<longrightarrow> from_json codec json = Some d"
    and "distinct order" and "set order = dom (runner_logs r)"
    and "distinct order'" and "set order' = dom (runner_logs r)" and "ct \<noteq> Fake"
    and "\<forall>v v'. mset v = mset v' \<longrightarrow>
      est_len est v = est_len est v' \<and> est_min est v = est_min est v' \<and> est_max est v = est_max est v'"
  shows "\<exists>stats'. load_log_command codec show_hash est order' ct (log_file_path date r) graphs errors None fs' =
      Inr (stats', fs') \<and>
    total_recorded_count stats' = total_recorded_count stats \<and>
    failure_lines stats' = failure_lines stats \<and> timeline_map stats' = timeline_map stats \<and>
    map (\<lambda>l. (stat_name l, stat_count l, stat_min l, stat_max l)) (stat_lines stats') =
      map (\<lambda>l. (stat_name l, stat_count l, stat_min l, stat_max l)) (stat_lines stats) \<and>
    list_all2 (same_samples est) (stat_lines stats) (stat_lines stats') \<and>
    (order' = order \<longrightarrow> stats' = stats)"
proof -
  note loaded = run_end_loaded [OF assms(1,2), where order' = order' and show_hash = show_hash]
  then have logs: "logs = runner_logs r" and stats: "make_stats est (map (\<lambda>h. the (logs h)) order) = Inr stats" by blast+
  have "mset order' = mset order" using assms(3-6) by (simp flip: set_eq_iff_mset_eq_distinct)
  then have "mset (map (\<lambda>h. the (logs h)) order') = mset (map (\<lambda>h. the (logs h)) order)" by simp
  from make_stats_reordered [OF stats this] obtain stats'
    where stats': "make_stats est (map (\<lambda>h. the (logs h)) order') = Inr stats'"
      and same: "total_recorded_count stats' = total_recorded_count stats" "failure_lines stats' = failure_lines stats"
        "timeline_map stats' = timeline_map stats" "list_all2 (same_samples est) (stat_lines stats) (stat_lines stats')"
    by blast
  have "map (\<lambda>h. fst (the ((map_option (\<lambda>l. (l, counters_default)) \<circ> logs) h))) order' = map (\<lambda>h. the (logs h)) order'"
    using assms(6) logs by auto
  then have "make_stats est (map (\<lambda>h. fst (the ((map_option (\<lambda>l. (l, counters_default)) \<circ> logs) h))) order') = Inr stats'"
    using stats' by (simp only:)
  then have "load_log_command codec show_hash est order' ct (log_file_path date r) graphs errors None fs' = Inr (stats', fs')"
    using loaded assms(7) by (cases ct) (simp_all only: load_log_command_def chain_type.simps res_bind_Inr prod.case simp_thms)
  moreover have "map (\<lambda>l. (stat_name l, stat_count l, stat_min l, stat_max l)) (stat_lines stats') =
      map (\<lambda>l. (stat_name l, stat_count l, stat_min l, stat_max l)) (stat_lines stats)"
    using same(4) same_samples_extremes [OF _ assms(8)] by (simp add: list_all2_conv_all_nth list_eq_iff_nth_eq)
  moreover have "stats' = stats" if "order' = order" using stats stats' that by simp
  ultimately show ?thesis using same by blast
qed

text \<open>
  Two finalized transactions, and an estimate that depends on the order: the run reports 5 milliseconds, the
  replay 7.
\<close>

definition late_log :: "nat execution_log" where
  "late_log = \<lparr>log_events = [Popped (System_Time 1000000), Sent (System_Time 2000000),
     SubmitAndWatchResult (System_Time 3000000) (Inr ()), TxPoolEvent (System_Time 7000000) (Finalized 5)],
     log_account_metadata = Derived 1, log_nonce = 1, log_hash = 4\<rparr>"

definition last_estimate :: "nat estimators" where
  "last_estimate = \<lparr>as_secs_f64 = id, est_len = length, est_min = Min \<circ> set, est_max = Max \<circ> set,
     est_mean = sum_list, est_q90 = last\<rparr>"

definition two_logs_codec :: "nat json_codec" where
  "two_logs_codec =
    \<lparr>to_json = (\<lambda>d. if d = [3 \<mapsto> get_data example_log, 4 \<mapsto> get_data late_log] then Some ''{3,4}'' else None),
     from_json = (\<lambda>_. Some [3 \<mapsto> get_data example_log, 4 \<mapsto> get_data late_log])\<rparr>"

definition two_logs_runner :: "nat runner" where
  "two_logs_runner = (runner_new 10 [] None None None None)\<lparr>runner_logs := [3 \<mapsto> example_log, 4 \<mapsto> late_log]\<rparr>"

lemma two_durations:
  "map (\<lambda>(name, meth). (meth example_log, meth late_log)) stat_methods =
     [(Inr None, Inr None), (Inr None, Inr None), (Inr None, Inr None), (Inr (Some 1000000), Inr (Some 1000000)),
      (Inr None, Inr None), (Inr None, Inr None), (Inr None, Inr None), (Inr (Some 7000000), Inr (Some 5000000)),
      (Inr None, Inr None), (Inr None, Inr None)]"
  by (simp add: stat_methods_def example_log_def late_log_def time_to_finalized_monitor_def time_to_mortal_dropped_monitor_def
      time_to_finalized_def time_to_validated_def time_to_broadcasted_def time_to_inblock_def
      time_to_dropped_def time_to_invalid_def time_to_error_def time_to_result_def
      duration_since_timestamp_def get_sent_time_stamp_def duration_since_def)

lemma two_logs_stats:
  "\<exists>stats. make_stats last_estimate [example_log, late_log] = Inr stats \<and>
    map stat_count (stat_lines stats) = [0, 0, 0, 2, 0, 0, 0, 2, 0, 0] \<and> stat_q90 (stat_lines stats ! 7) = 5000000"
  "\<exists>stats. make_stats last_estimate [late_log, example_log] = Inr stats \<and> stat_q90 (stat_lines stats ! 7) = 7000000"
  using two_durations by (simp_all add: make_stats_def stat_methods_def single_stat_def last_estimate_def)

theorem replayed_stats_witness:
  "\<exists>logs stats fs' stats'. run_end two_logs_codec last_estimate ''now'' [3, 4] two_logs_runner
      \<lparr>contents = Map.empty, writable = (\<lambda>_. True)\<rparr> = Inr (logs, stats, fs') \<and>
    load_log_command two_logs_codec show_nat last_estimate [4, 3] Sub ''ttxt_now.json'' False False None fs' =
      Inr (stats', fs') \<and>
    total_recorded_count stats' = 2 \<and> map stat_count (stat_lines stats') = [0, 0, 0, 2, 0, 0, 0, 2, 0, 0] \<and>
    stat_q90 (stat_lines stats ! 7) = 5000000"
proof -
  let ?fs = "\<lparr>contents = Map.empty, writable = (\<lambda>_. True)\<rparr>"
  obtain stats where stats: "make_stats last_estimate [example_log, late_log] = Inr stats"
    and counts: "map stat_count (stat_lines stats) = [0, 0, 0, 2, 0, 0, 0, 2, 0, 0]"
    and q90: "stat_q90 (stat_lines stats ! 7) = 5000000"
    using two_logs_stats(1) by (elim exE conjE)
  then have total: "total_recorded_count stats = 2" by (auto simp: make_stats_def res_bind_eq_Inr)
  have logs: "runner_logs two_logs_runner = [3 \<mapsto> example_log, 4 \<mapsto> late_log]" by (simp add: two_logs_runner_def)
  have path: "log_file_path ''now'' two_logs_runner = ''ttxt_now.json''"
    by (simp add: log_file_path_def runner_new_def two_logs_runner_def)
  have "map_option get_data \<circ> [3 \<mapsto> example_log, 4 \<mapsto> late_log] = [3 \<mapsto> get_data example_log, 4 \<mapsto> get_data late_log]"
    by auto
  then obtain fs' where run: "run_end two_logs_codec last_estimate ''now'' [3, 4] two_logs_runner ?fs =
      Inr (runner_logs two_logs_runner, stats, fs')"
    by (simp add: run_end_def save_logs_def logs path two_logs_codec_def write_file_def unwrap_def stats)
  have codec: "\<forall>d json. to_json two_logs_codec d = Some json \<longrightarrow> from_json two_logs_codec json = Some d"
    by (simp add: two_logs_codec_def split: if_splits)
  have same: "\<forall>v v'. mset v = mset v' \<longrightarrow> est_len last_estimate v = est_len last_estimate v' \<and>
      est_min last_estimate v = est_min last_estimate v' \<and> est_max last_estimate v = est_max last_estimate v'"
    by (auto simp: last_estimate_def dest: mset_eq_length mset_eq_setD)
  from replayed_stats [OF run codec _ _ _ _ _ same, of "[4, 3]" Sub show_nat False False] obtain stats' where
    load: "load_log_command two_logs_codec show_nat last_estimate [4, 3] Sub ''ttxt_now.json'' False False None fs' = Inr (stats', fs')"
    and "total_recorded_count stats' = total_recorded_count stats"
    and "map (\<lambda>l. (stat_name l, stat_count l, stat_min l, stat_max l)) (stat_lines stats') =
      map (\<lambda>l. (stat_name l, stat_count l, stat_min l, stat_max l)) (stat_lines stats)"
    unfolding path by (auto simp: logs)
  moreover from arg_cong [OF this(3), of "map (\<lambda>x. fst (snd x))"]
  have "map stat_count (stat_lines stats') = map stat_count (stat_lines stats)" by (simp add: comp_def)
  ultimately show ?thesis using run total counts q90 by (intro exI conjI) simp_all
qed

subsection \<open>Endowed accounts\<close>

text \<open>
  The accounts of the list in the order in which the map of the accounts is iterated, each with the balance
  as a JSON array: \<open>account_json\<close> makes the array for a key.
\<close>

definition funded_accounts ::
    "profile \<Rightarrow> usize \<Rightarrow> (account_generate_request \<Rightarrow> 'kp res) \<Rightarrow> ('kp \<Rightarrow> u128 \<Rightarrow> 'j) \<Rightarrow>
       ((string \<rightharpoonup> 'kp \<times> account_metadata) \<Rightarrow> string list) \<Rightarrow> accounts_description \<Rightarrow> u128 \<Rightarrow> 'j list res" where
  "funded_accounts prof available generate account_json order desc balance =
     res_bind (derive_accounts prof available desc sender_seed generate) (\<lambda>accounts.
     Inr (map (\<lambda>a. account_json (fst (the (accounts a))) balance) (order accounts)))"

text \<open>
  \<open>serde_json\<close> as the command uses it: reading and printing a value, and the object with a given array of
  balances. \<open>array_at_mut\<close> is the array under a path of keys, with the way to replace it, if there is one
  there; indexing a value that is neither an object nor null panics.
\<close>

record 'j json_lib =
  json_read :: "string \<Rightarrow> string + 'j"
  json_print :: "'j \<Rightarrow> string + string"
  array_at_mut :: "string list \<Rightarrow> 'j \<Rightarrow> ('j list \<times> ('j list \<Rightarrow> 'j)) option res"
  balances_object :: "'j list \<Rightarrow> 'j"

datatype generate_error =
    Io_Error
  | Json_Error string
  | Generate_Message string

definition write_output :: "string \<Rightarrow> string \<Rightarrow> files \<Rightarrow> generate_error + files" where
  "write_output name text fs =
     (case write_file name text fs of Inl _ \<Rightarrow> Inl Io_Error | Inr fs' \<Rightarrow> Inr fs')"

definition balances_path :: "string list" where
  "balances_path = [''genesis'', ''runtimeGenesis'', ''patch'', ''balances'', ''balances'']"

definition store_funded ::
    "'j json_lib \<Rightarrow> generate_args \<Rightarrow> 'j list \<Rightarrow> files \<Rightarrow> (generate_error + files) res" where
  "store_funded js args accounts fs =
     (case gen_chain_spec args of
        Some spec \<Rightarrow>
          (case contents fs spec of
             None \<Rightarrow> Inr (Inl Io_Error)
           | Some file \<Rightarrow>
               (case (case read_to_string file of None \<Rightarrow> Inl ''invalid utf-8'' | Some text \<Rightarrow> json_read js text) of
                  Inl e \<Rightarrow> Inr (Inl (Json_Error e))
                | Inr v \<Rightarrow>
                    res_bind (array_at_mut js balances_path v) (\<lambda>found. Inr
                    (case found of
                       None \<Rightarrow> Inl (Generate_Message ''Balances array not found in provided chain-spec'')
                     | Some (balances, put) \<Rightarrow>
                         (case json_print js (put (balances @ accounts)) of
                            Inl e \<Rightarrow> Inl (Generate_Message (''to pretty failed: '' @ e))
                          | Inr text \<Rightarrow> write_output (gen_out_file_name args) text fs)))))
      | None \<Rightarrow> Inr
          (case json_print js (balances_object js accounts) of
             Inl e \<Rightarrow> Inl (Json_Error e)
           | Inr text \<Rightarrow> write_output (gen_out_file_name args) text fs))"

text \<open>
  Keys as the command prints them. A Substrate key is turned into the account of its public key,
  \<open>sr_account\<close>, which \<open>sr_json\<close> puts into the array. Of an Ethereum key the public key itself is printed in
  hexadecimal.
\<close>

record ('k, 'a, 'e, 'j) key_printing =
  sr_account :: "'k \<Rightarrow> 'a"
  sr_json :: "'a \<Rightarrow> u128 \<Rightarrow> 'j"
  eth_public_key :: "'e \<Rightarrow> u8 list"
  hex_encode :: "u8 list \<Rightarrow> string"
  string_json :: "string \<Rightarrow> u128 \<Rightarrow> 'j"

definition generate_command ::
    "profile \<Rightarrow> usize \<Rightarrow> ('k, 'a, 'e, 'j) key_printing \<Rightarrow>
       (account_generate_request \<Rightarrow> 'k res) \<Rightarrow> ((string \<rightharpoonup> 'k \<times> account_metadata) \<Rightarrow> string list) \<Rightarrow>
       (account_generate_request \<Rightarrow> 'e res) \<Rightarrow> ((string \<rightharpoonup> 'e \<times> account_metadata) \<Rightarrow> string list) \<Rightarrow>
       'j json_lib \<Rightarrow> generate_args \<Rightarrow> files \<Rightarrow> (generate_error + files) res" where
  "generate_command prof available kprint sr_generate sr_order eth_generate eth_order js args fs =
     res_bind (u_add prof (gen_last_id args) 1) (\<lambda>stop.
     let desc = Derived_Range (gen_start_id args) stop
     in res_bind (case gen_chain args of
            Sub \<Rightarrow> funded_accounts prof available sr_generate
              (\<lambda>kp. sr_json kprint (sr_account kprint kp)) sr_order desc (gen_balance args)
          | Eth \<Rightarrow> funded_accounts prof available eth_generate
              (\<lambda>kp. string_json kprint (''0x'' @ hex_encode kprint (eth_public_key kprint kp))) eth_order desc (gen_balance args)
          | Fake \<Rightarrow> Inr []) (\<lambda>accounts.
     store_funded js args accounts fs))"

subsection \<open>Dispatch\<close>

definition check_nonce_command ::
    "(string \<Rightarrow> string \<Rightarrow> 'r res) \<Rightarrow> (string \<Rightarrow> string \<Rightarrow> 'r res) \<Rightarrow> chain_type \<Rightarrow> string \<Rightarrow> string \<Rightarrow> 'r res" where
  "check_nonce_command sub eth ct ws account =
     (case ct of
        Fake \<Rightarrow> Inl (Panic ''check nonce not supported for fake chain'')
      | Eth \<Rightarrow> eth ws account
      | Sub \<Rightarrow> sub ws account)"

text \<open>
  The command \<open>metadata\<close> asks the node for its metadata and prints it; every failing call ends it with its
  error. The runtime call and the decoding of its answer are one function of subxt, \<open>call_raw\<close>.
\<close>

definition metadata_command ::
    "(string \<Rightarrow> 'e + 'api) \<Rightarrow> ('api \<Rightarrow> 'e + 'rt) \<Rightarrow> (string \<Rightarrow> 'rt \<Rightarrow> 'e + 'meta) \<Rightarrow> string \<Rightarrow> 'e + 'meta" where
  "metadata_command from_insecure_url runtime_at_latest call_raw ws =
     (case from_insecure_url ws of
        Inl e \<Rightarrow> Inl e
      | Inr a \<Rightarrow>
          (case runtime_at_latest a of
             Inl e \<Rightarrow> Inl e
           | Inr runtime_apis \<Rightarrow> call_raw ''Metadata_metadata'' runtime_apis))"

text \<open>
  The block monitor of the command runs forever once it is connected: its main task only sleeps.
\<close>

datatype monitor_outcome = Runs_Forever display_options

definition block_monitor_command ::
    "(string \<Rightarrow> 'm res) \<Rightarrow> (string \<Rightarrow> 'm res) \<Rightarrow> chain_type \<Rightarrow> string \<Rightarrow> display_options \<Rightarrow> monitor_outcome res" where
  "block_monitor_command sub eth ct ws display =
     (case ct of
        Sub \<Rightarrow> res_bind (sub ws) (\<lambda>_. Inr (Runs_Forever display))
      | Eth \<Rightarrow> res_bind (eth ws) (\<lambda>_. Inr (Runs_Forever display))
      | Fake \<Rightarrow> Inl Unimplemented)"

definition main_command ::
    "(tx_args \<Rightarrow> 'o res) \<Rightarrow> (chain_type \<Rightarrow> string \<Rightarrow> string \<Rightarrow> 'o res) \<Rightarrow> (string \<Rightarrow> 'o res) \<Rightarrow>
       (chain_type \<Rightarrow> string \<Rightarrow> display_options \<Rightarrow> 'o res) \<Rightarrow> (chain_type \<Rightarrow> string \<Rightarrow> bool \<Rightarrow> bool \<Rightarrow> string option \<Rightarrow> 'o res) \<Rightarrow>
       (generate_args \<Rightarrow> 'o res) \<Rightarrow> cli_command \<Rightarrow> 'o res" where
  "main_command tx check_nonce metadata monitor load generate command =
     (case command of
        Tx args \<Rightarrow> tx args
      | Check_Nonce ct ws account \<Rightarrow> check_nonce ct ws account
      | Metadata ws \<Rightarrow> metadata ws
      | Block_Monitor_Command ct ws display \<Rightarrow> monitor ct ws display
      | Load_Log ct log_file show_graphs show_errors csv \<Rightarrow> load ct log_file show_graphs show_errors csv
      | Generate_Endowed_Accounts args \<Rightarrow> generate args)"

subsection \<open>What the commands promise\<close>

lemma fresh_sink_nonce:
  "nonces sink account_hex = None \<Longrightarrow> \<exists>sink'. sink_check_account_nonce prof account_hex answer sink = Inr (answer, sink')"
  by (cases answer) (auto simp: sink_check_account_nonce_def assign_nonce_def)

lemma check_nonce_from:
  assumes "describe_account prof account = Inr desc"
    and "derive_accounts prof available desc sender_seed generate = Inr senders"
    and "derive_accounts prof available desc receiver_seed generate = Inr receivers"
    and "net_connect net ws False = Inr a" and "net_client net ws = Inr c"
  shows "check_nonce_with prof available net generate acc_of hex_acc query ws account =
    Inr (case senders account of
        None \<Rightarrow> Inl (Boxed_Message ''account shall be correct'')
      | Some (kp, _) \<Rightarrow> check_account_nonce (hex_acc (acc_of kp)) (query (acc_of kp)))"
proof -
  define sink where "sink = \<lparr>api = a, from_accounts = senders, to_accounts = receivers, nonces = Map.empty,
    rpc_client = c, current_pending_extrinsics = None, block_monitor = (None :: unit option)\<rparr>"
  have sink: "new_with_uri_with_accounts_description net prof available ws desc generate None False = Inr sink"
    using assms(2-5) by (simp add: new_with_uri_with_accounts_description_def expect_ok_def sink_def)
  show ?thesis
  proof (cases "senders account")
    case None
    then show ?thesis by (simp add: check_nonce_with_def assms(1) sink get_from_account_id_def sink_def)
  next
    case (Some km)
    then obtain kp meta where km: "senders account = Some (kp, meta)" by (cases km) auto
    obtain sink' where "sink_check_account_nonce prof (hex_acc (acc_of kp))
        (check_account_nonce (hex_acc (acc_of kp)) (query (acc_of kp))) sink =
      Inr (check_account_nonce (hex_acc (acc_of kp)) (query (acc_of kp)), sink')"
      using fresh_sink_nonce [of sink "hex_acc (acc_of kp)"] by (auto simp: sink_def)
    then show ?thesis
      using km by (simp add: check_nonce_with_def assms(1) sink get_from_account_id_def) (simp add: sink_def)
  qed
qed

text \<open>
  C33: \<open>check-nonce\<close> for an id reports what the node stores for the sender account of that id, which is the
  account that a scenario with the same id sends from; an id with superfluous characters is answered
  with an error, not a panic.
\<close>

theorem check_nonce_of_id:
  fixes available :: usize
  assumes "parse_u32 account = Some i" and "unat i + 1 < 2 ^ 32" and "0 < available"
    and "\<forall>seed j. generate (Request_Derived seed j) = Inr (key seed j)"
    and "net_connect net ws False = Inr a" and "net_client net ws = Inr c"
  shows "check_nonce_with prof available net generate acc_of hex_acc query ws account =
    Inr (if account = show_u32 i
         then check_account_nonce (hex_acc (acc_of (key sender_seed i))) (query (acc_of (key sender_seed i)))
         else Inl (Boxed_Message ''account shall be correct''))"
proof -
  have "unat i + unat (1 :: u32) < 2 ^ LENGTH(32)" using assms(2) by simp
  then have desc: "describe_account prof account = Inr (Derived_Range i (i + 1))"
    using assms(1) by (simp add: describe_account_def u_add_def)
  have stop: "unat (i + 1) = unat i + 1"
    using unat_add_lem [THEN iffD1, OF \<open>unat i + unat (1 :: u32) < _\<close>] by simp
  then have le: "i \<le> i + 1" by (simp add: word_le_nat_alt)
  have derived: "derive_accounts prof available (Derived_Range i (i + 1)) seed generate =
      Inr (collect_map [account_entry (key seed) (unat i)])" for seed
    using derive_accounts_entries [OF le assms(3), of generate seed "key seed" prof] assms(4) by (simp add: stop)
  show ?thesis
    unfolding check_nonce_from [OF desc derived derived assms(5,6)]
    by (simp add: account_entry_def show_u32_def)
qed

theorem check_nonce_of_id_witness:
  "check_nonce_with Debug 4 \<lparr>net_connect = (\<lambda>_ _. Inr () :: unit connect_error + unit), net_from_url = (\<lambda>_. Inr () :: unit + unit),
      net_client = (\<lambda>_. Inr ())\<rparr> example_generate id id
      (\<lambda>acc. \<lparr>at_latest = Inr (), fetch = (\<lambda>_. Inr (Some ())), to_value = (\<lambda>_. Inr ()), at_nonce = Some,
        as_u128 = (\<lambda>_. Some 42)\<rparr> :: (unit, unit, unit, unit) account_query) ''ws://node'' (show_u32 7) = Inr (Inr 42)"
proof -
  let ?net = "\<lparr>net_connect = (\<lambda>_ _. Inr () :: unit connect_error + unit), net_from_url = (\<lambda>_. Inr () :: unit + unit),
      net_client = (\<lambda>_. Inr ())\<rparr>"
  let ?query = "\<lambda>acc :: string. \<lparr>at_latest = Inr (), fetch = (\<lambda>_. Inr (Some ())), to_value = (\<lambda>_. Inr ()), at_nonce = Some,
        as_u128 = (\<lambda>_. Some 42)\<rparr> :: (unit, unit, unit, unit) account_query"
  have "check_nonce_with Debug 4 ?net example_generate id id ?query ''ws://node'' (show_u32 7) =
    Inr (if show_u32 7 = show_u32 7
         then check_account_nonce (id (id (derivation_uri sender_seed 7))) (?query (id (derivation_uri sender_seed 7)))
         else Inl (Boxed_Message ''account shall be correct''))"
    by (rule check_nonce_of_id [where key = derivation_uri]) (simp_all add: example_generate_Derived)
  then show ?thesis by (simp add: check_account_nonce_def)
qed

text \<open>
  What the command has written if it succeeds: a file with just the given accounts, or with a chain spec the
  spec with the accounts after the balances that it has already.
\<close>

definition balances_written :: "'j json_lib \<Rightarrow> generate_args \<Rightarrow> files \<Rightarrow> files \<Rightarrow> 'j list \<Rightarrow> bool" where
  "balances_written js args fs fs' accounts \<longleftrightarrow> (\<exists>body. contents fs' (gen_out_file_name args) = Some (Utf8 body) \<and>
     (case gen_chain_spec args of
        None \<Rightarrow> json_print js (balances_object js accounts) = Inr body
      | Some spec \<Rightarrow> \<exists>old v balances put. contents fs spec = Some (Utf8 old) \<and> json_read js old = Inr v \<and>
          array_at_mut js balances_path v = Inr (Some (balances, put)) \<and> json_print js (put (balances @ accounts)) = Inr body))"

lemma write_output_contents: "write_output name text fs = Inr fs' \<Longrightarrow> contents fs' name = Some (Utf8 text)"
  by (auto simp: write_output_def write_file_def split: if_splits)

lemma store_funded_written:
  assumes "store_funded js args accounts fs = Inr (Inr fs')"
  shows "balances_written js args fs fs' accounts"
proof (cases "gen_chain_spec args")
  case None
  then show ?thesis
    using assms write_output_contents by (fastforce simp: store_funded_def balances_written_def split: sum.splits)
next
  case (Some spec)
  then obtain content v balances put body where "contents fs spec = Some content" "read_to_string content \<noteq> None"
    "(case read_to_string content of None \<Rightarrow> Inl ''invalid utf-8'' | Some old \<Rightarrow> json_read js old) = Inr v"
    "array_at_mut js balances_path v = Inr (Some (balances, put))" "json_print js (put (balances @ accounts)) = Inr body"
    "write_output (gen_out_file_name args) body fs = Inr fs'"
    using assms by (auto simp: store_funded_def res_bind_eq_Inr split: sum.splits option.splits)
  moreover from this obtain old where "content = Utf8 old" "json_read js old = Inr v" by (cases content) auto
  ultimately show ?thesis using Some write_output_contents by (fastforce simp: balances_written_def)
qed

lemma funded_accounts_set:
  assumes "derive_accounts prof available desc sender_seed generate = Inr senders" and "set (order senders) = dom senders"
    and "funded_accounts prof available generate account_json order desc balance = Inr accounts"
  shows "set accounts = {account_json kp balance | a kp meta. senders a = Some (kp, meta)} \<and>
    length accounts = length (order senders)"
proof -
  have "accounts = map (\<lambda>a. account_json (fst (the (senders a))) balance) (order senders)"
    using assms(1,3) by (simp add: funded_accounts_def)
  moreover have "set (map (\<lambda>a. account_json (fst (the (senders a))) balance) (order senders)) =
      {account_json kp balance | a kp meta. senders a = Some (kp, meta)}"
    unfolding set_map assms(2) by force
  ultimately show ?thesis by simp
qed

text \<open>
  C32: what \<open>generate-endowed-accounts\<close> lists, against the accounts that send in a scenario
  \<open>from-many-accounts\<close> with the same first and last id. On a Substrate chain it endows exactly them, each with
  the given balance: without a chain spec the file holds just them, with a chain spec they follow the
  balances that it already has, which are kept. On an Ethereum chain it lists the public keys of the senders
  instead, and the account of none of them, since a public key is longer than the 20 bytes of an account.
\<close>

theorem endowed_accounts_against_senders:
  assumes "generate_command prof available kprint sr_generate sr_order eth_generate eth_order js args fs = Inr (Inr fs')"
    and "tx_scenario txa = From_Many_Accounts (gen_start_id args) (gen_last_id args) first n_txs"
    and "accounts_of prof (tx_scenario_builder txa) = Inr desc"
    and "derive_accounts prof available desc sender_seed sr_generate = Inr senders"
    and "set (sr_order senders) = dom senders"
    and "derive_accounts prof available desc sender_seed eth_generate = Inr eth_senders"
    and "set (eth_order eth_senders) = dom eth_senders"
    and "\<forall>kp kp'. length (eth_public_key kprint kp) \<noteq> length (eth_account kp')"
    and "inj (hex_encode kprint)" and "inj (\<lambda>account. string_json kprint account (gen_balance args))"
  shows "(gen_chain args = Sub \<longrightarrow> (\<exists>accounts. balances_written js args fs fs' accounts \<and>
      set accounts = {sr_json kprint (sr_account kprint kp) (gen_balance args) | a kp meta. senders a = Some (kp, meta)} \<and>
      length accounts = length (sr_order senders))) \<and>
    (gen_chain args = Eth \<longrightarrow> (\<exists>accounts. balances_written js args fs fs' accounts \<and>
      set accounts = {string_json kprint (''0x'' @ hex_encode kprint (eth_public_key kprint kp)) (gen_balance args) |
        a kp meta. eth_senders a = Some (kp, meta)} \<and>
      length accounts = length (eth_order eth_senders) \<and>
      (\<forall>a kp meta. eth_senders a = Some (kp, meta) \<longrightarrow>
        string_json kprint (''0x'' @ hex_encode kprint (eth_account kp)) (gen_balance args) \<notin> set accounts)))"
proof -
  have sb: "start_id (tx_scenario_builder txa) = Some (gen_start_id args)" "last_id (tx_scenario_builder txa) = Some (gen_last_id args)"
    using assms(2) by (simp_all add: tx_builder_defs split: option.split)
  obtain stop where stop: "u_add prof (gen_last_id args) 1 = Inr stop" and desc: "desc = Derived_Range (gen_start_id args) stop"
    using assms(3) by (auto simp: accounts_of_def sb res_bind_eq_Inr Let_def)
  let ?sr = "\<lambda>kp. sr_json kprint (sr_account kprint kp)"
  let ?eth = "\<lambda>kp. string_json kprint (''0x'' @ hex_encode kprint (eth_public_key kprint kp))"
  show ?thesis
  proof (intro conjI impI)
    assume "gen_chain args = Sub"
    then obtain accounts where funded: "funded_accounts prof available sr_generate ?sr sr_order desc (gen_balance args) = Inr accounts"
      and stored: "store_funded js args accounts fs = Inr (Inr fs')"
      using assms(1) by (auto simp: generate_command_def stop desc res_bind_eq_Inr)
    note listed = funded_accounts_set [where order = sr_order, OF assms(4,5) funded]
    show "\<exists>accounts. balances_written js args fs fs' accounts \<and>
      set accounts = {?sr kp (gen_balance args) | a kp meta. senders a = Some (kp, meta)} \<and>
      length accounts = length (sr_order senders)"
      using store_funded_written [OF stored] listed by (intro exI conjI) auto
  next
    assume "gen_chain args = Eth"
    then obtain accounts where funded: "funded_accounts prof available eth_generate ?eth eth_order desc (gen_balance args) = Inr accounts"
      and "store_funded js args accounts fs = Inr (Inr fs')"
      using assms(1) by (auto simp: generate_command_def stop desc res_bind_eq_Inr)
    moreover note listed = funded_accounts_set [where order = eth_order, OF assms(6,7) funded]
    moreover have "string_json kprint (''0x'' @ hex_encode kprint (eth_account kp)) (gen_balance args) \<noteq> ?eth kp' (gen_balance args)"
      for kp kp'
    proof
      assume "string_json kprint (''0x'' @ hex_encode kprint (eth_account kp)) (gen_balance args) = ?eth kp' (gen_balance args)"
      from injD [OF assms(10) this] have "hex_encode kprint (eth_account kp) = hex_encode kprint (eth_public_key kprint kp')" by simp
      from injD [OF assms(9) this] have "length (eth_account kp) = length (eth_public_key kprint kp')" by simp
      then show False using assms(8) by metis
    qed
    ultimately show "\<exists>accounts. balances_written js args fs fs' accounts \<and>
      set accounts = {?eth kp (gen_balance args) | a kp meta. eth_senders a = Some (kp, meta)} \<and>
      length accounts = length (eth_order eth_senders) \<and>
      (\<forall>a kp meta. eth_senders a = Some (kp, meta) \<longrightarrow>
        string_json kprint (''0x'' @ hex_encode kprint (eth_account kp)) (gen_balance args) \<notin> set accounts)"
      using store_funded_written by (intro exI [of _ accounts]) auto
  qed
qed

definition example_json :: "string json_lib" where
  "example_json = \<lparr>json_read = Inr, json_print = Inr, array_at_mut = (\<lambda>_ _. Inr None), balances_object = concat\<rparr>"

definition example_endow :: generate_args where
  "example_endow = \<lparr>gen_chain = Sub, gen_start_id = 5, gen_last_id = 6, gen_balance = 100, gen_out_file_name = ''out.json'',
     gen_chain_spec = None\<rparr>"

text \<open>Texts as keys; their bytes, cut to the lengths of public keys and accounts.\<close>

definition bytes_of :: "nat \<Rightarrow> string \<Rightarrow> u8 list" where
  "bytes_of n kp = take n (map of_char kp @ replicate n 0)"

lemma bytes_of_length: "length (bytes_of n kp) = n"
  by (simp add: bytes_of_def del: take_append)

definition example_printing :: "(string, string, string, string) key_printing" where
  "example_printing = \<lparr>sr_account = id, sr_json = (\<lambda>a _. a), eth_public_key = bytes_of 65,
     hex_encode = map (\<lambda>b. char_of (unat b)), string_json = (\<lambda>a _. a)\<rparr>"

lemma example_printing_ok:
  "\<forall>kp kp'. length (eth_public_key example_printing kp) \<noteq> length (bytes_of 20 kp')"
  "inj (hex_encode example_printing)" "inj (\<lambda>account. string_json example_printing account balance)"
proof -
  have "inj (\<lambda>b :: u8. char_of (unat b) :: char)"
  proof (rule injI)
    fix b c :: u8
    assume "(char_of (unat b) :: char) = char_of (unat c)"
    then have "(of_char (char_of (unat b)) :: nat) = of_char (char_of (unat c))" by simp
    then have "unat b mod 256 = unat c mod 256" by simp
    then show "b = c" using unat_bound [of b] unat_bound [of c] by (simp add: word_unat_eq_iff)
  qed
  then show "inj (hex_encode example_printing)" by (simp add: example_printing_def)
qed (simp_all add: example_printing_def bytes_of_length inj_def)

lemma example_printing_simps:
  "sr_json example_printing a n = a" "sr_account example_printing kp = kp" "string_json example_printing t n = t"
  by (simp_all add: example_printing_def)

theorem endowed_accounts_against_senders_witness:
  "\<exists>senders fs' fs''. derive_accounts Debug 4 (Derived_Range 5 7) sender_seed example_generate = Inr senders \<and>
    generate_command Debug 4 example_printing example_generate (\<lambda>_. [''5'', ''6'']) example_generate (\<lambda>_. [''5'', ''6''])
      example_json example_endow \<lparr>contents = Map.empty, writable = (\<lambda>_. True)\<rparr> = Inr (Inr fs') \<and>
    generate_command Debug 4 example_printing example_generate (\<lambda>_. [''5'', ''6'']) example_generate (\<lambda>_. [''5'', ''6''])
      example_json (example_endow\<lparr>gen_chain := Eth\<rparr>) \<lparr>contents = Map.empty, writable = (\<lambda>_. True)\<rparr> = Inr (Inr fs'') \<and>
    (\<exists>accounts. set accounts = {kp | a kp meta. senders a = Some (kp, meta)} \<and> contents fs' ''out.json'' = Some (Utf8 (concat accounts))) \<and>
    (\<exists>accounts. length accounts = 2 \<and> contents fs'' ''out.json'' = Some (Utf8 (concat accounts)) \<and>
      (\<forall>a kp meta. senders a = Some (kp, meta) \<longrightarrow> ''0x'' @ hex_encode example_printing (bytes_of 20 kp) \<notin> set accounts))"
proof -
  let ?fs = "\<lparr>contents = Map.empty, writable = (\<lambda>_. True)\<rparr>"
  let ?gen = "\<lambda>args. generate_command Debug 4 example_printing example_generate (\<lambda>_. [''5'', ''6'']) example_generate
    (\<lambda>_. [''5'', ''6'']) example_json args ?fs"
  obtain senders where senders: "derive_accounts Debug 4 (Derived_Range 5 7) sender_seed example_generate = Inr senders"
    and dom: "dom senders = show_nat ` {5..<7}"
    using derive_accounts_entries [of 5 7 4 example_generate sender_seed "derivation_uri sender_seed" Debug]
      collect_account_entries(2) [of 5 2 "derivation_uri sender_seed"]
    by (auto simp: example_generate_Derived)
  have "{5..<7} = {5, 6 :: nat}" by auto
  then have dom': "set [''5'', ''6''] = dom senders"
    by (simp add: dom show_nat.simps digit_char_def char_of_def bit_0)
  let ?eth = "example_endow\<lparr>gen_chain := Eth\<rparr>"
  obtain fs' fs'' where gen: "?gen example_endow = Inr (Inr fs')" "?gen ?eth = Inr (Inr fs'')"
    by (simp add: generate_command_def example_endow_def u_add_def funded_accounts_def senders store_funded_def
        example_json_def write_output_def write_file_def)
  let ?txa = "tx_defaults (From_Many_Accounts 5 6 None 1)"
  have desc: "accounts_of Debug (tx_scenario_builder ?txa :: (unit, unit) scenario_builder) = Inr (Derived_Range 5 7)"
    by (simp add: accounts_of_def tx_builder_defs tx_defaults_def u_add_def)
  have ends: "tx_scenario ?txa = From_Many_Accounts (gen_start_id example_endow) (gen_last_id example_endow) None 1"
    "tx_scenario ?txa = From_Many_Accounts (gen_start_id ?eth) (gen_last_id ?eth) None 1"
    by (simp_all add: example_endow_def tx_defaults_def)
  have chains: "gen_chain example_endow = Sub" "gen_chain ?eth = Eth" by (simp_all add: example_endow_def)
  note sub = endowed_accounts_against_senders [OF gen(1) ends(1) desc senders dom' senders dom' example_printing_ok,
      THEN conjunct1, THEN mp, OF chains(1)]
  note eth = endowed_accounts_against_senders [OF gen(2) ends(2) desc senders dom' senders dom' example_printing_ok,
      THEN conjunct2, THEN mp, OF chains(2)]
  from sub have "\<exists>accounts. set accounts = {kp | a kp meta. senders a = Some (kp, meta)} \<and>
      contents fs' ''out.json'' = Some (Utf8 (concat accounts))"
    by (auto simp: balances_written_def example_endow_def example_json_def example_printing_simps)
  moreover obtain accounts where written: "balances_written example_json ?eth ?fs fs'' accounts"
      and len: "length accounts = length [''5'', ''6'']"
      and none: "\<forall>a kp meta. senders a = Some (kp, meta) \<longrightarrow> string_json example_printing
        (''0x'' @ hex_encode example_printing (bytes_of 20 kp)) (gen_balance ?eth) \<notin> set accounts"
    using eth by (elim exE conjE)
  have "contents fs'' ''out.json'' = Some (Utf8 (concat accounts))"
    using written by (auto simp: balances_written_def example_endow_def example_json_def)
  with len none have "\<exists>accounts. length accounts = 2 \<and> contents fs'' ''out.json'' = Some (Utf8 (concat accounts)) \<and>
      (\<forall>a kp meta. senders a = Some (kp, meta) \<longrightarrow> ''0x'' @ hex_encode example_printing (bytes_of 20 kp) \<notin> set accounts)"
    unfolding example_printing_simps by (intro exI [of _ accounts]) simp
  ultimately show ?thesis using senders gen by blast
qed

end
