(* ===== verification/Fetched_Nonces.thy ===== *)
theory Fetched_Nonces
  imports Command_Line
begin

section \<open>Commands whose nonces come from the node\<close>

text \<open>
  The command \<open>tx from-many-accounts\<close> without \<open>--from\<close>: the tasks that build the transactions ask the sink
  for the next nonce of their account, concurrently. This theory composes the command line, \<open>build\<close>, the
  sink of the Substrate chain and the interleavings of its \<open>check_account_nonce\<close>.
\<close>

subsection \<open>Building without a first nonce\<close>

text \<open>
  The \<open>m\<close> accounts from the id \<open>start\<close> on, as senders: \<open>acc b\<close> is the account of the \<open>b\<close>-th one.
\<close>

definition sender_accounts ::
    "(account_generate_request \<Rightarrow> 'kp res) \<Rightarrow> ('kp \<Rightarrow> 'acc) \<Rightarrow> u32 \<Rightarrow> nat \<Rightarrow> (nat \<Rightarrow> 'acc) \<Rightarrow> bool" where
  "sender_accounts generate acc_of start m acc \<longleftrightarrow> (\<forall>b < m. \<forall>kp.
     generate (Request_Derived sender_seed (of_nat (unat start + b))) = Inr kp \<longrightarrow> acc_of kp = acc b)"

text \<open>The accounts of the calls of \<open>build_transaction\<close>, of which there are \<open>c\<close> for each.\<close>

definition call_accounts :: "('acc \<Rightarrow> string) \<Rightarrow> (nat \<Rightarrow> 'acc) \<Rightarrow> nat \<Rightarrow> nat \<Rightarrow> string list" where
  "call_accounts hex_acc acc m c = map (\<lambda>i. hex_acc (acc (i div c))) [0..<m * c]"

lemma derived_eq:
  assumes "unat (start :: u32) + m \<le> 2 ^ 32" and "b < m" and "b' < m"
  shows "((of_nat (unat start + b) :: u32) = of_nat (unat start + b')) = (b = b')"
proof -
  have "unat (of_nat (unat start + k) :: u32) = unat start + k" if "k < m" for k
    using that assms(1) by (intro unat_of_nat_small) simp
  then show ?thesis using assms(2,3) by (metis add_left_cancel)
qed

lemma div_less: "i < m * c \<Longrightarrow> i div c < (m :: nat)"
  by (simp add: less_mult_imp_div_less)

lemma count_block:
  assumes "b < m" and "inj_on h {..<m}"
  shows "count_list (map (\<lambda>i. h (i div c)) [0..<m * c]) (h b) = c"
proof -
  have count: "count_list xs x = length (filter (\<lambda>y. y = x) xs)" for xs and x :: 'a by (induction xs) auto
  have "filter (\<lambda>i. h (i div c) = h b) [0..<m * c] = filter (\<lambda>i. i div c = b) [0..<m * c]"
  proof (rule filter_cong [OF refl])
    fix i assume "i \<in> set [0..<m * c]"
    then have "i div c < m" by (simp add: div_less)
    then show "(h (i div c) = h b) = (i div c = b)" using assms by (auto dest: inj_onD)
  qed
  moreover have "set (filter (\<lambda>i. i div c = b) [0..<m * c]) = {b * c..<Suc b * c}"
  proof -
    have bound: "Suc b * c \<le> m * c" using assms(1) by (intro mult_le_mono1) simp
    have "i div c = b \<longleftrightarrow> b * c \<le> i \<and> i < Suc b * c" if "0 < c" for i
    proof -
      have "i div c = b \<longleftrightarrow> b \<le> i div c \<and> i div c < Suc b" by auto
      then show ?thesis using that by (simp only: less_eq_div_iff_mult_less_eq div_less_iff_less_mult)
    qed
    note block = this
    show ?thesis
    proof (cases "c = 0")
      case False
      show ?thesis
      proof (rule set_eqI)
        fix i
        show "i \<in> set (filter (\<lambda>i. i div c = b) [0..<m * c]) \<longleftrightarrow> i \<in> {b * c..<Suc b * c}"
          using block [of i] less_le_trans [OF _ bound, of i] False by (auto simp del: mult_Suc)
      qed
    qed simp
  qed
  then have "length (filter (\<lambda>i. i div c = b) [0..<m * c]) = c"
    by (metis card_atLeastLessThan diff_add_inverse2 distinct_card distinct_filter distinct_upt mult_Suc)
  ultimately show ?thesis by (simp add: count filter_map comp_def)
qed

text \<open>On a sink with the accounts of the range, the answers to the calls are those of the sender accounts.\<close>

lemma sender_answers:
  assumes "node_reachable available generate rem uri legacy"
    and "unat start + m = Suc (unat final)" and "0 < m" and "unat final + 1 < 2 ^ 32"
    and "sender_accounts generate acc_of start m acc" and "\<forall>i < m * c. nonce_of rem i (acc (i div c)) = Inr (ns i)"
    and "chain_monitor (monitor_new rem) uri monitoring = Inr monitor"
    and "new_with_uri_with_accounts_description (remote_net rem) prof available uri (Derived_Range start (final + 1)) generate
      monitor legacy = Inr sink"
    and "i < m * c"
  shows "sink_answers acc_of rem sink i (show_nat (unat start + i div c)) (ns i)"
proof -
  have b: "i div c < m" using assms(9) by (rule div_less)
  obtain kp meta where "from_accounts sink (show_nat (unat start + i div c)) = Some (kp, meta)"
      "generate (Request_Derived sender_seed (of_nat (unat start + i div c))) = Inr kp"
    using range_sink [OF assms(1-4), of monitoring prof] assms(7,8) b by fastforce
  moreover from this(2) have "acc_of kp = acc (i div c)" using assms(5) b unfolding sender_accounts_def by blast
  ultimately show ?thesis using assms(6,9) by (simp add: sink_answers_def)
qed

subsection \<open>What is sent\<close>

text \<open>The account that a transaction was built for, found from its metadata.\<close>

definition account_hex_of :: "('acc \<Rightarrow> string) \<Rightarrow> u32 \<Rightarrow> (nat \<Rightarrow> 'acc) \<Rightarrow> 'h tx_task \<Rightarrow> string" where
  "account_hex_of hex_acc start acc t =
     (case tx_account_metadata (task_tx t) of Derived d \<Rightarrow> hex_acc (acc (unat d - unat start)) | _ \<Rightarrow> [])"

lemma account_hex_of_entry:
  assumes "sent_entry t = (n, Derived (of_nat (unat start + b)), v, w)" and "unat start + m \<le> 2 ^ 32" and "b < m"
  shows "account_hex_of hex_acc start acc t = hex_acc (acc b)"
proof -
  have "unat (of_nat (unat start + b) :: u32) = unat start + b" using assms(2,3) by (intro unat_of_nat_small) simp
  then show ?thesis using assms(1) by (simp add: account_hex_of_def sent_entry_def)
qed

definition of_account :: "account_metadata \<Rightarrow> entry list \<Rightarrow> entry list" where
  "of_account meta es = filter (\<lambda>(_, a, _). a = meta) es"

text \<open>From the nonces of an account's transactions to their entries.\<close>

lemma of_account_entries:
  fixes start :: u32
  assumes "\<And>t. t \<in> set txs \<Longrightarrow> \<exists>n b. b < m \<and> sent_entry t = (n, Derived (of_nat (unat start + b)), None, w)"
    and "unat start + m \<le> 2 ^ 32" and "inj_on (\<lambda>b. hex_acc (acc b)) {..<m}" and "b < m"
  shows "of_account (Derived (of_nat (unat start + b))) (map sent_entry txs) =
    map (\<lambda>n. (n, Derived (of_nat (unat start + b)), None, w))
      (map task_nonce (filter (\<lambda>t. account_hex_of hex_acc start acc t = hex_acc (acc b)) txs))"
  using assms(1)
proof (induction txs)
  case (Cons t txs)
  obtain n b' where b': "b' < m" and t: "sent_entry t = (n, Derived (of_nat (unat start + b')), None, w)"
    using Cons.prems [of t] by auto
  have "account_hex_of hex_acc start acc t = hex_acc (acc b')" by (rule account_hex_of_entry [OF t assms(2) b'])
  moreover have "(hex_acc (acc b') = hex_acc (acc b)) = (b' = b)" using inj_onD [OF assms(3)] b' assms(4) by auto
  moreover have "task_nonce t = n" using t by (simp add: sent_entry_def)
  moreover have "of_account (Derived (of_nat (unat start + b))) (map sent_entry txs) =
    map (\<lambda>n. (n, Derived (of_nat (unat start + b)), None, w))
      (map task_nonce (filter (\<lambda>t. account_hex_of hex_acc start acc t = hex_acc (acc b)) txs))"
    by (rule Cons.IH) (use Cons.prems in simp)
  ultimately show ?case using t derived_eq [OF assms(2) b' assms(4)] by (simp add: of_account_def)
qed (simp add: of_account_def)

lemma transactions_fetched:
  fixes available :: usize and start :: u32
  assumes "start_id sb = Some start" and "last_id sb = Some final" and "nonce_from sb = None" and "mortality sb = None"
    and "unat start + m = Suc (unat final)" and "c = unat (txs_count sb)" and "0 < c"
    and "unat final + 1 < 2 ^ 32" and "m * c < 2 ^ 32" and "0 < available"
    and "\<forall>i < m * c. build_tx i (watched_txs sb) (param None None (unat start + i div c)) the_tip = Inr (mk i) \<and>
      sent_entry (mk i) = (ns i, Derived (of_nat (unat start + i div c)), None, w)"
    and "inj_on (\<lambda>b. hex_acc (acc b)) {..<m}"
    and "nonce_steps prof node (call_accounts hex_acc acc m c) st" and "all_returned (call_accounts hex_acc acc m c) st ns"
    and "\<forall>a r. node a (Inr r) \<longrightarrow> unat r + m * c < 2 ^ 128"
  shows "\<exists>txs. build_transactions prof available build_tx sb the_tip = Inr txs \<and> length txs = m * c \<and> sorted (map task_nonce txs) \<and>
    (\<forall>b < m. \<exists>first. node (hex_acc (acc b)) (Inr first) \<and>
      of_account (Derived (of_nat (unat start + b))) (map sent_entry txs) =
        map (\<lambda>j. (first + of_nat j, Derived (of_nat (unat start + b)), None, w)) [0..<c])"
proof -
  let ?ps = "map (\<lambda>k. param None None (unat start + k div c)) [0..<m * c]"
  let ?accounts = "call_accounts hex_acc acc m c"
  define txs where "txs = sort_key task_nonce (map mk [0..<length ?ps])"
  have ps: "build_params prof sb = Inr ?ps"
  proof -
    have "Suc (unat final) - unat start = m" using assms(5) by simp
    then show ?thesis using build_params_index [OF assms(1,2,3), of prof] assms(4,6) by simp
  qed
  have bound: "unat start + m \<le> 2 ^ 32" using assms(5,8) by simp
  have mk: "build_tx i (watched_txs sb) (?ps ! i) the_tip = Inr (mk i) \<and> task_nonce (mk i) = ns i \<and>
      account_hex_of hex_acc start acc (mk i) = ?accounts ! i" if i: "i < length ?ps" for i
  proof -
    have "sent_entry (mk i) = (ns i, Derived (of_nat (unat start + i div c)), None, w)" using assms(11) i by simp
    from account_hex_of_entry [OF this bound div_less] i this assms(11) show ?thesis
      by (simp add: call_accounts_def sent_entry_def)
  qed
  have len: "length ?accounts = length ?ps" "length ?ps < 2 ^ 32" using assms(9) by (simp_all add: call_accounts_def)
  have nodes: "\<forall>r. node a (Inr r) \<longrightarrow> unat r + length ?ps < 2 ^ 128" for a using assms(15) by simp
  note sent = fetched_nonces_sent [where account_in = "account_hex_of hex_acc start acc" and mk = mk and build_tx = build_tx
      and the_tip = the_tip, OF ps len(2) assms(10) len(1) assms(13,14) mk nodes, folded txs_def]
  have "\<exists>n b. b < m \<and> sent_entry t = (n, Derived (of_nat (unat start + b)), None, w)" if "t \<in> set txs" for t
  proof -
    obtain i where "i < m * c" "t = mk i" using \<open>t \<in> set txs\<close> by (auto simp: txs_def)
    then show ?thesis using assms(11) div_less by blast
  qed
  note entries = of_account_entries [where hex_acc = hex_acc and acc = acc and txs = txs, OF this bound assms(12)]
  have "\<exists>first. node (hex_acc (acc b)) (Inr first) \<and>
      of_account (Derived (of_nat (unat start + b))) (map sent_entry txs) =
        map (\<lambda>j. (first + of_nat j, Derived (of_nat (unat start + b)), None, w)) [0..<c]" if b: "b < m" for b
  proof -
    have "count_list ?accounts (hex_acc (acc b)) = c"
      using count_block [OF b assms(12)] by (simp add: call_accounts_def)
    then obtain first where "node (hex_acc (acc b)) (Inr first)"
        "map task_nonce (filter (\<lambda>t. account_hex_of hex_acc start acc t = hex_acc (acc b)) txs) =
          map (\<lambda>j. first + of_nat j) [0..<c]"
      using sent [of "hex_acc (acc b)"] assms(7) by auto
    then show ?thesis using entries [OF _ b] by (intro exI [of _ first]) simp
  qed
  moreover have "length txs = m * c" by (simp add: txs_def)
  moreover have "sorted (map task_nonce txs)" by (simp add: txs_def)
  ultimately show ?thesis using sent by blast
qed

context chain_service begin

lemma many_fetched:
  fixes available :: usize and start :: u32 and sb :: "('a, 'b) scenario_builder"
  assumes "tx_scenario args = From_Many_Accounts start final None n_txs" and "tx_mortal args = None"
    and "sb = tx_scenario_builder args" and "\<forall>ctx. \<exists>tx_call. payload_builder ctx = Inr tx_call"
    and "unat start + m = Suc (unat final)" and "0 < m" and "c = unat n_txs" and "0 < c"
    and "unat final + 1 < 2 ^ 32" and "m * c < 2 ^ 32" and "0 < available"
    and "reachable (tx_ws args) (tx_use_legacy_backend args)" and "\<forall>i. signs i"
    and "\<And>sink i. chain_sink ch (tx_ws args) (Derived_Range start (final + 1)) (does_block_monitoring sb) (tx_use_legacy_backend args) =
      Inr sink \<Longrightarrow> i < m * c \<Longrightarrow> answers sink i (show_nat (unat start + i div c)) (ns i)"
    and "inj_on (\<lambda>b. hex_acc (acc b)) {..<m}"
    and "nonce_steps prof node (call_accounts hex_acc acc m c) st" and "all_returned (call_accounts hex_acc acc m c) st ns"
    and "\<forall>a r. node a (Inr r) \<longrightarrow> unat r + m * c < 2 ^ 128"
  shows "\<exists>r. build_on prof available ch payload_builder (ucast (tx_send_threshold args)) (tx_ws args)
      (Derived_Range start (final + 1)) sb = Inr r \<and>
    length (transactions r) = m * c \<and> sorted (map fst (sending_order r)) \<and>
    (\<forall>b < m. \<exists>first. node (hex_acc (acc b)) (Inr first) \<and>
      of_account (Derived (of_nat (unat start + b))) (sending_order r) =
        map (\<lambda>j. (first + of_nat j, Derived (of_nat (unat start + b)), None, \<not> tx_unwatched args)) [0..<c])"
proof -
  note sb = tx_many_settings [OF assms(1-3)]
  let ?meta = "\<lambda>b. Derived (of_nat (unat start + b))"
  obtain sink where sink: "chain_sink ch (tx_ws args) (Derived_Range start (final + 1)) (does_block_monitoring sb)
      (tx_use_legacy_backend args) = Inr sink"
    and known: "\<forall>b < m. knows sink (show_nat (unat start + b)) (?meta b)"
    using connects [OF assms(12,5,6,9)] by blast
  have "\<exists>mk. \<forall>i < m * c. chain_build_tx ch sink payload_builder i (watched_txs sb) (param None None (unat start + i div c)) (tip sb) =
      Inr (mk i) \<and> sent_entry (mk i) = (ns i, ?meta (i div c), None, watched_txs sb)"
    by (rule builds_all [OF assms(4,13)]) (use known assms(14) [OF sink] in \<open>simp add: param_def div_less\<close>)
  then obtain mk where mk: "\<forall>i < m * c. chain_build_tx ch sink payload_builder i (watched_txs sb)
      (param None None (unat start + i div c)) (tip sb) = Inr (mk i) \<and>
      sent_entry (mk i) = (ns i, ?meta (i div c), None, watched_txs sb)" by blast
  have c: "c = unat (txs_count sb)" using assms(7) by (simp only: sb(9))
  obtain txs where txs: "build_transactions prof available (chain_build_tx ch sink payload_builder) sb (tip sb) = Inr txs"
      "length txs = m * c" "sorted (map task_nonce txs)"
    and sent: "\<forall>b < m. \<exists>first. node (hex_acc (acc b)) (Inr first) \<and> of_account (?meta b) (map sent_entry txs) =
        map (\<lambda>j. (first + of_nat j, ?meta b, None, watched_txs sb)) [0..<c]"
    using transactions_fetched [where hex_acc = hex_acc and acc = acc and the_tip = "tip sb"
      and build_tx = "chain_build_tx ch sink payload_builder", OF sb(1-4) assms(5) c assms(8-11) mk assms(15-18)] by blast
  define r where "r = runner_new (ucast (tx_send_threshold args)) (rev txs) (log_file_name_prefix sb) (builder_base_dir_path sb)
    (builder_executor_id sb) (builder_timeout sb)"
  have "build_on prof available ch payload_builder (ucast (tx_send_threshold args)) (tx_ws args) (Derived_Range start (final + 1)) sb =
      Inr r"
    using sink txs(1) by (simp add: build_on_def r_def sb(10))
  moreover have "sorted (map fst (sending_order r))" using txs(3) by (simp add: r_def sent_entry_def comp_def)
  moreover have "length (transactions r) = m * c" by (simp add: r_def txs(2))
  moreover have "sending_order r = map sent_entry txs" by (simp add: r_def)
  ultimately show ?thesis using sent unfolding sb(11) by metis
qed

end

text \<open>
  C9: the command \<open>tx ... from-many-accounts --start-id s --last-id l --count c\<close> without \<open>--from\<close> and
  \<open>--mortal\<close>, on a
  Substrate node: however the concurrent requests for nonces interleave, every account from \<open>s\<close> up to and
  including \<open>l\<close> sends exactly \<open>c\<close> transactions, with consecutive nonces from the one that the node
  reported for it, in ascending order, and nothing else is sent.
\<close>

theorem tx_fetched_nonces:
  fixes available :: usize and ids :: "('acc, 'b) id_bytes" and start :: u32
  assumes "tx_chain args = Sub" and "tx_scenario args = From_Many_Accounts start final None n_txs" and "tx_mortal args = None"
    and "\<forall>key. hex_bytes ids (sub_as_ref ids key) \<noteq> []"
    and "unat start + m = Suc (unat final)" and "0 < m" and "c = unat n_txs" and "0 < c"
    and "unat final + 1 < 2 ^ 32" and "m * c < 2 ^ 32" and "0 < available"
    and "\<forall>seed i. \<exists>kp. generate_sr25519_keypair (dev_key cr) (parse_uri cr) (from_uri cr) (Request_Derived seed i) = Inr kp"
    and "\<exists>a. net_connect (remote_net rem) (tx_ws args) (tx_use_legacy_backend args) = Inr a"
    and "\<exists>cl. net_client (remote_net rem) (tx_ws args) = Inr cl" and "\<exists>bm. monitor_new rem (tx_ws args) = Inr bm"
    and "\<forall>i. offline_signing (client_of rem i)"
    and "sender_accounts (generate_sr25519_keypair (dev_key cr) (parse_uri cr) (from_uri cr)) (account_of cr) start m acc" and "inj_on (\<lambda>b. hex_acc (acc b)) {..<m}"
    and "nonce_steps prof node (call_accounts hex_acc acc m c) st" and "all_returned (call_accounts hex_acc acc m c) st ns"
    and "\<forall>i < m * c. nonce_of rem i (acc (i div c)) = Inr (ns i)" and "\<forall>a r. node a (Inr r) \<longrightarrow> unat r + m * c < 2 ^ 128"
  shows "\<exists>r. tx_command prof available ids (substrate_chain prof available cr rem) eth args = Inr (Substrate_Executor r, True) \<and>
    length (transactions r) = m * c \<and> sorted (map fst (sending_order r)) \<and>
    (\<forall>b < m. \<exists>first. node (hex_acc (acc b)) (Inr first) \<and>
      of_account (Derived (of_nat (unat start + b))) (sending_order r) =
        map (\<lambda>j. (first + of_nat j, Derived (of_nat (unat start + b)), None, \<not> tx_unwatched args)) [0..<c])"
proof -
  let ?sb = "tx_scenario_builder args :: ('acc, 'b) scenario_builder"
  let ?gen = "generate_sr25519_keypair (dev_key cr) (parse_uri cr) (from_uri cr)"
  obtain payload_builder where pb: "into_sub_builder ids (tx_source args) = Inr payload_builder"
    "\<forall>ctx. \<exists>tx_call. payload_builder ctx = Inr tx_call"
    using tx_source_total [OF assms(4)] by blast
  note sb = tx_many_settings [OF assms(2,3) refl, where 'a = 'acc and 'b = 'b, unfolded assms(1)]
  have reach: "node_reachable available ?gen rem (tx_ws args) (tx_use_legacy_backend args)"
    using assms(11-15) by (simp add: node_reachable_def)
  have answers: "sink_answers (account_of cr) rem sink i (show_nat (unat start + i div c)) (ns i)"
    if "chain_sink (substrate_chain prof available cr rem) (tx_ws args) (Derived_Range start (final + 1))
      (does_block_monitoring ?sb) (tx_use_legacy_backend args) = Inr sink" "i < m * c" for sink i
    using that sender_answers [OF reach assms(5,6,9,17,21)] by (auto simp: substrate_chain_def res_bind_eq_Inr)
  from substrate.many_fetched [where hex_acc = hex_acc and acc = acc and cr = cr and rem = rem,
    OF assms(2,3) refl pb(2) assms(5-11) reach assms(16) answers assms(18-20,22)] obtain r
    where r: "build_on prof available (substrate_chain prof available cr rem) payload_builder (ucast (tx_send_threshold args))
        (tx_ws args) (Derived_Range start (final + 1)) ?sb = Inr r"
      "length (transactions r) = m * c" "sorted (map fst (sending_order r))"
      "\<forall>b < m. \<exists>first. node (hex_acc (acc b)) (Inr first) \<and>
        of_account (Derived (of_nat (unat start + b))) (sending_order r) =
          map (\<lambda>j. (first + of_nat j, Derived (of_nat (unat start + b)), None, \<not> tx_unwatched args)) [0..<c]" by blast
  have "build prof available ids (substrate_chain prof available cr rem) eth ?sb = Inr (Substrate_Executor r, True)"
    using build_Sub [OF sb(5-8) pb(1) accounts_of_range [OF sb(1,2) assms(9)] r(1), of eth] by (simp only: sb(12))
  then show ?thesis using assms(1) r(2-4) by (intro exI [of _ r]) (simp add: tx_command_def)
qed

text \<open>Two transactions of the account 6, whose nonces are fetched as in \<open>example_issued\<close>.\<close>

definition example_fetch :: tx_args where
  "example_fetch = tx_defaults (From_Many_Accounts 6 6 None 2)"

definition example_answers ::
    "(unit, unit, unit, unit, unit, string, string, dynamic_payload \<times> extrinsic_params, string \<times> u64, unit) remote" where
  "example_answers = example_remote\<lparr>nonce_of := (\<lambda>i _. Inr (8 - of_nat i))\<rparr>"

definition example_sender :: "nat \<Rightarrow> string" where
  "example_sender b = projr (generate_sr25519_keypair (dev_key example_crypto) (parse_uri example_crypto) (from_uri example_crypto)
     (Request_Derived sender_seed (of_nat (unat (6 :: u32) + b))))"

theorem tx_fetched_nonces_witness:
  "\<forall>eth :: (unit, unit, string \<times> u64) chain. \<exists>r.
    tx_command Debug 2 example_byte_ids (substrate_chain Debug 2 example_crypto example_answers) eth example_fetch =
      Inr (Substrate_Executor r, True) \<and> length (transactions r) = 2 \<and>
    of_account (Derived 6) (sending_order r) = [(7, Derived 6, None, True), (8, Derived 6, None, True)]"
proof
  fix eth :: "(unit, unit, string \<times> u64) chain"
  have two: "[0..<2] = [0, Suc 0]" by (simp add: upt_rec [of 0] upt_rec [of "Suc 0"])
  have accounts: "call_accounts (\<lambda>_. ''6a'') example_sender 1 2 = [''6a'', ''6a'']" by (simp add: call_accounts_def two)
  have "\<exists>r. tx_command Debug 2 example_byte_ids (substrate_chain Debug 2 example_crypto example_answers) eth example_fetch =
      Inr (Substrate_Executor r, True) \<and>
    length (transactions r) = 1 * 2 \<and> sorted (map fst (sending_order r)) \<and>
    (\<forall>b < 1. \<exists>first. example_node ((\<lambda>_. ''6a'') (example_sender b)) (Inr first) \<and>
      of_account (Derived (of_nat (unat (6 :: u32) + b))) (sending_order r) =
        map (\<lambda>j. (first + of_nat j, Derived (of_nat (unat (6 :: u32) + b)), None, \<not> tx_unwatched example_fetch)) [0..<2])"
  proof (rule tx_fetched_nonces [where final = 6 and n_txs = 2 and start = 6 and m = 1 and c = 2 and acc = example_sender and hex_acc = "\<lambda>_. ''6a''" and st = example_issued and ns = "\<lambda>i. 8 - of_nat i"])
    show "nonce_steps Debug example_node (call_accounts (\<lambda>_. ''6a'') example_sender 1 2) example_issued"
      unfolding accounts by (rule example_nonce_steps)
    show "all_returned (call_accounts (\<lambda>_. ''6a'') example_sender 1 2) example_issued (\<lambda>i. 8 - of_nat i)"
      unfolding accounts by (simp add: all_returned_def example_issued_def two)
    show "sender_accounts (generate_sr25519_keypair (dev_key example_crypto) (parse_uri example_crypto) (from_uri example_crypto))
        (account_of example_crypto) (6 :: u32) 1 example_sender"
      by (simp add: sender_accounts_def example_sender_def example_crypto_def)
    show "inj_on (\<lambda>b. (\<lambda>_. ''6a'') (example_sender b)) {..<1}" by (simp add: inj_on_def)
    show "\<forall>a r. example_node a (Inr r) \<longrightarrow> unat r + 1 * 2 < 2 ^ 128" by (simp add: example_node_def)
  qed (simp_all add: example_fetch_def tx_defaults_def example_byte_ids_def example_answers_def example_crypto_def
      example_remote_def unwrap_def offline_signing_def example_client_def)
  then show "\<exists>r. tx_command Debug 2 example_byte_ids (substrate_chain Debug 2 example_crypto example_answers) eth example_fetch =
      Inr (Substrate_Executor r, True) \<and> length (transactions r) = 2 \<and>
    of_account (Derived 6) (sending_order r) = [(7, Derived 6, None, True), (8, Derived 6, None, True)]"
    by (auto simp: example_fetch_def tx_defaults_def example_node_def two)
qed

end
