(* ===== verification/Whole_Run.thy ===== *)
theory Whole_Run
  imports Command_Line Runner_Logs Runner_Progress
begin

section \<open>From the scenario to the log file\<close>

text \<open>
  The composition of \<open>build\<close> (\<open>src/scenario.rs\<close>), the event loop of \<open>run\<close> (\<open>src/runner.rs\<close>), and the saving and
  loading of its logs (\<open>src/execution_log.rs\<close>): what a scenario that was built and run to its end leaves in
  its log file.
\<close>

subsection \<open>The names of a runner\<close>

text \<open>
  The settings that only name the log file and the tracing span have no influence on a run, which is why
  the theorems on runs start from \<open>run_new\<close>, a runner without them.
\<close>

definition unnamed :: "'h runner \<Rightarrow> 'h runner" where
  "unnamed r = r\<lparr>log_file_name := None, base_dir_path := None, executor_id := None\<rparr>"

definition unnamed_state :: "'h run_state \<Rightarrow> 'h run_state" where
  "unnamed_state s = s\<lparr>run_runner := unnamed (run_runner s)\<rparr>"

definition names :: "'h runner \<Rightarrow> string option \<times> string option \<times> string option" where
  "names r = (log_file_name r, base_dir_path r, executor_id r)"

lemma unnamed_simps [simp]:
  "transactions (unnamed r) = transactions r" "runner_logs (unnamed r) = runner_logs r"
  "event_counters (unnamed r) = event_counters r" "send_threshold (unnamed r) = send_threshold r"
  "timeout (unnamed r) = timeout r" "last_displayed (unnamed r) = last_displayed r"
  "done_hashes (unnamed r) = done_hashes r" "error_hashes (unnamed r) = error_hashes r"
  "started n (unnamed r) = started n r" "to_consume prof p (unnamed r) = to_consume prof p r"
  "after_start n lc (unnamed r) = unnamed (after_start n lc r)"
  "(unnamed r)\<lparr>last_displayed := d\<rparr> = unnamed (r\<lparr>last_displayed := d\<rparr>)"
  "(unnamed r)\<lparr>runner_logs := l, event_counters := c\<rparr> = unnamed (r\<lparr>runner_logs := l, event_counters := c\<rparr>)"
  "record_result x (unnamed r) = unnamed (record_result x r)"
  by (cases x; simp add: unnamed_def started_def to_consume_def after_start_def)+

lemma unnamed_runner_new [simp]: "unnamed (runner_new threshold txs f b e limit) = runner_new threshold txs None None None limit"
  by (simp add: unnamed_def runner_new_def)

lemma consume_pending_unnamed:
  "consume_pending prof rd (unnamed r) ws =
     res_bind (consume_pending prof rd r ws) (\<lambda>(r', ws', report). Inr (unnamed r', ws', report))"
  by (auto simp: consume_pending_def consume_loop_eq res_bind_assoc Let_def case_prod_beta intro!: res_bind_cong)

lemma consume_then_unnamed:
  assumes "\<And>r. f (unnamed r) = unnamed (f r)"
  shows "consume_then prof rd ws f (unnamed_state s) = unnamed_state (consume_then prof rd ws f s)"
  by (cases "consume_pending prof rd (run_runner s) ws")
    (auto simp: consume_then_def unnamed_state_def consume_pending_unnamed assms)

lemma poll_worker_unnamed:
  "poll_worker show_subxt hm i now reply (unnamed_state s) = map_option unnamed_state (poll_worker show_subxt hm i now reply s)"
  by (auto simp: poll_worker_def unnamed_state_def split: prod.split option.split sum.split)

lemma select_arm_unnamed:
  "select_arm prof show_subxt hm arm (unnamed_state s) = map_option unnamed_state (select_arm prof show_subxt hm arm s)"
proof (cases arm)
  case (Worker_Polled i now reply)
  have eq: "run_exit (unnamed_state s) = run_exit s" by (simp add: unnamed_state_def)
  show ?thesis by (simp add: Worker_Polled eq poll_worker_unnamed)
next
  case (Worker_Returned i rd)
  have eq: "run_exit (unnamed_state s) = run_exit s" "run_workers (unnamed_state s) = run_workers s"
    by (simp_all add: unnamed_state_def)
  show ?thesis by (simp add: Worker_Returned eq consume_then_unnamed split: task_pc.split)
next
  case (Tick rd)
  have eq: "run_exit (unnamed_state s) = run_exit s" "run_workers (unnamed_state s) = run_workers s"
    by (simp_all add: unnamed_state_def)
  show ?thesis by (simp add: Tick eq consume_then_unnamed)
qed (simp_all add: unnamed_state_def)

lemma runs_unnamed:
  "runs prof show_subxt hm s0 arms s \<Longrightarrow> runs prof show_subxt hm (unnamed_state s0) arms (unnamed_state s)"
proof (induction rule: runs.induct)
  case (runs_arm arms s arm s')
  have "select_arm prof show_subxt hm arm (unnamed_state s) = Some (unnamed_state s')"
    unfolding select_arm_unnamed runs_arm(2) by simp
  with runs_arm(3) show ?case by (rule runs.runs_arm)
qed (rule runs.runs_start)

lemma run_start_unnamed: "unnamed_state (run_start clock r) = run_start clock (unnamed r)"
  by (cases "push_many (popped_events clock (started (unat (send_threshold r)) r)) (runner_logs r, event_counters r)")
    (auto simp: run_start_def initial_loop_eq unnamed_state_def Let_def)

lemma runs_of_runner_new:
  assumes "runs prof show_subxt hm (run_start clock (runner_new threshold txs f b e limit)) arms s"
  shows "runs prof show_subxt hm (run_new clock threshold txs limit) arms (unnamed_state s)"
  using runs_unnamed [OF assms] by (simp add: run_start_unnamed run_new_def)

lemma names_after [simp]:
  "names (after_start n lc r) = names r" "names (record_result x r) = names r"
  "names (r\<lparr>last_displayed := d\<rparr>) = names r" "names (r\<lparr>runner_logs := l, event_counters := c\<rparr>) = names r"
  by (cases x; simp add: names_def after_start_def)+

lemma names_consume:
  assumes "consume_pending prof rd r ws = Inr (r', ws', report)"
  shows "names r' = names r"
  using assms by (rule consume_pending_Inr) (metis names_after(1,3))

lemma names_arm:
  assumes "select_arm prof show_subxt hm arm s = Some s'" and "placed txs (run_runner s) (run_workers s)"
  shows "names (run_runner s') = names (run_runner s)"
  using assms
proof (cases rule: select_arm_cases)
  case (consumed rd r0 ws0 r' ws' report)
  then have "names r' = names r0" by (intro names_consume)
  moreover have "names r0 = names (run_runner s)" using consumed(2) by (auto simp: may_consume_def)
  ultimately show ?thesis using consumed by simp
qed simp_all

subsection \<open>What identifies a log\<close>

definition log_ident :: "'h execution_log \<Rightarrow> account_metadata \<times> u128 \<times> 'h" where
  "log_ident l = (log_account_metadata l, log_nonce l, log_hash l)"

lemma push_event_ident [simp]: "log_ident (fst (push_event e (l, c))) = log_ident l"
  by (simp add: log_ident_def push_event_def Let_def split: prod.split)

lemma push_many_ident:
  "push_many ps (logs, c) = Inr (logs', c') \<Longrightarrow> map_option log_ident \<circ> logs' = map_option log_ident \<circ> logs"
proof (induction ps arbitrary: logs c)
  case (Cons p ps)
  obtain h e where p: "p = (h, e)" by fastforce
  with Cons.prems obtain logs1 c1 where step: "push_at h e (logs, c) = Inr (logs1, c1)"
    and rest: "push_many ps (logs1, c1) = Inr (logs', c')"
    by (auto simp: res_bind_eq_Inr)
  obtain l0 where l0: "logs h = Some l0" and "logs1 = logs(h \<mapsto> fst (push_event e (l0, c)))"
    using step by (auto simp: push_at_def split: option.splits prod.splits)
  then have "map_option log_ident \<circ> logs1 = map_option log_ident \<circ> logs" by (auto simp: fun_eq_iff)
  then show ?case using Cons.IH [OF rest] by simp
qed simp

definition idents :: "'h runner \<Rightarrow> 'h \<Rightarrow> (account_metadata \<times> u128 \<times> 'h) option" where
  "idents r = map_option log_ident \<circ> runner_logs r"

lemma idents_consume:
  assumes "consume_pending prof rd r ws = Inr (r', ws', report)"
  shows "idents r' = idents r"
proof -
  obtain n lc where push: "push_many (popped_events (popped_at rd) (started n r)) (runner_logs r, event_counters r) = Inr lc"
    and r': "r' = (after_start n lc r)\<lparr>last_displayed := last_displayed r'\<rparr>"
    using assms by (rule consume_pending_Inr)
  have "runner_logs r' = fst lc" by (subst r') (simp add: after_start_def)
  moreover obtain logs c where lc: "lc = (logs, c)" by (cases lc)
  ultimately show ?thesis using push_many_ident [OF push [unfolded lc]] lc by (simp add: idents_def)
qed

lemma idents_arm:
  assumes "select_arm prof show_subxt hm arm s = Some s'" and "placed txs (run_runner s) (run_workers s)"
  shows "idents (run_runner s') = idents (run_runner s)"
  using assms
proof (cases rule: select_arm_cases)
  case (polled i now reply t pc es pc' logs c)
  then show ?thesis using push_many_ident by (simp add: idents_def)
next
  case (consumed rd r0 ws0 r' ws' report)
  have "runner_logs (record_result x (run_runner s)) = runner_logs (run_runner s)" for x by (cases x) simp_all
  then have "idents r0 = idents (run_runner s)" using consumed(2) by (auto simp: may_consume_def idents_def)
  moreover have "idents r' = idents r0" using consumed(4) by (rule idents_consume)
  ultimately show ?thesis using consumed(5) by simp
qed simp_all

lemma idents_runs:
  assumes "runs prof show_subxt hm (run_new clock threshold txs limit) arms s"
  shows "idents (run_runner s) = idents (runner_new threshold txs None None None limit)"
  using assms
proof (induction rule: runs.induct)
  case runs_start
  show ?case
  proof (rule run_new_eq [of clock threshold txs limit])
    fix lc
    assume push: "push_many (popped_events clock (take (unat threshold) (rev txs)))
        (collect_map (map (\<lambda>t. (task_hash t, log_new_with_tx (task_tx t))) txs), counters_default) = Inr lc"
      and start: "run_new clock threshold txs limit =
        \<lparr>run_runner = after_start (unat threshold) lc (runner_new threshold txs None None None limit),
         run_workers = map (\<lambda>t. (t, Not_Started)) (take (unat threshold) (rev txs)),
         run_timeout = (case limit of Some d \<Rightarrow> d | None \<Rightarrow> seconds (2 ^ 64 - 1)), run_exit = None\<rparr>"
    obtain logs c where lc: "lc = (logs, c)" by (cases lc)
    show ?thesis
      using push_many_ident [OF push [unfolded lc]] by (simp add: idents_def start lc after_start_def runner_new_def)
  qed
next
  case (runs_arm arms s arm s')
  from idents_arm [OF runs_arm(2) placed_runs [OF runs_arm(1)]] runs_arm(3) show ?case by simp
qed

lemma names_runs:
  assumes "runs prof show_subxt hm (run_start clock (runner_new threshold txs f b e limit)) arms s"
  shows "names (run_runner s) = (f, b, e)"
  using assms
proof (induction rule: runs.induct)
  case runs_start
  have "names (runner_new threshold txs f b e limit) = (f, b, e)" by (simp add: names_def runner_new_def)
  then show ?case
    by (cases "push_many (popped_events clock (started (unat threshold) (runner_new threshold txs f b e limit)))
        (runner_logs (runner_new threshold txs f b e limit), event_counters (runner_new threshold txs f b e limit))")
      (simp_all add: run_start_def initial_loop_eq Let_def runner_new_def)
next
  case (runs_arm arms s arm s')
  have "placed txs (run_runner s) (run_workers s)"
    using placed_runs [OF runs_of_runner_new [OF runs_arm(1)]] by (simp add: unnamed_state_def placed_def places_def)
  from names_arm [OF runs_arm(2) this] runs_arm(3) show ?case by simp
qed

subsection \<open>The log file of a finished scenario\<close>

lemma build_runner:
  assumes "build prof available ids sub eth sb = Inr (ex, hook)"
  shows "\<exists>threshold txs. executor_runner ex = runner_new threshold txs (log_file_name_prefix sb)
    (builder_base_dir_path sb) (builder_executor_id sb) (builder_timeout sb)"
  using assms unfolding build_def build_on_def
  by (elim res_bind_InrE) (auto elim!: res_bind_InrE split: chain_type.splits; blast)

text \<open>A run that ends for want of futures has the log of one execution for every transaction.\<close>

lemma finished_logs:
  assumes "runs prof show_subxt hm (run_new clock threshold txs limit) arms s"
    and "run_exit s = Some All_Futures_Done" and "length txs \<le> unat threshold" and "distinct (map task_hash txs)"
    and "t \<in> set txs"
  shows "\<exists>l now a. runner_logs (run_runner s) (task_hash t) = Some l \<and> log_ident l = (tx_account_metadata (task_tx t), task_nonce t, task_hash t) \<and>
    (monitor_answer a \<noteq> None) = hm \<and> log_events l = Popped now # fst (execute show_subxt t a)"
proof -
  have rec: "recorded show_subxt hm txs (run_runner s) (run_workers s)" by (rule recorded_runs [OF assms(1,4)])
  have "transactions (run_runner s) = []" "run_workers s = []"
    using all_started [OF assms(1,3)] assms(2) by simp_all
  then have "mset (done_hashes (run_runner s)) + mset (error_hashes (run_runner s)) = mset (map task_hash txs)"
    using placed_runs [OF assms(1)] by (simp add: placed_def places_def)
  then have "set (done_hashes (run_runner s)) \<union> set (error_hashes (run_runner s)) = task_hash ` set txs"
    by (metis set_map set_mset_mset set_mset_union)
  then have "task_hash t \<in> set (done_hashes (run_runner s)) \<or> task_hash t \<in> set (error_hashes (run_runner s))"
    using assms(5) by blast
  then obtain x where "logged show_subxt hm (runner_logs (run_runner s)) t (Returned x)"
    using rec assms(5) unfolding recorded_def by blast
  then obtain now a where a: "(monitor_answer a \<noteq> None) = hm"
    "events_at (runner_logs (run_runner s)) (task_hash t) = Popped now # fst (execute show_subxt t a)"
    using steps_execute [of show_subxt hm t] unfolding logged_def by (metis fst_conv)
  have "task_hash t \<in> dom (runner_logs (run_runner s))" using rec assms(5) by (simp add: recorded_def)
  then obtain l where l: "runner_logs (run_runner s) (task_hash t) = Some l" by blast
  have "collect_map (map (\<lambda>t. (task_hash t, log_new_with_tx (task_tx t))) txs) (task_hash t) = Some (log_new_with_tx (task_tx t))"
    using assms(4,5) by (subst collect_map_distinct) (auto simp: comp_def intro!: map_of_is_SomeI)
  then have "idents (runner_new threshold txs None None None limit) (task_hash t) = Some (log_ident (log_new_with_tx (task_tx t)))"
    by (simp add: idents_def runner_new_def)
  then have "log_ident l = log_ident (log_new_with_tx (task_tx t))"
    using fun_cong [OF idents_runs [OF assms(1)], of "task_hash t"] l by (auto simp: idents_def)
  then show ?thesis using l a by (auto simp: events_at_def log_ident_def log_new_with_tx_def)
qed

text \<open>
  C7: a scenario that was built and ran to its end leaves a complete record. If it has no more transactions
  than its threshold, with distinct hashes, its log file can be written under the name that its settings determine and read
  back, and holds exactly one log per transaction: with the nonce, account and hash that the transaction
  was built with, and with the events of one complete execution of its task.
\<close>

theorem scenario_log_file:
  assumes "build prof available ids sub eth sb = Inr (ex, hook)"
    and "runs prof show_subxt hm (run_start clock (executor_runner ex)) arms s"
    and "run_exit s = Some All_Futures_Done"
    and "txs = transactions (executor_runner ex)"
    and "length txs \<le> unat (send_threshold (executor_runner ex))" and "distinct (map task_hash txs)"
    and "to_json codec (map_option get_data \<circ> runner_logs (run_runner s)) = Some json"
    and "from_json codec json = Some (map_option get_data \<circ> runner_logs (run_runner s))"
    and "path = log_file_path date (executor_runner ex)" and "writable fs path"
  shows "\<exists>fs' data. save_logs codec (runner_logs (run_runner s)) (log_file_path date (run_runner s)) fs = Inr fs' \<and>
    load_logs codec show_hash order path None fs' = Inr (data, fs') \<and>
    dom data = task_hash ` set txs \<and>
    (\<forall>t \<in> set txs. \<exists>l now a. data (task_hash t) = Some (l, counters_default) \<and>
      log_nonce l = task_nonce t \<and> log_account_metadata l = tx_account_metadata (task_tx t) \<and> log_hash l = task_hash t \<and>
      (monitor_answer a \<noteq> None) = hm \<and> log_events l = Popped now # fst (execute show_subxt t a))"
proof -
  obtain threshold txs' where r: "executor_runner ex = runner_new threshold txs' (log_file_name_prefix sb)
      (builder_base_dir_path sb) (builder_executor_id sb) (builder_timeout sb)"
    using build_runner [OF assms(1)] by blast
  then have txs: "txs' = txs" and threshold: "send_threshold (executor_runner ex) = threshold"
    using assms(4) by (simp_all add: runner_new_def)
  note runs = runs_of_runner_new [OF assms(2) [unfolded r txs]]
  have exit: "run_exit (unnamed_state s) = Some All_Futures_Done" and "length txs \<le> unat threshold"
    using assms(3,5) threshold by (simp_all add: unnamed_state_def)
  note logs = finished_logs [OF runs exit this(2) assms(6), unfolded unnamed_state_def, simplified]
  have dom: "dom (runner_logs (run_runner s)) = task_hash ` set txs"
    using recorded_runs [OF runs assms(6)] by (simp add: recorded_def unnamed_state_def)
  have "names (run_runner s) = names (executor_runner ex)"
    using names_runs [OF assms(2) [unfolded r]] by (simp add: r names_def runner_new_def)
  then have path: "log_file_path date (run_runner s) = path"
    by (simp add: assms(9) log_file_path_def names_def Let_def split: option.split)
  define fs' where "fs' = fs\<lparr>contents := (contents fs)(path \<mapsto> Utf8 json)\<rparr>"
  let ?data = "map_option (\<lambda>l. (l, counters_default)) \<circ> runner_logs (run_runner s)"
  have "save_logs codec (runner_logs (run_runner s)) (log_file_path date (run_runner s)) fs = Inr fs'"
    using assms(7,10) by (simp add: save_logs_def unwrap_def write_file_def path fs'_def)
  moreover have "load_logs codec show_hash order path None fs' = Inr (?data, fs')"
    by (simp add: load_logs_def fs'_def assms(8) Let_def fun_eq_iff option.map_comp comp_def log_from_get_data)
  moreover have "dom ?data = task_hash ` set txs" using dom by auto
  moreover have "\<forall>t \<in> set txs. \<exists>l now a. ?data (task_hash t) = Some (l, counters_default) \<and>
      log_nonce l = task_nonce t \<and> log_account_metadata l = tx_account_metadata (task_tx t) \<and> log_hash l = task_hash t \<and>
      (monitor_answer a \<noteq> None) = hm \<and> log_events l = Popped now # fst (execute show_subxt t a)"
    using logs by (fastforce simp: log_ident_def)
  ultimately show ?thesis by blast
qed

subsection \<open>Example\<close>

text \<open>A scenario of one transaction, on a chain whose builder makes the transaction \<open>example_task\<close>.\<close>

definition example_chain :: "(unit, 'c, nat) chain" where
  "example_chain = \<lparr>chain_sink = (\<lambda>_ _ _ _. Inr ()), chain_build_tx = (\<lambda>_ _ _ _ _ _. Inr (example_task True 1))\<rparr>"

definition example_one :: "(unit, unit) scenario_builder" where
  "example_one = with_send_threshold 1 (with_executor_id ''x'' (with_account_id ''6'' (with_chain_type Sub (with_rpc_uri ''ws'' scenario_builder_new))))"

definition example_ids :: "(unit, unit) id_bytes" where
  "example_ids = \<lparr>sub_as_ref = (\<lambda>_. []), eth_as_ref = (\<lambda>_. []), hex_bytes = (\<lambda>_. [])\<rparr>"

definition example_finish :: "(unit, nat) arm list" where
  "example_finish =
     [Worker_Polled 0 (System_Time 1) Poll,
      Worker_Polled 0 (System_Time 2) (Watch_Reply (Inr ())),
      Worker_Polled 0 (System_Time 3) (Stream_Reply (Some (Finalized 9))),
      Worker_Returned 0 (example_readings 0),
      No_Workers]"

abbreviation example_runner :: "nat runner" where
  "example_runner \<equiv> runner_new 1 [example_task True 1] None None (Some ''x'') None"

lemma example_build: "build Debug 2 example_ids example_chain example_chain example_one = Inr (Substrate_Executor example_runner, False)"
proof -
  note one = example_one_def setter_defs scenario_builder_new_def
  have ps: "build_params Debug example_one = Inr [\<lparr>param_account = ''6'', param_nonce = None, param_mortality = None\<rparr>]"
    by (simp add: build_params_def one numeral_eq_Suc)
  have txs: "build_transactions Debug 2 (chain_build_tx (example_chain :: (unit, unit, nat) chain) () f) example_one t =
      Inr [example_task True 1]" for f t
    using build_transactions_eq [OF ps, of 2 "chain_build_tx (example_chain :: (unit, unit, nat) chain) () f" t "\<lambda>_. example_task True 1"]
    by (simp add: example_chain_def)
  have accounts: "accounts_of Debug example_one = Inr (Derived_Range 6 7)"
    by (simp add: accounts_of_def one u_add_def parse_u32_def parse_uint_def digit_value_def)
  have sink: "chain_sink (example_chain :: (unit, unit, nat) chain) u a m l = Inr ()" for u a m l by (simp add: example_chain_def)
  have settings: "builder_send_threshold example_one = Some 1" "rpc_uri example_one = Some ''ws''"
    "builder_chain_type example_one = Some Sub" "tx_payload_builder_source example_one = Some (Recipe recipe_transfer)"
    "log_file_name_prefix example_one = None" "builder_base_dir_path example_one = None"
    "builder_executor_id example_one = Some ''x''" "builder_timeout example_one = None"
    "installs_ctrl_c_stop_hook example_one = False"
    by (simp_all add: one)
  have "into_sub_builder example_ids (Recipe recipe_transfer) = Inr (sub_transfer_payload_builder (sub_as_ref example_ids))"
    by (simp add: recipe_transfer_def)
  then show ?thesis by (simp add: build_def build_on_def settings accounts sink txs)
qed

theorem scenario_log_file_witness:
  "\<exists>s fs' data. run_arms Debug show_unit False example_finish (run_start (\<lambda>_. System_Time 0) example_runner) = Some s \<and>
    save_logs \<lparr>to_json = (\<lambda>_. Some ''x''), from_json = (\<lambda>_. Some (map_option get_data \<circ> runner_logs (run_runner s)))\<rparr>
      (runner_logs (run_runner s)) ''ttxt_x_now.json'' \<lparr>contents = Map.empty, writable = (\<lambda>_. True)\<rparr> = Inr fs' \<and>
    load_logs \<lparr>to_json = (\<lambda>_. Some ''x''), from_json = (\<lambda>_. Some (map_option get_data \<circ> runner_logs (run_runner s)))\<rparr>
      show_nat [1] ''ttxt_x_now.json'' None fs' = Inr (data, fs') \<and> dom data = {1}"
proof -
  obtain s where s: "run_arms Debug show_unit False example_finish (run_start (\<lambda>_. System_Time 0) example_runner) = Some s"
    and exit: "run_exit s = Some All_Futures_Done"
    by (simp add: example_finish_def run_eval)
  let ?codec = "\<lparr>to_json = (\<lambda>_. Some ''x''), from_json = (\<lambda>_. Some (map_option get_data \<circ> runner_logs (run_runner s)))\<rparr>"
  have runs: "runs Debug show_unit False (run_start (\<lambda>_. System_Time 0) (executor_runner (Substrate_Executor example_runner)))
      example_finish s"
    using run_arms_runs [OF s] by simp
  have path: "log_file_path ''now'' example_runner = ''ttxt_x_now.json''" by (simp add: log_file_path_def runner_new_def)
  have "\<exists>fs' data. save_logs ?codec (runner_logs (run_runner s)) (log_file_path ''now'' (run_runner s)) \<lparr>contents = Map.empty, writable = (\<lambda>_. True)\<rparr> = Inr fs' \<and>
    load_logs ?codec show_nat [1] ''ttxt_x_now.json'' None fs' = Inr (data, fs') \<and>
    dom data = task_hash ` set [example_task True 1] \<and>
    (\<forall>t \<in> set [example_task True 1]. \<exists>l now a. data (task_hash t) = Some (l, counters_default) \<and>
      log_nonce l = task_nonce t \<and> log_account_metadata l = tx_account_metadata (task_tx t) \<and> log_hash l = task_hash t \<and>
      (monitor_answer a \<noteq> None) = False \<and> log_events l = Popped now # fst (execute show_unit t a))"
  proof (rule scenario_log_file [OF example_build runs exit])
    show "[example_task True 1] = transactions (executor_runner (Substrate_Executor example_runner))" by (simp add: runner_new_def)
    show "length [example_task True 1] \<le> unat (send_threshold (executor_runner (Substrate_Executor example_runner)))"
      by (simp add: runner_new_def)
    show "to_json ?codec (map_option get_data \<circ> runner_logs (run_runner s)) = Some ''x''" by (simp only: json_codec.select_convs)
    show "from_json ?codec ''x'' = Some (map_option get_data \<circ> runner_logs (run_runner s))" by (simp only: json_codec.select_convs)
    show "''ttxt_x_now.json'' = log_file_path ''now'' (executor_runner (Substrate_Executor example_runner))"
      by (simp only: executor_runner.simps path)
  qed simp_all
  moreover have "log_file_path ''now'' (run_runner s) = ''ttxt_x_now.json''"
    using names_runs [OF run_arms_runs [OF s]] by (simp add: log_file_path_def names_def)
  ultimately show ?thesis using s by (auto simp: example_task_def)
qed

end
