(* ===== verification/Stop_Hook.thy ===== *)
theory Stop_Hook
  imports Whole_Run
begin

section \<open>The stop channel and the ctrl-c hook\<close>

text \<open>
  The channel that \<open>Runner::new\<close> (\<open>src/runner.rs\<close>) makes, whose sender the executor of a scenario keeps, and
  the ctrl-c handler that \<open>install_ctrlc_stop_hook\<close> (\<open>src/scenario.rs\<close>) puts on it. In \<open>Runner\<close> the stop arm
  of the event loop is always enabled; here it is enabled when \<open>recv\<close> yields.
\<close>

subsection \<open>The channel\<close>

text \<open>
  A bounded channel of \<open>tokio\<close>: \<open>recv\<close> yields a queued message, or the end of the channel when no sender
  is left; \<open>send\<close> waits for a free slot, and fails when the receiver has been dropped.
\<close>

record stop_channel =
  queued :: nat
  capacity :: nat
  senders :: nat
  receiver_alive :: bool

definition stop_channel_new :: stop_channel where
  "stop_channel_new = \<lparr>queued = 0, capacity = 1, senders = 1, receiver_alive = True\<rparr>"

definition drop_sender :: "stop_channel \<Rightarrow> stop_channel" where
  "drop_sender c = c\<lparr>senders := senders c - 1\<rparr>"

definition recv_ready :: "stop_channel \<Rightarrow> bool" where
  "recv_ready c = (queued c \<noteq> 0 \<or> senders c = 0)"

definition recv :: "stop_channel \<Rightarrow> stop_channel" where
  "recv c = c\<lparr>queued := queued c - 1\<rparr>"

subsection \<open>The handler\<close>

text \<open>
  A process has one ctrl-c handler, which owns a clone of the sender. \<open>Sending\<close> is a handler that waits in
  \<open>block_on\<close> for a slot; \<open>Handler_Panicked\<close> is one whose \<open>expect\<close> failed.
\<close>

datatype handler = No_Handler | Idle | Sending | Handler_Panicked

definition install_ctrlc_stop_hook :: "handler \<times> stop_channel \<Rightarrow> (handler \<times> stop_channel) res" where
  "install_ctrlc_stop_hook hc =
     (case hc of (h, c) \<Rightarrow>
        if h = No_Handler then Inr (Idle, c\<lparr>senders := Suc (senders c)\<rparr>)
        else Inl (Expect_Failed ''Error setting Ctrl-C handler''))"

text \<open>\<open>stop_sender.send(())\<close> in the handler, from its call and from each time it is woken.\<close>

definition handler_send :: "stop_channel \<Rightarrow> handler \<times> stop_channel" where
  "handler_send c =
     (if \<not> receiver_alive c then (Handler_Panicked, c)
      else if queued c < capacity c then (Idle, c\<lparr>queued := Suc (queued c)\<rparr>)
      else (Sending, c))"

subsection \<open>An executor with its handler\<close>

record 'h executor_state =
  exec_run :: "'h run_state"
  exec_channel :: stop_channel
  exec_handler :: handler

datatype ('e, 'h) exec_event = Select "('e, 'h) arm" | Ctrl_C | Handler_Woken | Run_Returned

text \<open>
  \<open>build\<close> ends with the installation of the hook, if that was asked for, on the executor with its runner and
  its sender; \<open>execute\<close> starts \<open>run\<close>.
\<close>

definition executor_start :: "('h \<Rightarrow> system_time) \<Rightarrow> bool \<Rightarrow> 'h runner \<Rightarrow> 'h executor_state res" where
  "executor_start clock installs r =
     res_bind (if installs then install_ctrlc_stop_hook (No_Handler, stop_channel_new) else Inr (No_Handler, stop_channel_new))
       (\<lambda>(h, c). Inr \<lparr>exec_run = run_start clock r, exec_channel = c, exec_handler = h\<rparr>)"

text \<open>
  The executor lives until \<open>run\<close> has returned, so its sender and the receiver are dropped together, then. The
  default action of the signal, without a handler, ends the process and is not a step.
\<close>

definition executor_step ::
    "profile \<Rightarrow> ('e \<Rightarrow> string) \<Rightarrow> bool \<Rightarrow> ('e, 'h) exec_event \<Rightarrow> 'h executor_state \<Rightarrow> 'h executor_state option" where
  "executor_step prof show_subxt hm ev x =
     (case ev of
        Select arm \<Rightarrow>
          (if \<not> receiver_alive (exec_channel x) \<or> (arm = Stop \<and> \<not> recv_ready (exec_channel x)) then None
           else map_option (\<lambda>s. x\<lparr>exec_run := s,
                  exec_channel := (if arm = Stop then recv (exec_channel x) else exec_channel x)\<rparr>)
                (select_arm prof show_subxt hm arm (exec_run x)))
      | Ctrl_C \<Rightarrow>
          (if exec_handler x = Idle
           then (case handler_send (exec_channel x) of (h, c) \<Rightarrow> Some (x\<lparr>exec_handler := h, exec_channel := c\<rparr>))
           else None)
      | Handler_Woken \<Rightarrow>
          (if exec_handler x = Sending
           then (case handler_send (exec_channel x) of (h, c) \<Rightarrow> Some (x\<lparr>exec_handler := h, exec_channel := c\<rparr>))
           else None)
      | Run_Returned \<Rightarrow>
          (if run_exit (exec_run x) \<noteq> None \<and> receiver_alive (exec_channel x)
           then Some (x\<lparr>exec_channel := (drop_sender (exec_channel x))\<lparr>receiver_alive := False\<rparr>\<rparr>)
           else None))"

inductive executor_runs ::
    "profile \<Rightarrow> ('e \<Rightarrow> string) \<Rightarrow> bool \<Rightarrow> 'h executor_state \<Rightarrow> ('e, 'h) exec_event list \<Rightarrow> 'h executor_state \<Rightarrow> bool"
  for prof show_subxt hm x0 where
  executor_runs_start: "executor_runs prof show_subxt hm x0 [] x0"
| executor_runs_step: "executor_runs prof show_subxt hm x0 evs x \<Longrightarrow> executor_step prof show_subxt hm ev x = Some x' \<Longrightarrow>
     executor_runs prof show_subxt hm x0 (evs @ [ev]) x'"

subsection \<open>A run is stopped by ctrl-c only\<close>

definition selected :: "('e, 'h) exec_event list \<Rightarrow> ('e, 'h) arm list" where
  "selected evs = concat (map (\<lambda>ev. case ev of Select arm \<Rightarrow> [arm] | _ \<Rightarrow> []) evs)"

lemma selected_simps [simp]:
  "selected [] = []" "selected (evs @ [ev]) = selected evs @ (case ev of Select arm \<Rightarrow> [arm] | _ \<Rightarrow> [])"
  by (simp_all add: selected_def)

lemma poll_worker_exit:
  "poll_worker show_subxt hm i now reply s = Some s' \<Longrightarrow> run_exit s = None \<Longrightarrow> run_exit s' \<noteq> Some Stop_Requested"
  by (auto simp: poll_worker_def split: if_splits prod.splits option.splits sum.splits)

lemma consume_then_exit: "run_exit s = None \<Longrightarrow> run_exit (consume_then prof rd ws f s) \<noteq> Some Stop_Requested"
  by (auto simp: consume_then_def split: sum.splits)

lemma stop_arm_only:
  assumes "select_arm prof show_subxt hm arm s = Some s'" and "run_exit s' = Some Stop_Requested"
  shows "arm = Stop"
  using assms
  by (cases arm) (auto split: if_splits task_pc.splits dest: poll_worker_exit simp: consume_then_exit)

text \<open>
  The invariant: the sender of the executor is there while the run is, the message of a ctrl-c is queued
  until the run takes it, and a handler fails only after the run.
\<close>

definition hooked :: "bool \<Rightarrow> ('e, 'h) exec_event list \<Rightarrow> 'h executor_state \<Rightarrow> bool" where
  "hooked installs evs x \<longleftrightarrow>
     (receiver_alive (exec_channel x) \<longrightarrow> senders (exec_channel x) = (if installs then 2 else 1) \<and> exec_handler x \<noteq> Handler_Panicked) \<and>
     capacity (exec_channel x) = 1 \<and>
     (\<not> receiver_alive (exec_channel x) \<longrightarrow> run_exit (exec_run x) \<noteq> None) \<and>
     (exec_handler x = No_Handler) = (\<not> installs) \<and>
     (Ctrl_C \<in> set evs \<longrightarrow> installs) \<and>
     (run_exit (exec_run x) = None \<longrightarrow> queued (exec_channel x) = (if Ctrl_C \<in> set evs then 1 else 0)) \<and>
     (run_exit (exec_run x) = Some Stop_Requested \<longrightarrow> Ctrl_C \<in> set evs) \<and>
     (exec_handler x = Sending \<longrightarrow> Ctrl_C \<in> set evs)"

lemma hooked_start:
  assumes "executor_start clock installs r = Inr x"
  shows "hooked installs [] x \<and> exec_run x = run_start clock r"
  using assms
  by (auto simp: executor_start_def install_ctrlc_stop_hook_def stop_channel_new_def hooked_def run_start_def Let_def
      split: if_splits sum.splits prod.splits)

lemma hooked_step:
  assumes "hooked installs evs x" and "executor_step prof show_subxt hm ev x = Some x'"
  shows "hooked installs (evs @ [ev]) x'"
proof (cases ev)
  case (Select arm)
  obtain s' where arm: "select_arm prof show_subxt hm arm (exec_run x) = Some s'"
      and stop: "arm = Stop \<longrightarrow> recv_ready (exec_channel x)" and alive: "receiver_alive (exec_channel x)"
      and x': "x' = x\<lparr>exec_run := s', exec_channel := (if arm = Stop then recv (exec_channel x) else exec_channel x)\<rparr>"
    using assms(2) by (auto simp: Select executor_step_def split: if_splits)
  note open_run = select_arm_open [OF arm]
  show ?thesis
  proof (cases "arm = Stop")
    case True
    then have "run_exit s' = Some Stop_Requested" using arm by (auto split: if_splits)
    moreover have "Ctrl_C \<in> set evs"
      using assms(1) stop True open_run alive by (auto simp: hooked_def recv_ready_def split: if_splits)
    ultimately show ?thesis using assms(1) True alive by (auto simp: hooked_def x' recv_def Select)
  next
    case False
    then have "run_exit s' \<noteq> Some Stop_Requested" using stop_arm_only [OF arm] by blast
    then show ?thesis using assms(1) False open_run alive by (auto simp: hooked_def x' Select)
  qed
next
  case Ctrl_C
  show ?thesis using assms by (auto simp: Ctrl_C executor_step_def hooked_def handler_send_def split: if_splits)
next
  case Handler_Woken
  show ?thesis using assms by (auto simp: Handler_Woken executor_step_def hooked_def handler_send_def split: if_splits)
next
  case Run_Returned
  show ?thesis using assms by (auto simp: Run_Returned executor_step_def hooked_def drop_sender_def split: if_splits)
qed

lemma hooked_runs:
  assumes "executor_runs prof show_subxt hm x evs x'" and "executor_start clock installs r = Inr x"
  shows "hooked installs evs x' \<and> runs prof show_subxt hm (run_start clock r) (selected evs) (exec_run x')"
  using assms
proof (induction rule: executor_runs.induct)
  case executor_runs_start
  then show ?case by (metis hooked_start selected_simps(1) runs.runs_start)
next
  case (executor_runs_step evs x ev x')
  have "runs prof show_subxt hm (run_start clock r) (selected (evs @ [ev])) (exec_run x')"
  proof (cases ev)
    case (Select arm)
    then have "select_arm prof show_subxt hm arm (exec_run x) = Some (exec_run x')"
      using executor_runs_step(2) by (auto simp: executor_step_def split: if_splits)
    with executor_runs_step(3,4) show ?thesis by (auto simp: Select intro: runs.runs_arm)
  qed (use executor_runs_step in \<open>auto simp: executor_step_def split: if_splits prod.splits\<close>)
  then show ?case using executor_runs_step hooked_step by blast
qed

text \<open>
  C20: ctrl-c, and nothing else, stops a scenario. Every run of an executor with its stop channel is a run of
  the event loop. It ends with a stop request only if the hook was installed and ctrl-c was pressed. Once
  ctrl-c was pressed, a run that goes on can be stopped at once, with the logs as they are. The handler
  fails only when the run has returned before.
\<close>

theorem ctrl_c_stops:
  assumes "executor_start clock installs r = Inr x" and "executor_runs prof show_subxt hm x evs x'"
  shows "runs prof show_subxt hm (run_start clock r) (selected evs) (exec_run x') \<and>
    (run_exit (exec_run x') = Some Stop_Requested \<longrightarrow> installs \<and> Ctrl_C \<in> set evs) \<and>
    (run_exit (exec_run x') = None \<and> Ctrl_C \<in> set evs \<longrightarrow>
      (\<exists>x''. executor_step prof show_subxt hm (Select Stop) x' = Some x'' \<and>
        exec_run x'' = (exec_run x')\<lparr>run_exit := Some Stop_Requested\<rparr>)) \<and>
    (exec_handler x' = Handler_Panicked \<longrightarrow> run_exit (exec_run x') \<noteq> None \<and> \<not> receiver_alive (exec_channel x'))"
proof -
  have inv: "hooked installs evs x'" and runs: "runs prof show_subxt hm (run_start clock r) (selected evs) (exec_run x')"
    using hooked_runs [OF assms(2,1)] by simp_all
  have "\<exists>x''. executor_step prof show_subxt hm (Select Stop) x' = Some x'' \<and>
      exec_run x'' = (exec_run x')\<lparr>run_exit := Some Stop_Requested\<rparr>"
    if "run_exit (exec_run x') = None" "Ctrl_C \<in> set evs"
    using inv that by (auto simp: hooked_def executor_step_def recv_ready_def)
  with inv runs show ?thesis by (auto simp: hooked_def)
qed

subsection \<open>Examples\<close>

fun run_events ::
    "profile \<Rightarrow> ('e \<Rightarrow> string) \<Rightarrow> bool \<Rightarrow> ('e, 'h) exec_event list \<Rightarrow> 'h executor_state \<Rightarrow> 'h executor_state option" where
  "run_events prof show_subxt hm [] x = Some x"
| "run_events prof show_subxt hm (ev # evs) x =
     (case executor_step prof show_subxt hm ev x of None \<Rightarrow> None | Some x' \<Rightarrow> run_events prof show_subxt hm evs x')"

lemma run_events_from:
  "executor_runs prof show_subxt hm x0 evs x \<Longrightarrow> run_events prof show_subxt hm evs' x = Some x' \<Longrightarrow>
     executor_runs prof show_subxt hm x0 (evs @ evs') x'"
proof (induction evs' arbitrary: evs x)
  case (Cons ev evs')
  then obtain y where "executor_step prof show_subxt hm ev x = Some y" "run_events prof show_subxt hm evs' y = Some x'"
    by (auto split: option.splits)
  then show ?case using Cons.IH [of "evs @ [ev]" y] Cons.prems(1) by (simp add: executor_runs_step)
qed simp

text \<open>A second ctrl-c, pressed while the first one is queued, waits, and fails when the run has returned.\<close>

definition example_ctrl_c :: "(unit, nat) exec_event list" where
  "example_ctrl_c = [Select (Worker_Polled 0 (System_Time 1) Poll), Ctrl_C, Ctrl_C, Select Stop, Run_Returned, Handler_Woken]"

theorem ctrl_c_stops_witness:
  "\<exists>x x'. executor_start (\<lambda>_. System_Time 0) True example_runner = Inr x \<and>
    run_events Debug show_unit False example_ctrl_c x = Some x' \<and>
    runs Debug show_unit False (run_start (\<lambda>_. System_Time 0) example_runner) [Worker_Polled 0 (System_Time 1) Poll, Stop] (exec_run x') \<and>
    run_exit (exec_run x') = Some Stop_Requested \<and> exec_handler x' = Handler_Panicked"
proof -
  obtain x where x: "executor_start (\<lambda>_. System_Time 0) True example_runner = Inr x"
    by (simp add: executor_start_def install_ctrlc_stop_hook_def)
  obtain x' where x': "run_events Debug show_unit False example_ctrl_c x = Some x'"
      "run_exit (exec_run x') = Some Stop_Requested" "exec_handler x' = Handler_Panicked"
    using x by (auto simp: executor_start_def install_ctrlc_stop_hook_def example_ctrl_c_def executor_step_def
        stop_channel_new_def handler_send_def recv_ready_def recv_def drop_sender_def run_eval)
  have "executor_runs Debug show_unit False x example_ctrl_c x'"
    using run_events_from [OF executor_runs_start x'(1)] by simp
  from ctrl_c_stops [OF x this] x x' show ?thesis by (auto simp: example_ctrl_c_def selected_def)
qed

text \<open>
  A runner whose stop sender was dropped, as in \<open>let (_, mut r) = Runner::new(..)\<close> of the test \<open>resubmit\<close>,
  takes that for a stop request: the end of the channel enables the stop arm.
\<close>

lemma dropped_sender_stops:
  assumes "run_exit (run_start clock r) = None"
  shows "\<exists>x'. executor_step prof show_subxt hm (Select Stop)
      \<lparr>exec_run = run_start clock r, exec_channel = drop_sender stop_channel_new, exec_handler = No_Handler\<rparr> = Some x' \<and>
    run_exit (exec_run x') = Some Stop_Requested"
  using assms by (auto simp: executor_step_def drop_sender_def stop_channel_new_def recv_ready_def)

text \<open>The handler of a process is installed once: building a second executor with the hook panics.\<close>

lemma second_hook_panics:
  assumes "install_ctrlc_stop_hook hc = Inr (h, c)"
  shows "install_ctrlc_stop_hook (h, c') = Inl (Expect_Failed ''Error setting Ctrl-C handler'')"
  using assms by (auto simp: install_ctrlc_stop_hook_def split: prod.splits if_splits)

end
