(* ===== verification/Logger.thy ===== *)
theory Logger
  imports Execution_Log
begin

section \<open>The logger\<close>

text \<open>
  \<open>init_logger\<close> of \<open>src/lib.rs\<close>: two layers of output with their filters, installed once as the global
  subscriber of the process. The \<open>EnvFilter\<close> of \<open>tracing_subscriber\<close> is a parameter \<open>env_filter\<close>, given the
  value of \<open>RUST_LOG\<close>. It has a state, because a directive on a span enables events only inside of the span:
  the filter of a layer is notified of call sites and of spans that are made, entered, left and closed.
\<close>

subsection \<open>Filters and layers\<close>

datatype log_level = Error_Level | Warn_Level | Info_Level | Debug_Level | Trace_Level

record log_metadata =
  meta_target :: string
  meta_level :: log_level

type_synonym 'x log_filter = "log_metadata \<Rightarrow> 'x \<Rightarrow> bool"

text \<open>An environment filter: its first state, what it enables in a state, and how a notice changes the state.\<close>

record ('x, 'n, 's) env_filter =
  env_start :: 's
  env_enabled :: "'s \<Rightarrow> 'x log_filter"
  env_notify :: "'n \<Rightarrow> 's \<Rightarrow> 's"

text \<open>
  The filter \<open>F\<close>: what an environment filter of its own rejects, of the target for statistics. The filter of
  a layer hears of spans by further methods of the trait \<open>Filter\<close>, which do nothing unless they are defined.
  \<open>F\<close> defines \<open>enabled\<close> alone, so its environment filter is never notified.
\<close>

definition stat_target :: string where
  "stat_target = ''stat''"

definition stat_enabled :: "('x, 'n, 's) env_filter \<Rightarrow> 's \<Rightarrow> 'x log_filter" where
  "stat_enabled env st meta cx = (\<not> env_enabled env st meta cx \<and> meta_target meta = stat_target)"

definition unnotified :: "'n \<Rightarrow> 's \<Rightarrow> 's" where
  "unnotified n st = st"

text \<open>The switches of a layer of \<open>fmt\<close>, all on without calls of its setters, and its filter.\<close>

record ('x, 'n, 's) log_layer =
  with_target :: bool
  with_level :: bool
  with_time :: bool
  layer_enabled :: "'s \<Rightarrow> 'x log_filter"
  layer_notify :: "'n \<Rightarrow> 's \<Rightarrow> 's"
  layer_state :: 's

definition debug_layer :: "('x, 'n, 's) env_filter \<Rightarrow> ('x, 'n, 's) log_layer" where
  "debug_layer env = \<lparr>with_target = True, with_level = True, with_time = True,
     layer_enabled = env_enabled env, layer_notify = env_notify env, layer_state = env_start env\<rparr>"

definition stat_layer :: "('x, 'n, 's) env_filter \<Rightarrow> ('x, 'n, 's) log_layer" where
  "stat_layer env = \<lparr>with_target = False, with_level = False, with_time = False,
     layer_enabled = stat_enabled env, layer_notify = unnotified, layer_state = env_start env\<rparr>"








subsection \<open>Initialisation\<close>

text \<open>
  A \<open>Once\<close> runs its closure at most once, and is poisoned by a panic of the closure: later calls panic
  without running it. A panic leaves a state here, so the state stands beside the result.
\<close>

datatype once = Incomplete | Complete | Poisoned

record ('x, 'n, 's) log_process =
  init_once :: once
  global_subscriber :: "('x, 'n, 's) log_layer list option"
  rust_log :: "string option"

definition set_global_default :: "('x, 'n, 's) log_layer list \<Rightarrow> ('x, 'n, 's) log_process \<Rightarrow> ('x, 'n, 's) log_process \<times> unit res" where
  "set_global_default layers s =
     (case global_subscriber s of
        None \<Rightarrow> (s\<lparr>global_subscriber := Some layers\<rparr>, Inr ())
      | Some _ \<Rightarrow> (s, Inl (Expect_Failed ''Unable to set a global subscriber'')))"

definition init_closure :: "(string option \<Rightarrow> ('x, 'n, 's) env_filter) \<Rightarrow> ('x, 'n, 's) log_process \<Rightarrow> ('x, 'n, 's) log_process \<times> unit res" where
  "init_closure env_filter s =
     set_global_default [debug_layer (env_filter (rust_log s)), stat_layer (env_filter (rust_log s))] s"

definition init_logger :: "(string option \<Rightarrow> ('x, 'n, 's) env_filter) \<Rightarrow> ('x, 'n, 's) log_process \<Rightarrow> ('x, 'n, 's) log_process \<times> unit res" where
  "init_logger env_filter s =
     (case init_once s of
        Complete \<Rightarrow> (s, Inr ())
      | Poisoned \<Rightarrow> (s, Inl (Expect_Failed ''Once instance has previously been poisoned''))
      | Incomplete \<Rightarrow>
          (case init_closure env_filter s of
             (s', Inr _) \<Rightarrow> (s'\<lparr>init_once := Complete\<rparr>, Inr ())
           | (s', Inl p) \<Rightarrow> (s'\<lparr>init_once := Poisoned\<rparr>, Inl p)))"

text \<open>A process in which the environment may be changed between the calls; the list has the value of \<open>RUST_LOG\<close> at each.\<close>

fun init_calls :: "(string option \<Rightarrow> ('x, 'n, 's) env_filter) \<Rightarrow> string option list \<Rightarrow> ('x, 'n, 's) log_process \<Rightarrow> ('x, 'n, 's) log_process \<times> unit res list" where
  "init_calls env_filter [] s = (s, [])"
| "init_calls env_filter (v # vs) s =
     (case init_logger env_filter (s\<lparr>rust_log := v\<rparr>) of
        (s', r) \<Rightarrow> (case init_calls env_filter vs s' of (s'', rs) \<Rightarrow> (s'', r # rs)))"

definition fresh_process :: "('x, 'n, 's) log_layer list option \<Rightarrow> ('x, 'n, 's) log_process" where
  "fresh_process subscriber = \<lparr>init_once = Incomplete, global_subscriber = subscriber, rust_log = None\<rparr>"

lemma init_calls_settled:
  assumes "init_once s \<noteq> Incomplete"
  shows "init_once (fst (init_calls env_filter vs s)) = init_once s \<and>
    global_subscriber (fst (init_calls env_filter vs s)) = global_subscriber s \<and>
    list_all (\<lambda>r. (r = Inr ()) = (init_once s = Complete)) (snd (init_calls env_filter vs s))"
  using assms
proof (induction vs arbitrary: s)
  case (Cons v vs)
  obtain r where r: "init_logger env_filter (s\<lparr>rust_log := v\<rparr>) = (s\<lparr>rust_log := v\<rparr>, r)"
      "(r = Inr ()) = (init_once s = Complete)"
    using Cons.prems by (cases "init_once s") (simp_all add: init_logger_def)
  have "init_once (s\<lparr>rust_log := v\<rparr>) \<noteq> Incomplete" using Cons.prems by simp
  from Cons.IH [OF this] show ?case using r by (simp split: prod.split_asm add: case_prod_beta)
qed simp





text \<open>
  In a process that already has a subscriber of its own, the first call panics and poisons the \<open>Once\<close>, so
  every later call panics too; the subscriber stays.
\<close>

lemma foreign_subscriber_panics:
  assumes "init_calls env_filter (v # vs) (fresh_process (Some layers)) = (s, rs)"
  shows "global_subscriber s = Some layers \<and> list_all (\<lambda>r. r \<noteq> Inr ()) rs"
proof -
  let ?p = "(fresh_process (Some layers))\<lparr>rust_log := v\<rparr>"
  have first: "init_logger env_filter ?p = (?p\<lparr>init_once := Poisoned\<rparr>, Inl (Expect_Failed ''Unable to set a global subscriber''))"
    by (simp add: init_logger_def init_closure_def set_global_default_def fresh_process_def)
  have "init_once (?p\<lparr>init_once := Poisoned\<rparr>) \<noteq> Incomplete" by simp
  from init_calls_settled [OF this, of env_filter vs] first assms show ?thesis
    by (auto simp: fresh_process_def split: prod.split_asm)
qed

end
