(* ===== verification/Fake_Builder.thy ===== *)
theory Fake_Builder
  imports Nonces Scenario_Order Fake_Sink
begin

section \<open>The fake transaction builder\<close>

text \<open>
  \<open>FakeTransactionBuilder\<close> of \<open>src/transaction.rs\<close>, the builder that the test of \<open>build_transactions\<close> uses.
  Its nonces come from the map of the fake sink, which the threads share; a call runs under the write
  lock, so that the calls of all threads happen in some order, the schedule. \<open>hex\<close> is \<open>hex::encode\<close> on the
  bytes of a string.
\<close>

definition fake_build_transaction ::
    "profile \<Rightarrow> (string \<Rightarrow> string) \<Rightarrow> bool \<Rightarrow> tx_build_params \<Rightarrow> fake_sink \<Rightarrow> (fake_hash tx_task \<times> fake_sink) res" where
  "fake_build_transaction prof hex watched params sink =
     (if watched then Inl Todo
      else res_bind (assign_nonce prof (hex (param_account params)) 0 (fs_nonces sink)) (\<lambda>(nonce, nonces).
        let sink' = sink\<lparr>fs_nonces := nonces\<rparr>
        in case parse_u32 (param_account params) of
             Some i \<Rightarrow> Inr (new_watched (fake_as_transaction (ft_new_multiple i nonce [])), sink')
           | None \<Rightarrow> res_bind (ft_new_with_keyring ''alice'' nonce [])
               (\<lambda>tx. Inr (new_watched (fake_as_transaction tx), sink'))))"

text \<open>The calls of \<open>build_transactions\<close> in the order of a schedule, with the index of each.\<close>

fun fake_build_all ::
    "profile \<Rightarrow> (string \<Rightarrow> string) \<Rightarrow> bool \<Rightarrow> tx_build_params list \<Rightarrow> nat list \<Rightarrow> fake_sink \<Rightarrow>
       ((nat \<times> fake_hash tx_task) list \<times> fake_sink) res" where
  "fake_build_all prof hex watched ps [] sink = Inr ([], sink)"
| "fake_build_all prof hex watched ps (i # schedule) sink =
     res_bind (fake_build_transaction prof hex watched (ps ! i) sink) (\<lambda>(t, sink').
     res_bind (fake_build_all prof hex watched ps schedule sink') (\<lambda>(ts, sink'').
     Inr ((i, t) # ts, sink'')))"

definition fake_task :: "u32 \<Rightarrow> u128 \<Rightarrow> fake_hash tx_task" where
  "fake_task account nonce = new_watched (fake_as_transaction (ft_new_multiple account nonce []))"

text \<open>What a call makes of an account and its nonce: a name that is no number becomes the keyring account alice.\<close>

definition fake_made :: "string \<Rightarrow> u128 \<Rightarrow> fake_hash tx_task" where
  "fake_made account nonce =
     (case parse_u32 account of
        Some i \<Rightarrow> fake_task i nonce
      | None \<Rightarrow> new_watched \<lparr>tx_hash = Fake_Hash 0x61 0x6c 0x69 0x63, tx_nonce = nonce, tx_valid_until = None,
          tx_account_metadata = KeyRing ''alice''\<rparr>)"

lemma fake_build_transaction_made:
  "fake_build_transaction prof hex False params sink =
     res_bind (assign_nonce prof (hex (param_account params)) 0 (fs_nonces sink)) (\<lambda>(nonce, nonces).
       Inr (fake_made (param_account params) nonce, sink\<lparr>fs_nonces := nonces\<rparr>))"
  by (auto simp: fake_build_transaction_def fake_made_def fake_task_def ft_new_with_keyring_def byte_at_def
      fake_as_transaction_def Let_def intro!: res_bind_cong split: option.splits)

lemma fake_made_nonce [simp]: "task_nonce (fake_made account nonce) = nonce"
  by (simp add: fake_made_def fake_task_def fake_as_transaction_def ft_new_multiple_def new_watched_def split: option.split)

subsection \<open>The ranks of a schedule\<close>

text \<open>How many calls for the same account a call comes after, \<open>seen\<close> being the calls made before.\<close>

fun ranks :: "(nat \<Rightarrow> 'k) \<Rightarrow> nat list \<Rightarrow> ('k \<Rightarrow> nat) \<Rightarrow> (nat \<times> nat) list" where
  "ranks acc [] seen = []"
| "ranks acc (i # schedule) seen = (i, seen (acc i)) # ranks acc schedule (seen(acc i := Suc (seen (acc i))))"

lemma fst_ranks: "map fst (ranks acc schedule seen) = schedule"
  by (induction schedule arbitrary: seen) auto

lemma ranks_of_account:
  "map snd (filter (\<lambda>x. acc (fst x) = k) (ranks acc schedule seen)) =
     [seen k..<seen k + length (filter (\<lambda>i. acc i = k) schedule)]"
proof (induction schedule arbitrary: seen)
  case (Cons i schedule)
  show ?case
  proof (cases "acc i = k")
    case True
    have "map snd (filter (\<lambda>x. acc (fst x) = k) (ranks acc (i # schedule) seen)) =
        seen k # [Suc (seen k)..<Suc (seen k) + length (filter (\<lambda>i. acc i = k) schedule)]"
      using True Cons [of "seen(k := Suc (seen k))", unfolded fun_upd_same] by (simp del: upt_Suc fun_upd_apply)
    also have "\<dots> = [seen k..<seen k + length (filter (\<lambda>i. acc i = k) (i # schedule))]"
      using True by (simp add: upt_conv_Cons del: upt_Suc)
    finally show ?thesis .
  qed (use Cons in simp)
qed simp

lemma bij_assoc:
  assumes "distinct (map fst xs)" and "distinct (map snd xs)"
  shows "bij_betw (\<lambda>x. the (map_of xs x)) (fst ` set xs) (snd ` set xs)"
proof (rule bij_betwI')
  have val: "the (map_of xs x) = y" if "(x, y) \<in> set xs" for x y using assms(1) that by simp
  show "the (map_of xs x) = the (map_of xs y) \<longleftrightarrow> x = y" if xy: "x \<in> fst ` set xs" "y \<in> fst ` set xs" for x y
  proof -
    obtain v w where vw: "(x, v) \<in> set xs" "(y, w) \<in> set xs" using xy by force
    have "v = w \<Longrightarrow> x = y"
      using assms(2) vw by (metis distinct_map inj_onD prod.inject snd_conv)
    then show ?thesis using val vw by auto
  qed
  show "the (map_of xs x) \<in> snd ` set xs" if "x \<in> fst ` set xs" for x
    using that val by force
  show "\<exists>x \<in> fst ` set xs. y = the (map_of xs x)" if "y \<in> snd ` set xs" for y
    using that val by force
qed

lemma map_of_filter_fst:
  "P x \<Longrightarrow> map_of (filter (\<lambda>z. P (fst z)) xs) x = map_of xs x"
  by (induction xs) auto

lemma ranks_bij:
  assumes "distinct schedule"
  shows "bij_betw (\<lambda>i. the (map_of (ranks acc schedule (\<lambda>_. 0)) i)) {i \<in> set schedule. acc i = k}
    {0..<card {i \<in> set schedule. acc i = k}}"
proof -
  let ?r = "ranks acc schedule (\<lambda>_. 0)" and ?f = "filter (\<lambda>x. acc (fst x) = k) (ranks acc schedule (\<lambda>_. 0))"
  have n: "length (filter (\<lambda>i. acc i = k) schedule) = card {i \<in> set schedule. acc i = k}"
    using distinct_card [of "filter (\<lambda>i. acc i = k) schedule"] assms by simp
  have snd: "map snd ?f = [0..<card {i \<in> set schedule. acc i = k}]"
    using ranks_of_account [of acc k schedule "\<lambda>_. 0"] n by simp
  have fst: "fst ` set ?f = {i \<in> set schedule. acc i = k}"
    using arg_cong [OF fst_ranks [of acc schedule "\<lambda>_. 0"], of set] by auto
  have "distinct (map fst ?f)"
    using assms fst_ranks [of acc schedule "\<lambda>_. 0"] by (metis distinct_map_filter)
  moreover have "distinct (map snd ?f)" by (simp add: snd)
  ultimately have "bij_betw (\<lambda>i. the (map_of ?f i)) (fst ` set ?f) (snd ` set ?f)" by (rule bij_assoc)
  moreover have "snd ` set ?f = {0..<card {i \<in> set schedule. acc i = k}}"
    using arg_cong [OF snd, of set] by simp
  moreover have "the (map_of ?f i) = the (map_of ?r i)" if "i \<in> {i \<in> set schedule. acc i = k}" for i
    using that map_of_filter_fst [of "\<lambda>i. acc i = k" i ?r] by simp
  ultimately show ?thesis unfolding fst using bij_betw_cong by (metis (no_types, lifting))
qed

subsection \<open>What the builder returns under a schedule\<close>

text \<open>The map of nonces after \<open>seen k\<close> calls for every account \<open>k\<close>.\<close>

definition nonces_seen :: "(string \<Rightarrow> string) \<Rightarrow> (string \<Rightarrow> nat) \<Rightarrow> (string \<rightharpoonup> u128) \<Rightarrow> bool" where
  "nonces_seen hex seen nonces \<longleftrightarrow>
     (\<forall>k. nonces (hex k) = (if seen k = 0 then None else Some (of_nat (seen k - 1))))"

lemma assign_nonce_seen:
  assumes "nonces_seen hex seen nonces" and "inj hex" and "seen k < 2 ^ 128"
  shows "\<exists>nonces'. assign_nonce prof (hex k) 0 nonces = Inr (of_nat (seen k), nonces') \<and>
    nonces_seen hex (seen(k := Suc (seen k))) nonces'"
proof -
  have hex: "hex j = hex k \<longleftrightarrow> j = k" for j using assms(2) by (auto dest: injD)
  show ?thesis
  proof (cases "seen k")
    case 0
    then have "assign_nonce prof (hex k) 0 nonces = Inr (of_nat (seen k), nonces(hex k \<mapsto> of_nat (seen k)))"
      using assms(1) by (simp add: assign_nonce_def nonces_seen_def)
    then show ?thesis using assms(1) 0 by (intro exI conjI) (auto simp: nonces_seen_def hex)
  next
    case (Suc n)
    have "n + 1 < 2 ^ LENGTH(128)" using assms(3) Suc by simp
    then have "u_add prof (of_nat n :: u128) 1 = Inr (of_nat (seen k))"
      using u_add_of_nat [of n 1, where 'a = 128] by (simp add: Suc)
    then have "assign_nonce prof (hex k) 0 nonces = Inr (of_nat (seen k), nonces(hex k \<mapsto> of_nat (seen k)))"
      using assms(1) Suc by (simp add: assign_nonce_def nonces_seen_def del: of_nat_Suc)
    then show ?thesis using assms(1) Suc by (intro exI conjI) (auto simp: nonces_seen_def hex)
  qed
qed

lemma fake_build_all_ranks:
  assumes "nonces_seen hex seen (fs_nonces sink)" and "inj hex" and "\<And>k. seen k + length schedule \<le> 2 ^ 128"
  shows "\<exists>sink'. fake_build_all prof hex False ps schedule sink =
    Inr (map (\<lambda>(i, r). (i, fake_made (param_account (ps ! i)) (of_nat r))) (ranks (\<lambda>i. param_account (ps ! i)) schedule seen), sink')"
  using assms(1,3)
proof (induction schedule arbitrary: seen sink)
  case (Cons i schedule)
  let ?k = "param_account (ps ! i)"
  have small: "seen k + length schedule < 2 ^ 128" for k using Cons.prems(2) [of k] by simp
  have "seen ?k < 2 ^ 128" using small [of ?k] by linarith
  from assign_nonce_seen [OF Cons.prems(1) assms(2) this]
  obtain nonces' where assign: "assign_nonce prof (hex ?k) 0 (fs_nonces sink) = Inr (of_nat (seen ?k), nonces')"
    and seen': "nonces_seen hex (seen(?k := Suc (seen ?k))) nonces'" by blast
  have build: "fake_build_transaction prof hex False (ps ! i) sink =
      Inr (fake_made ?k (of_nat (seen ?k)), sink\<lparr>fs_nonces := nonces'\<rparr>)"
    by (simp add: fake_build_transaction_made assign)
  have "\<exists>sink'. fake_build_all prof hex False ps schedule (sink\<lparr>fs_nonces := nonces'\<rparr>) =
      Inr (map (\<lambda>(i, r). (i, fake_made (param_account (ps ! i)) (of_nat r)))
        (ranks (\<lambda>i. param_account (ps ! i)) schedule (seen(?k := Suc (seen ?k)))), sink')"
  proof (rule Cons.IH)
    show "(seen(?k := Suc (seen ?k))) k + length schedule \<le> 2 ^ 128" for k
      using small [of k] small [of ?k] by simp
    show "nonces_seen hex (seen(?k := Suc (seen ?k))) (fs_nonces (sink\<lparr>fs_nonces := nonces'\<rparr>))"
      using seen' by (simp del: fun_upd_apply)
  qed
  then show ?case by (auto simp: build)
qed simp

lemma map_of_ranks:
  "map_of (map (\<lambda>(i, r). (i, f i r)) xs) i = map_option (f i) (map_of xs i)"
  by (induction xs) auto


subsection \<open>The accounts of a scenario\<close>

definition scenario_names :: "('a, 'b) scenario_builder \<Rightarrow> string list" where
  "scenario_names sb =
     (case start_id sb of
        Some start \<Rightarrow> map show_nat [unat start..<Suc (unat (case last_id sb of Some l \<Rightarrow> l | None \<Rightarrow> start))]
      | None \<Rightarrow> (case account_id sb of Some name \<Rightarrow> [name] | None \<Rightarrow> []))"

lemma distinct_scenario_names: "distinct (scenario_names sb)"
  by (auto simp: scenario_names_def distinct_map inj_on_def split: option.split)

lemma scenario_params:
  assumes "start_id sb \<noteq> None \<or> account_id sb \<noteq> None"
    and "\<forall>n. nonce_from sb = Some n \<longrightarrow> unat n + unat (txs_count sb) < 2 ^ 128"
  shows "\<exists>ps. build_params prof sb = Inr ps \<and> length ps = length (scenario_names sb) * unat (txs_count sb) \<and>
    (\<forall>i < length ps. param_account (ps ! i) = scenario_names sb ! (i div unat (txs_count sb)))"
proof (cases "start_id sb")
  case None
  then obtain name where name: "account_id sb = Some name" using assms(1) by auto
  obtain ps where "push_build_params prof name (mortality sb) (unat (txs_count sb)) (nonce_from sb) = Inr ps"
      "length ps = unat (txs_count sb)" "\<forall>i < length ps. param_account (ps ! i) = name"
    using assms(2) by (cases "nonce_from sb") (simp_all add: push_build_params_None push_build_params_Some)
  then show ?thesis using None name by (simp add: build_params_def scenario_names_def)
next
  case (Some start)
  define final where "final = (case last_id sb of Some l \<Rightarrow> l | None \<Rightarrow> start)"
  let ?sb = "sb\<lparr>last_id := Some final\<rparr>" and ?m = "Suc (unat final) - unat start" and ?c = "unat (txs_count sb)"
  have names: "scenario_names sb = map show_nat [unat start..<Suc (unat final)]"
    by (simp add: scenario_names_def Some final_def)
  have "build_params prof sb = build_params prof ?sb" by (simp add: build_params_def Some final_def)
  also have "\<dots> = Inr (map (\<lambda>k. param (mortality sb) (map_option (\<lambda>n. n + of_nat (k mod ?c)) (nonce_from sb)) (unat start + k div ?c))
      [0..<?m * ?c])"
    using build_params_index [of ?sb start final "nonce_from sb" prof] assms(2) by (simp add: Some)
  finally have "build_params prof sb = \<dots>" .
  moreover have "unat start + i div ?c < Suc (unat final)" if "i < ?m * ?c" for i
    using less_mult_imp_div_less [OF that] by simp
  ultimately show ?thesis by (simp add: names param_def less_mult_imp_div_less del: upt_Suc)
qed

subsection \<open>The transactions of all calls\<close>

lemma fake_schedule:
  fixes ps :: "tx_build_params list"
  assumes "inj hex" and "distinct schedule" and "length schedule \<le> 2 ^ 128"
  defines "acc \<equiv> \<lambda>i. param_account (ps ! i)"
  shows "\<exists>built sink rk. fake_build_all prof hex False ps schedule fs_default = Inr (built, sink) \<and>
    (\<forall>i \<in> set schedule. unwrap (map_of built i) = Inr (fake_made (acc i) (of_nat (rk i)))) \<and>
    (\<forall>k. bij_betw rk {i \<in> set schedule. acc i = k} {0..<card {i \<in> set schedule. acc i = k}})"
proof -
  let ?r = "ranks acc schedule (\<lambda>_. 0)"
  obtain sink where built: "fake_build_all prof hex False ps schedule fs_default =
      Inr (map (\<lambda>(i, r). (i, fake_made (acc i) (of_nat r))) ?r, sink)"
    using fake_build_all_ranks [of hex "\<lambda>_. 0" fs_default schedule prof ps] assms(1,3)
    by (auto simp: nonces_seen_def fs_default_def acc_def)
  have "unwrap (map_of (map (\<lambda>(i, r). (i, fake_made (acc i) (of_nat r))) ?r) i) =
      Inr (fake_made (acc i) (of_nat (the (map_of ?r i))))" if "i \<in> set schedule" for i
  proof -
    have "i \<in> fst ` set ?r" using that arg_cong [OF fst_ranks [of acc schedule "\<lambda>_. 0"], of set] by simp
    then obtain r where "map_of ?r i = Some r" by (metis map_of_eq_None_iff not_None_eq)
    then show ?thesis by (simp add: map_of_ranks unwrap_def)
  qed
  moreover have "bij_betw (\<lambda>i. the (map_of ?r i)) {i \<in> set schedule. acc i = k} {0..<card {i \<in> set schedule. acc i = k}}" for k
    by (rule ranks_bij [OF assms(2)])
  ultimately show ?thesis
    using built by (intro exI [of _ "\<lambda>i. the (map_of ?r i)"] exI conjI) (assumption, simp_all)
qed

text \<open>The calls for the \<open>b\<close>-th account of a list of blocks of \<open>c\<close> calls.\<close>

lemma calls_of_account:
  assumes "distinct names" and "b < length names" and "\<forall>i < length names * c. acc i = names ! (i div c)"
  shows "{i \<in> {0..<length names * c}. acc i = names ! b} = {b * c..<b * c + c}"
proof -
  have "i div c = b \<longleftrightarrow> b * c \<le> i \<and> i < b * c + c" if "i < length names * c" for i
    using that dividend_less_div_times [of c i] by (cases "c = 0") (auto simp: div_nat_eqI mult.commute less_mult_imp_div_less)
  moreover have "i < length names * c" if "i < b * c + c" for i
  proof -
    have "Suc b * c \<le> length names * c" using assms(2) by (intro mult_right_mono) auto
    then show ?thesis using that by simp
  qed
  moreover have "(names ! (i div c) = names ! b) = (i div c = b)" if "i < length names * c" for i
    using that assms(1,2) by (simp add: nth_eq_iff_index_eq less_mult_imp_div_less)
  ultimately show ?thesis using assms(3) by auto
qed

lemma bij_betw_block:
  fixes s c :: nat
  assumes "bij_betw f {s..<s + c} {0..<c}"
  shows "bij_betw (\<lambda>i. f (s + i)) {0..<c} {0..<c}"
proof -
  have "(+) s ` {0..<c} = {s..<s + c}" using image_add_atLeastLessThan [of s 0 c] by (simp add: add.commute)
  then have "bij_betw ((+) s) {0..<c} {s..<s + c}" by (simp add: bij_betw_def)
  from bij_betw_trans [OF this assms] show ?thesis by (simp add: comp_def)
qed

lemma nonce_keys:
  assumes "c \<le> 2 ^ 128"
  shows "sorted (map (of_nat :: nat \<Rightarrow> u128) [0..<c])" "inj_on (of_nat :: nat \<Rightarrow> u128) {0..<c}"
proof -
  have small: "unat (of_nat j :: u128) = j" if "j < c" for j
    by (rule unat_of_nat_small) (use that assms in simp)
  then show "sorted (map (of_nat :: nat \<Rightarrow> u128) [0..<c])" by (auto simp: sorted_iff_nth_mono word_le_nat_alt)
  show "inj_on (of_nat :: nat \<Rightarrow> u128) {0..<c}"
    by (rule inj_onI) (use small in \<open>metis atLeastLessThan_iff\<close>)
qed

lemma fake_rounds:
  fixes available :: usize
  assumes "start_id sb \<noteq> None \<or> account_id sb \<noteq> None"
    and "\<forall>n. nonce_from sb = Some n \<longrightarrow> unat n + unat (txs_count sb) < 2 ^ 128"
    and "n = length (scenario_names sb) * unat (txs_count sb)" and "n < 2 ^ 32"
    and "\<not> watched_txs sb" and "0 < available" and "inj hex"
    and "distinct schedule" and "set schedule = {0..<n}"
  shows "\<exists>ps built sink. build_params prof sb = Inr ps \<and>
    fake_build_all prof hex (watched_txs sb) ps schedule fs_default = Inr (built, sink) \<and>
    build_transactions prof available (\<lambda>i _ _ _. unwrap (map_of built i)) sb the_tip =
      Inr (concat (map (\<lambda>j. map (\<lambda>name. fake_made name (of_nat j)) (scenario_names sb)) [0..<unat (txs_count sb)]))"
proof -
  let ?names = "scenario_names sb" and ?c = "unat (txs_count sb)"
  obtain ps where ps: "build_params prof sb = Inr ps" "length ps = length ?names * ?c"
    and acc: "\<forall>i < length ps. param_account (ps ! i) = ?names ! (i div ?c)"
    using scenario_params [OF assms(1,2)] by blast
  have len: "length schedule = n" using distinct_card [OF assms(8)] by (simp add: assms(9))
  have "length schedule \<le> 2 ^ 128" using len assms(4) by simp
  from fake_schedule [OF assms(7,8) this, of prof ps] obtain built sink rk
    where built: "fake_build_all prof hex False ps schedule fs_default = Inr (built, sink)"
      and made: "\<forall>i \<in> set schedule. unwrap (map_of built i) = Inr (fake_made (param_account (ps ! i)) (of_nat (rk i)))"
      and bij: "\<forall>k. bij_betw rk {i \<in> set schedule. param_account (ps ! i) = k}
        {0..<card {i \<in> set schedule. param_account (ps ! i) = k}}" by blast
  have "{i \<in> set schedule. param_account (ps ! i) = ?names ! b} = {b * ?c..<b * ?c + ?c}" if "b < length ?names" for b
    using calls_of_account [OF distinct_scenario_names that, of ?c "\<lambda>i. param_account (ps ! i)"] acc ps(2)
    by (simp add: assms(3,9))
  then have block: "bij_betw (\<lambda>i. rk (b * ?c + i)) {0..<?c} {0..<?c}" if "b < length ?names" for b
    using bij [rule_format, of "?names ! b"] that by (intro bij_betw_block) simp
  have "build_transactions prof available (\<lambda>i _ _ _. unwrap (map_of built i)) sb the_tip =
      Inr (concat (map (\<lambda>j. map (\<lambda>b. fake_made (?names ! b) (of_nat j)) [0..<length ?names]) [0..<?c]))"
  proof (rule build_rounds [where p = "\<lambda>b i. rk (b * ?c + i)" and key = of_nat
        and mk = "\<lambda>i. fake_made (?names ! (i div ?c)) (of_nat (rk i))", OF ps])
    show "unwrap (map_of built i) = Inr (fake_made (?names ! (i div ?c)) (of_nat (rk i)))" if "i < length ?names * ?c" for i
      using that made acc ps(2) by (simp add: assms(3,9))
    show "sorted (map (of_nat :: nat \<Rightarrow> u128) [0..<?c])" "inj_on (of_nat :: nat \<Rightarrow> u128) {0..<?c}"
      using unat_bound [of "txs_count sb"] by (simp_all add: nonce_keys)
  qed (use assms(3,4,6) block in simp_all)
  moreover have "map (\<lambda>b. fake_made (?names ! b) k) [0..<length ?names] = map (\<lambda>name. fake_made name k) ?names" for k
    by (rule nth_equalityI) simp_all
  ultimately show ?thesis using ps(1) built assms(5) by auto
qed

text \<open>
  C25: for a scenario that is not watched, whatever the number of threads and in whatever order their calls take the lock, the fake builder
  makes \<open>build_transactions\<close> return what its test expects, for one account or a range: the transactions
  with nonce 0 of all accounts in the order of their ids, then those with nonce 1, and so on. The nonces
  start at 0 whatever first nonce the scenario asks for.
\<close>

theorem fake_builder_rounds:
  fixes available :: usize
  assumes "start_id sb \<noteq> None \<or> account_id sb \<noteq> None"
    and "\<forall>n. nonce_from sb = Some n \<longrightarrow> unat n + unat (txs_count sb) < 2 ^ 128"
    and "n = length (scenario_names sb) * unat (txs_count sb)" and "n < 2 ^ 32"
    and "\<not> watched_txs sb" and "0 < available" and "inj hex"
    and "distinct schedule" and "set schedule = {0..<n}"
  shows "\<exists>ps built sink. build_params prof sb = Inr ps \<and>
    fake_build_all prof hex (watched_txs sb) ps schedule fs_default = Inr (built, sink) \<and>
    build_transactions prof available (\<lambda>i _ _ _. unwrap (map_of built i)) sb the_tip =
      Inr (concat (map (\<lambda>j. map (\<lambda>name. fake_made name (of_nat j)) (scenario_names sb)) [0..<unat (txs_count sb)]))"
  using assms by (rule fake_rounds)

text \<open>The many-accounts case of the test, for two accounts, with the calls in the reverse order.\<close>

theorem fake_builder_rounds_witness:
  "\<exists>ps built sink. build_params Debug example_range = Inr ps \<and>
    fake_build_all Debug (\<lambda>s. CHR ''6'' # s) False ps [3, 2, 1, 0] fs_default = Inr (built, sink) \<and>
    build_transactions Debug 2 (\<lambda>i _ _ _. unwrap (map_of built i)) example_range 0 =
      Inr [fake_made ''5'' 0, fake_made ''6'' 0, fake_made ''5'' 1, fake_made ''6'' 1]"
proof -
  have s: "start_id example_range = Some 5" "last_id example_range = Some 6" "nonce_from example_range = Some 3"
    "txs_count example_range = 2" "watched_txs example_range = False"
    by (simp_all add: example_range_simps)
  have names: "scenario_names example_range = [''5'', ''6'']"
  proof -
    have "show_nat 5 = ''5''" "show_nat 6 = ''6''" by code_simp+
    then show ?thesis by (simp add: scenario_names_def s upt_rec [of 5] upt_rec [of 6])
  qed
  have "inj (\<lambda>s :: string. CHR ''6'' # s)" by (rule injI) simp
  moreover have "set [3, 2, 1, 0] = {0..<(4 :: nat)}" by auto
  ultimately have "\<exists>ps built sink. build_params Debug example_range = Inr ps \<and>
    fake_build_all Debug (\<lambda>s. CHR ''6'' # s) (watched_txs example_range) ps [3, 2, 1, 0] fs_default = Inr (built, sink) \<and>
    build_transactions Debug 2 (\<lambda>i _ _ _. unwrap (map_of built i)) example_range 0 =
      Inr (concat (map (\<lambda>j. map (\<lambda>name. fake_made name (of_nat j)) (scenario_names example_range))
        [0..<unat (txs_count example_range)]))"
    by (intro fake_builder_rounds [where n = 4]) (simp_all add: s names)
  then show ?thesis by (simp add: s names upt_rec [of 0] upt_rec [of "Suc 0"])
qed

end
