(* ===== verification/Conformance.thy ===== *)
theory Conformance
  imports Fake_Builder Accounts
begin

section \<open>The tests of the repository\<close>

text \<open>
  The unit tests under \<open>src/src/\<close> that need no node, replayed on the model: the expected values of the tests
  are what the definitions compute. Where a test relies on the scheduler, the lemma holds for every number
  of threads and every order of the calls.
\<close>

subsection \<open>Fake transactions and the fake sink\<close>

text \<open>\<open>fake_transaction_events\<close> (\<open>fake_transaction.rs\<close>).\<close>

definition test_stream :: events_stream_def where
  "test_stream = [ed_broadcasted 100, ed_validated 300, ed_in_block 1 1000, ed_in_block 2 1000, ed_in_block 3 1000,
     ed_finalized 2 2000]"

definition test_statuses :: "fake_hash transaction_status list" where
  "test_statuses = [Broadcasted, Validated, InBlock (to_le_bytes 1), InBlock (to_le_bytes 2), InBlock (to_le_bytes 3),
     Finalized (to_le_bytes 2)]"

lemma fake_transaction_events:
  "\<exists>stream. ft_events (ft_new 1 0 test_stream) = Inr stream \<and> map fst stream = test_statuses"
  by (simp add: ft_events_def get_current_stream_def_def ft_constructor_defs event_def_defs test_stream_def test_statuses_def)

text \<open>\<open>fake_sink_submit_and_watch_works\<close> (\<open>fake_transaction_sink.rs\<close>).\<close>

lemma fake_sink_submit_and_watch_works:
  "\<exists>s stream. fs_submit_and_watch (ft_new_finalizable 1 0) fs_default = Inr (s, stream) \<and>
    fs_pending_extrinsics s = 1 \<and>
    fs_pending_extrinsics (fs_drain (ft_hash (ft_new_finalizable 1 0)) (map fst stream) s) = 0 \<and>
    map fst stream = test_statuses"
  by (simp add: fs_submit_and_watch_def ft_events_def get_current_stream_def_def ft_constructor_defs event_def_defs
      test_statuses_def fs_drain_def fs_stream_item_def fs_insert_def fs_remove_def fs_default_def fs_pending_extrinsics_def
      fcard_finsert_disjoint)

lemmas submit_test_simps = fs_submit_def fs_submit_end_def fs_submit_begin_def submit_result_def get_current_stream_def_def
  ft_constructor_defs event_def_defs fs_insert_def fs_remove_def fs_default_def fs_pending_extrinsics_def

lemma fake_sink_submit_works:
  "\<exists>s. fs_submit (ft_new_droppable 1 0 10) fs_default = Inr (s, Inl (Other ''submit-error:dropped:xxx'' :: unit error))"
  "\<exists>s. fs_submit (ft_new_invalid 1 0 10) fs_default = Inr (s, Inl (Other ''submit-error:invalid:xxx'' :: unit error))"
  "\<exists>s. fs_submit (ft_new_error 1 0 10) fs_default = Inr (s, Inl (Other ''submit-error:error:xxx'' :: unit error))"
  "\<exists>s. fs_submit (ft_new_finalizable_quick 111 0) fs_default = Inr (s, Inr (to_le_bytes 111) :: unit error + fake_hash)"
  by (simp_all add: submit_test_simps)

text \<open>\<open>fake_sink_submit_work_valid_2\<close>: two submissions in flight at the same time.\<close>

lemma fake_sink_submit_work_valid_2:
  fixes t1 t2 :: fake_transaction
  defines "t1 \<equiv> ft_new 111 0 [ed_finalized 11 250]" and "t2 \<equiv> ft_new 222 0 [ed_finalized 12 250]"
  shows "let s = fs_submit_begin t2 (fs_submit_begin t1 fs_default) in fs_pending_extrinsics s = 2 \<and>
    (\<exists>s1 s2. fs_submit_end t1 s = Inr (s1, Inr (to_le_bytes 111) :: unit error + fake_hash) \<and>
      fs_submit_end t2 s1 = Inr (s2, Inr (to_le_bytes 222) :: unit error + fake_hash) \<and> fs_pending_extrinsics s2 = 0)"
  by (auto simp add: submit_test_simps t1_def t2_def fcard_finsert_disjoint)

subsection \<open>Building transactions\<close>

text \<open>\<open>build_tx_tasks_based_on_scenario_type\<close> (\<open>scenario.rs\<close>): its five scenarios.\<close>

definition test_one_derived :: "(unit, unit) scenario_builder" where
  "test_one_derived = with_nonce_from (Some 0) (with_start_id 0 scenario_builder_new)"

definition test_one_keyring :: "(unit, unit) scenario_builder" where
  "test_one_keyring = with_nonce_from (Some 0) (with_account_id ''alice'' scenario_builder_new)"

definition test_ten_derived :: "(unit, unit) scenario_builder" where
  "test_ten_derived = with_txs_count 10 (with_nonce_from (Some 0) (with_start_id 1 scenario_builder_new))"

definition test_ten_keyring :: "(unit, unit) scenario_builder" where
  "test_ten_keyring = with_txs_count 10 (with_nonce_from (Some 0) (with_account_id ''alice'' scenario_builder_new))"

definition test_many_derived :: "(unit, unit) scenario_builder" where
  "test_many_derived =
     with_txs_count 10 (with_nonce_from (Some 0) (with_last_id 10 (with_start_id 5 scenario_builder_new)))"

lemmas test_scenario_defs = test_one_derived_def test_one_keyring_def test_ten_derived_def test_ten_keyring_def
  test_many_derived_def setter_defs scenario_builder_new_def

text \<open>The test for one scenario: with any number of threads, whatever the order of the calls.\<close>

definition test_passes :: "(unit, unit) scenario_builder \<Rightarrow> nat \<Rightarrow> (nat \<Rightarrow> u128) \<Rightarrow> (nat \<Rightarrow> account_metadata) \<Rightarrow> bool" where
  "test_passes sb n nonce meta \<longleftrightarrow> (\<forall>prof available hex schedule.
     0 < available \<and> inj hex \<and> distinct schedule \<and> set schedule = {0..<n} \<longrightarrow>
     (\<exists>ps built sink tasks. build_params prof sb = Inr ps \<and> length ps = n \<and>
        fake_build_all prof hex (watched_txs sb) ps schedule fs_default = Inr (built, sink) \<and>
        build_transactions prof available (\<lambda>i _ _ _. unwrap (map_of built i)) sb 0 = Inr tasks \<and>
        length tasks = n \<and>
        (\<forall>i < n. task_nonce (tasks ! i) = nonce i \<and> tx_account_metadata (task_tx (tasks ! i)) = meta i)))"

lemma test_passesI:
  assumes "start_id sb \<noteq> None \<or> account_id sb \<noteq> None" and "nonce_from sb = Some 0" and "\<not> watched_txs sb"
    and "scenario_names sb = names" and "unat (txs_count sb) = c" and "0 < length names" and "length names * c < 2 ^ 32"
    and "\<And>i. i < c * length names \<Longrightarrow> nonce i = of_nat (i div length names)"
    and "\<And>i j. i < length names \<Longrightarrow> tx_account_metadata (task_tx (fake_made (names ! i) j)) = metas i"
    and "\<And>i. i < c * length names \<Longrightarrow> meta i = metas (i mod length names)"
  shows "test_passes sb (c * length names) nonce meta"
  unfolding test_passes_def
proof (intro allI impI, elim conjE)
  fix prof and available :: usize and hex :: "string \<Rightarrow> string" and schedule
  assume s: "0 < available" "inj hex" "distinct schedule" "set schedule = {0..<c * length names}"
  have c: "c < 2 ^ 32" using assms(5) unat_bound [of "txs_count sb"] by auto
  let ?tasks = "concat (map (\<lambda>j. map (\<lambda>name. fake_made name (of_nat j)) names) [0..<c])"
  have tasks: "?tasks = map (\<lambda>k. fake_made (names ! (k mod length names)) (of_nat (k div length names))) [0..<c * length names]"
  proof -
    have "map (\<lambda>name. fake_made name n) names = map (\<lambda>i. fake_made (names ! i) n) [0..<length names]" for n
      by (rule nth_equalityI) simp_all
    then show ?thesis using blocks_index [of "\<lambda>j i. fake_made (names ! i) (of_nat j)" "length names" 0 c] by simp
  qed
  have "\<exists>ps built sink. build_params prof sb = Inr ps \<and>
    fake_build_all prof hex (watched_txs sb) ps schedule fs_default = Inr (built, sink) \<and>
    build_transactions prof available (\<lambda>i _ _ _. unwrap (map_of built i)) sb 0 =
      Inr (concat (map (\<lambda>j. map (\<lambda>name. fake_made name (of_nat j)) (scenario_names sb)) [0..<unat (txs_count sb)]))"
    by (rule fake_rounds [where n = "c * length names"]) (use assms(1-5,7) s c in \<open>simp_all add: mult.commute\<close>)
  moreover have "\<exists>ps. build_params prof sb = Inr ps \<and> length ps = length (scenario_names sb) * unat (txs_count sb)"
    using scenario_params [OF assms(1), of prof] assms(2,5) c by auto
  moreover have "task_nonce (?tasks ! i) = nonce i \<and> tx_account_metadata (task_tx (?tasks ! i)) = meta i" if "i < c * length names" for i
    unfolding tasks using that assms(6,8-10) by simp
  moreover have "length ?tasks = c * length names" by (simp add: tasks)
  ultimately show "\<exists>ps built sink tasks. build_params prof sb = Inr ps \<and> length ps = c * length names \<and>
      fake_build_all prof hex (watched_txs sb) ps schedule fs_default = Inr (built, sink) \<and>
      build_transactions prof available (\<lambda>i _ _ _. unwrap (map_of built i)) sb 0 = Inr tasks \<and>
      length tasks = c * length names \<and>
      (\<forall>i < c * length names. task_nonce (tasks ! i) = nonce i \<and> tx_account_metadata (task_tx (tasks ! i)) = meta i)"
    by (auto simp: assms(4,5) mult.commute simp del: length_concat)
qed

lemma fake_made_show_nat: "n < 2 ^ 32 \<Longrightarrow> tx_account_metadata (task_tx (fake_made (show_nat n) nonce)) = Derived (of_nat n)"
  by (simp add: fake_made_def parse_u32_def fake_task_def fake_as_transaction_def ft_new_multiple_def new_watched_def)

lemma fake_made_alice: "tx_account_metadata (task_tx (fake_made ''alice'' nonce)) = KeyRing ''alice''"
  by (simp add: fake_made_def parse_u32_def parse_uint_def digit_value_def new_watched_def)

lemma u128_div: "n < 2 ^ 128 \<Longrightarrow> (of_nat n :: u128) div 6 = of_nat (n div 6)"
  by (rule word_unat_eq_iff [THEN iffD2]) (simp add: unat_div take_bit_nat_eq_self unat_of_nat)

lemma u32_mod: "n < 2 ^ 32 \<Longrightarrow> (of_nat n :: u32) mod 6 = of_nat (n mod 6)"
  by (rule word_unat_eq_iff [THEN iffD2]) (simp add: unat_mod take_bit_nat_eq_self unat_of_nat)

lemma test_settings:
  "start_id test_one_derived = Some 0" "start_id test_one_keyring = None" "start_id test_ten_derived = Some 1"
  "start_id test_ten_keyring = None" "start_id test_many_derived = Some 5"
  "account_id test_one_keyring = Some ''alice''" "account_id test_ten_keyring = Some ''alice''"
  "nonce_from test_one_derived = Some 0" "nonce_from test_one_keyring = Some 0" "nonce_from test_ten_derived = Some 0"
  "nonce_from test_ten_keyring = Some 0" "nonce_from test_many_derived = Some 0"
  "\<not> watched_txs test_one_derived" "\<not> watched_txs test_one_keyring" "\<not> watched_txs test_ten_derived"
  "\<not> watched_txs test_ten_keyring" "\<not> watched_txs test_many_derived"
  "txs_count test_one_derived = 1" "txs_count test_one_keyring = 1" "txs_count test_ten_derived = 10"
  "txs_count test_ten_keyring = 10" "txs_count test_many_derived = 10"
  "scenario_names test_one_derived = [show_nat 0]" "scenario_names test_one_keyring = [''alice'']"
  "scenario_names test_ten_derived = [show_nat 1]" "scenario_names test_ten_keyring = [''alice'']"
  "scenario_names test_many_derived = map show_nat [5..<11]"
  by (simp_all add: scenario_names_def test_scenario_defs)

lemma build_tx_tasks_based_on_scenario_type:
  "test_passes test_one_derived 1 (\<lambda>_. 0) (\<lambda>_. Derived 0)"
  "test_passes test_one_keyring 1 (\<lambda>_. 0) (\<lambda>_. KeyRing ''alice'')"
  "test_passes test_ten_derived 10 of_nat (\<lambda>_. Derived 1)"
  "test_passes test_ten_keyring 10 of_nat (\<lambda>_. KeyRing ''alice'')"
  "test_passes test_many_derived 60 (\<lambda>i. of_nat i div 6) (\<lambda>i. Derived (of_nat i mod 6 + 5))"
proof -
  have "test_passes test_one_derived (1 * length [show_nat 0]) (\<lambda>_. 0) (\<lambda>_. Derived 0)"
    by (rule test_passesI [where metas = "\<lambda>_. Derived 0"]) (simp_all add: test_settings fake_made_show_nat)
  then show "test_passes test_one_derived 1 (\<lambda>_. 0) (\<lambda>_. Derived 0)" by simp
  have "test_passes test_one_keyring (1 * length [''alice'']) (\<lambda>_. 0) (\<lambda>_. KeyRing ''alice'')"
    by (rule test_passesI [where metas = "\<lambda>_. KeyRing ''alice''"]) (simp_all add: test_settings fake_made_alice)
  then show "test_passes test_one_keyring 1 (\<lambda>_. 0) (\<lambda>_. KeyRing ''alice'')" by simp
  have "test_passes test_ten_derived (10 * length [show_nat 1]) of_nat (\<lambda>_. Derived 1)"
    by (rule test_passesI [where metas = "\<lambda>_. Derived 1"]) (simp_all add: test_settings fake_made_show_nat)
  then show "test_passes test_ten_derived 10 of_nat (\<lambda>_. Derived 1)" by simp
  have "test_passes test_ten_keyring (10 * length [''alice'']) of_nat (\<lambda>_. KeyRing ''alice'')"
    by (rule test_passesI [where metas = "\<lambda>_. KeyRing ''alice''"]) (simp_all add: test_settings fake_made_alice)
  then show "test_passes test_ten_keyring 10 of_nat (\<lambda>_. KeyRing ''alice'')" by simp
  have six: "length (map show_nat [5..<11]) = 6" by simp
  have "test_passes test_many_derived (10 * length (map show_nat [5..<11])) (\<lambda>i. of_nat i div 6) (\<lambda>i. Derived (of_nat i mod 6 + 5))"
  proof (rule test_passesI [where metas = "\<lambda>i. Derived (of_nat i + 5)"])
    show "tx_account_metadata (task_tx (fake_made (map show_nat [5..<11] ! i) j)) = Derived (of_nat i + 5)"
      if "i < length (map show_nat [5..<11])" for i j
      using that fake_made_show_nat [of "5 + i" j] by (simp add: add.commute del: upt_Suc upt_rec_numeral)
    show "(of_nat i :: u128) div 6 = of_nat (i div length (map show_nat [5..<11]))"
      if "i < 10 * length (map show_nat [5..<11])" for i
      using that unfolding six by (intro u128_div) simp
    show "Derived (of_nat i mod 6 + 5) = Derived (of_nat (i mod length (map show_nat [5..<11])) + 5)"
      if "i < 10 * length (map show_nat [5..<11])" for i
      using that u32_mod [of i] unfolding six by simp
  qed (simp_all add: test_settings)
  then show "test_passes test_many_derived 60 (\<lambda>i. of_nat i div 6) (\<lambda>i. Derived (of_nat i mod 6 + 5))" by simp
qed

text \<open>
  \<open>test_derive_accounts_len\<close> (\<open>subxt_transaction.rs\<close>), for any generator that derives the ids 0 to 10 and
  knows alice: eleven accounts under their ids, and one.
\<close>

lemma derive_accounts_len:
  fixes available :: usize
  assumes "0 < available" and "\<forall>i. i < 11 \<longrightarrow> generate (Request_Derived sender_seed i) = Inr (key i)"
  shows "\<exists>accounts. derive_accounts prof available (Derived_Range 0 11) sender_seed generate = Inr accounts \<and>
    card (dom accounts) = 11 \<and> (\<forall>i < 11. accounts (show_u32 i) = Some (key i, Derived i))"
proof -
  obtain accounts where accounts: "derive_accounts prof available (Derived_Range 0 11) sender_seed generate = Inr accounts"
    and dom: "dom accounts = {show_u32 i | i :: u32. 0 \<le> i \<and> i < 11}"
    and entries: "\<forall>i :: u32. 0 \<le> i \<and> i < 11 \<longrightarrow> accounts (show_u32 i) = Some (key i, Derived i)"
    using range_accounts_derived [of 0 11 available generate sender_seed key prof] assms by auto
  have "{show_u32 i | i :: u32. 0 \<le> i \<and> i < 11} = show_nat ` {0..<11}"
  proof (intro equalityI subsetI)
    fix s assume "s \<in> {show_u32 i | i :: u32. 0 \<le> i \<and> i < 11}"
    then show "s \<in> show_nat ` {0..<11}" by (auto simp: show_u32_def word_less_nat_alt)
  next
    fix s assume "s \<in> show_nat ` {0..<11}"
    then obtain n where n: "s = show_nat n" "n < 11" by auto
    then have "unat (of_nat n :: u32) = n" by (intro unat_of_nat_small) simp
    then have "s = show_u32 (of_nat n)" "(of_nat n :: u32) < 11" using n by (simp_all add: show_u32_def word_less_nat_alt)
    then show "s \<in> {show_u32 i | i :: u32. 0 \<le> i \<and> i < 11}" by auto
  qed
  then have "card (dom accounts) = 11" by (simp add: dom card_image inj_on_def)
  then show ?thesis using accounts entries by auto
qed

lemma derive_accounts_alice:
  assumes "generate (Request_Keyring ''alice'') = Inr kp"
  shows "\<exists>accounts. derive_accounts prof available (Keyring ''alice'') sender_seed generate = Inr accounts \<and>
    card (dom accounts) = 1 \<and> accounts ''alice'' = Some (kp, KeyRing ''alice'')"
proof -
  have "derive_accounts prof available (Keyring ''alice'') sender_seed generate = Inr [''alice'' \<mapsto> (kp, KeyRing ''alice'')]"
    using assms by (simp add: derive_accounts_def fun_eq_iff)
  moreover have "card (dom [''alice'' \<mapsto> (kp, KeyRing ''alice'')]) = 1" unfolding dom_fun_upd by simp
  ultimately show ?thesis by (metis fun_upd_same)
qed

end
