(* ===== verification/Kill_Dev_Entry.thy ===== *)
theory Kill_Dev_Entry
  imports Scenario
begin

section \<open>An example program\<close>

text \<open>
  \<open>examples/kill_dev_entry.rs\<close>: a program of its own on top of \<open>ScenarioBuilder\<close>, with a payload builder for
  the call \<open>kill_dev_entry\<close> of a test pallet. Every account of a range kills the batch of entries that its id
  determines.
\<close>

record kill_args =
  kill_start_id :: u32
  kill_last_id :: u32
  kill_ws :: string
  kill_send_threshold :: u32

definition kill_defaults :: "u32 \<Rightarrow> u32 \<Rightarrow> kill_args" where
  "kill_defaults start final =
     \<lparr>kill_start_id = start, kill_last_id = final, kill_ws = ''ws://127.0.0.1:9933'', kill_send_threshold = 10000\<rparr>"

definition batch_size :: u32 where
  "batch_size = 5"

definition kill_payload_builder :: "profile \<Rightarrow> 'a payload_builder" where
  "kill_payload_builder prof ctx =
     res_bind (unwrap (parse_u32 (ctx_account ctx))) (\<lambda>x.
     res_bind (u_mul prof batch_size x) (\<lambda>start.
     Inr \<lparr>pallet_name = ''TestPallet'', call_name = ''kill_dev_entry'',
       call_fields = [U128_Value (ucast start), U128_Value (ucast batch_size)]\<rparr>))"

definition kill_scenario_builder :: "profile \<Rightarrow> kill_args \<Rightarrow> ('a, 'b) scenario_builder" where
  "kill_scenario_builder prof args =
     with_tx_payload_builder_sub (kill_payload_builder prof)
       (with_installed_ctrlc_stop_hook True
       (with_legacy_backend True
       (with_txs_count 1
       (with_last_id (kill_last_id args)
       (with_start_id (kill_start_id args)
       (with_send_threshold (ucast (kill_send_threshold args))
       (with_chain_type Sub
       (with_watched_txs True
       (with_rpc_uri (kill_ws args) scenario_builder_new)))))))))"

text \<open>The entries that a payload kills.\<close>

fun killed_entries :: "dynamic_value list \<Rightarrow> nat set" where
  "killed_entries [U128_Value start, U128_Value n] = {unat start..<unat start + unat n}"
| "killed_entries _ = {}"

lemma batch_size_nat [simp]: "unat batch_size = 5" "unat (ucast batch_size :: u128) = 5"
  by (simp_all add: batch_size_def)

lemma kill_payload_in_range:
  assumes "ctx_account ctx = show_u32 x" and "5 * unat x < 2 ^ 32"
  shows "\<exists>payload. kill_payload_builder prof ctx = Inr payload \<and> pallet_name payload = ''TestPallet'' \<and>
    killed_entries (call_fields payload) = {5 * unat x..<5 * unat x + 5}"
proof -
  have mul: "u_mul prof batch_size x = Inr (batch_size * x)" using assms(2) by (intro u_mul_in_range) simp
  have "unat (batch_size * x) = unat batch_size * unat x"
    using assms(2) by (intro unat_mult_lem [THEN iffD1]) simp
  then have "unat (ucast (batch_size * x) :: u128) = 5 * unat x"
    using assms(2) by (simp add: unsigned_ucast_eq take_bit_nat_eq_self)
  then show ?thesis using mul assms(1) by (simp add: kill_payload_builder_def unwrap_def)
qed

lemma kill_payload_overflow:
  assumes "ctx_account ctx = show_u32 x" and "2 ^ 32 \<le> 5 * unat x"
  shows "kill_payload_builder Debug ctx = Inl Arithmetic_Overflow"
    and "\<exists>payload. kill_payload_builder Release ctx = Inr payload \<and>
      call_fields payload = [U128_Value (ucast (5 * x)), U128_Value 5]"
  using assms by (simp_all add: kill_payload_builder_def unwrap_def u_mul_def on_overflow_def batch_size_def)

text \<open>
  The accounts of a range kill disjoint batches, which together are the entries from the first account's
  to the last one's, as long as the batches of all ids fit 32 bits.
\<close>

lemma kill_batches_cover:
  "(\<Union>x \<in> {start..final}. {5 * x..<5 * x + 5}) = {5 * start..<5 * Suc final}" if "start \<le> (final :: nat)"
proof (intro equalityI subsetI)
  fix e assume "e \<in> {5 * start..<5 * Suc final}"
  then have "e div 5 \<in> {start..final}" "e \<in> {5 * (e div 5)..<5 * (e div 5) + 5}" by auto
  then show "e \<in> (\<Union>x \<in> {start..final}. {5 * x..<5 * x + 5})" by blast
qed auto

lemma kill_batches_disjoint: "x \<noteq> y \<Longrightarrow> {5 * x..<5 * x + 5} \<inter> {5 * y..<5 * y + 5} = ({} :: nat set)"
  by auto

lemma kill_build_params:
  assumes "build_params prof (kill_scenario_builder prof args :: ('a, 'b) scenario_builder) = Inr ps"
  shows "map param_account ps = map show_nat [unat (kill_start_id args)..<Suc (unat (kill_last_id args))] \<and>
    (\<forall>p \<in> set ps. param_nonce p = None \<and> param_mortality p = None)"
proof -
  have one: "push_build_params prof account None (unat (1 :: u32)) None =
      Inr [\<lparr>param_account = account, param_nonce = None, param_mortality = None\<rparr>]" for account
    by (simp add: numeral_eq_Suc)
  have id: "show_u32 (of_nat i) = show_nat i" if "i < Suc (unat (kill_last_id args))" for i
    using that unat_bound [of "kill_last_id args"] by (simp add: show_u32_def unat_of_nat take_bit_nat_eq_self)
  have entries: "res_mapM (\<lambda>account. push_build_params prof (show_u32 (of_nat account)) None (unat (1 :: u32)) None) is =
      Inr (map (\<lambda>i. [\<lparr>param_account = show_u32 (of_nat i), param_nonce = None, param_mortality = None\<rparr>]) is)" for "is"
    by (rule res_mapM_total) (rule one)
  have "ps = concat (map (\<lambda>i. [\<lparr>param_account = show_u32 (of_nat i), param_nonce = None, param_mortality = None\<rparr>])
      [unat (kill_start_id args)..<Suc (unat (kill_last_id args))])"
    using assms entries
    by (simp add: build_params_def kill_scenario_builder_def setter_defs scenario_builder_new_def del: upt_Suc unat_1)
  then show ?thesis using id by (simp add: map_concat comp_def del: upt_Suc)
qed

end
