(* ===== verification/Spec2Isabelle.thy ===== *)
theory Spec2Isabelle
  imports Scripted_Progress Node_Run Runner_Progress Monitor_Client Monitored_Task Fetched_Nonces Stop_Hook Logger Conformance Kill_Dev_Entry
begin

text \<open>
  This development models the transaction test tool of \<open>src/\<close> (the Rust crate \<open>substrate-txtesttool\<close> and its
  program \<open>txtt\<close>): a tool that builds many transactions for a Substrate or Ethereum compatible node, sends
  them with a bounded number in flight, records what happens to each of them, and reports statistics.

  The parts of the program, in the order of the flow of data.

  The command line (\<open>bin/main.rs\<close>, \<open>src/cli.rs\<close>) fills a \<open>ScenarioBuilder\<close> (\<open>src/scenario.rs\<close>). Its \<open>build\<close>
  connects a sink to the node (\<open>src/helpers.rs\<close>, \<open>src/subxt_api_connector.rs\<close>), derives the accounts, lets
  several tasks build the transactions on the sink (\<open>src/subxt_transaction.rs\<close>, \<open>src/transaction.rs\<close>), sorts
  them by nonce and hands them to a \<open>Runner\<close> (\<open>src/runner.rs\<close>). The runner starts one task per transaction, as
  many as a threshold allows, and throttles further ones by what the sink reports as pending and by what
  its counters say is still buffered. A task submits its transaction, follows its status, or asks the
  block monitor (\<open>src/block_monitor.rs\<close>), and pushes every event to the log of the transaction
  (\<open>src/execution_log.rs\<close>). At the end the logs are saved, statistics are computed, and a saved file can be
  loaded again and converted to CSV. The fake transaction, sink and builder (\<open>src/fake_transaction.rs\<close>,
  \<open>src/fake_transaction_sink.rs\<close>, \<open>src/transaction.rs\<close>) replace the node in the tests.

  The theories.

  \<^item> \<open>Txtt_Prelude\<close>: panics as values (\<open>'a res\<close>), checked and wrapping machine arithmetic of the two build
    profiles, decimal printing and parsing, hash maps collected from iterators, wall-clock time stamps, and
    the partition of an index range into the chunks of worker threads.
  \<^item> \<open>Transaction\<close>: errors, transactions, statuses (\<open>src/error.rs\<close>, the data of \<open>src/transaction.rs\<close>).
  \<^item> \<open>Execution_Log\<close>, \<open>Log_Stats\<close>, \<open>Journal\<close>: events, counters, logs and their getters; the statistics; the
    log files, CSV, and the end of \<open>run\<close>.
  \<^item> \<open>Fake_Transaction\<close>, \<open>Fake_Sink\<close>: the scripts of fake transactions and the sink that holds them. The
    locale \<open>transactions_sink\<close> is the trait \<open>TransactionsSink\<close> as a client that bounds its submissions uses it.
  \<^item> \<open>Tx_Task\<close>: \<open>DefaultTxTask\<close>, as sequential functions and cut at the await points.
  \<^item> \<open>Runner\<close>, \<open>Runner_Logs\<close>, \<open>Runner_Progress\<close>, \<open>Fake_Run\<close>: the runner as a step relation over all
    interleavings; what its logs record; progress and termination; the runner on the fake sink.
  \<^item> \<open>Scripted_Run\<close>, \<open>Scripted_End\<close>, \<open>Scripted_Progress\<close>: the same runner with every reply and every panic taken from the scripts of
    the fake transactions; the results that the scripts determine, and what a finished run leaves.
  \<^item> \<open>Node_Run\<close>: the runner with the sink of subxt: the throttle over the cached count, and calls of the sink
    that panic and thereby lose the logs of the run.
  \<^item> \<open>Block_Monitor\<close>, \<open>Monitor_Client\<close>: the event loop with its callbacks and expiries, refining a specification
    by the history of blocks and requests; the start and end of its task, the registration of clients, and
    what a waiting client can rely on.
  \<^item> \<open>Accounts\<close>, \<open>Payload\<close>: key generators and \<open>derive_accounts\<close>; payload builders and their source.
  \<^item> \<open>Scenario\<close>, \<open>Scenario_Order\<close>: \<open>ScenarioBuilder\<close>, \<open>build_transactions\<close> and \<open>build\<close>; the order in which
    transactions are sent.
  \<^item> \<open>Nonces\<close>: the critical section that hands out nonces, with the contract \<open>nonce_source\<close>.
  \<^item> \<open>Connector\<close>, \<open>Subxt_Sink\<close>, \<open>Subxt_Build\<close>, \<open>Subxt_Chain\<close>: the connection loop; the sink of subxt with its
    accounts, concurrent nonce requests and cached pending count; \<open>build_subxt_tx\<close>; and the two chains as
    \<open>build\<close> uses them. Both keep the contract \<open>chain_service\<close> of \<open>Chain_Service\<close>, over which the composition of
    \<open>build\<close> for a range of accounts is proved once.
  \<^item> \<open>Fake_Builder\<close>: \<open>FakeTransactionBuilder\<close> under any order of the calls of the building tasks.
  \<^item> \<open>Command_Line\<close>: the commands and what \<open>main\<close> does for each. \<open>Fetched_Nonces\<close>: a command whose nonces come
    from the node, through all parts down to the concurrent requests for nonces.
  \<^item> \<open>Monitored_Task\<close>: a task composed with the block monitor it waits for, through the contract
    \<open>transaction_monitor\<close> of the trait between them.
  \<^item> \<open>Whole_Run\<close>: \<open>build\<close>, the event loop of \<open>run\<close> and the log file composed; the settings that only name the
    log file have no influence on a run.
  \<^item> \<open>Stop_Hook\<close>: the stop channel of a runner and the ctrl-c handler; its runs are runs of \<open>Runner\<close> in which
    the stop arm is enabled only when the channel yields.
  \<^item> \<open>Logger\<close>: \<open>init_logger\<close> of \<open>src/lib.rs\<close>, its two layers, and their environment filters, of which only
    one hears of spans.
  \<^item> \<open>Conformance\<close>: the unit tests of the repository that need no node, replayed on the model.
  \<^item> \<open>Kill_Dev_Entry\<close>: the example program \<open>examples/kill_dev_entry.rs\<close>.
\<close>

text \<open>
  How state and effects correspond.

  \<^item> A struct is a record with the fields of the source, an enum a datatype with its variants, an integer a
    word of its width; \<open>usize\<close> has 64 bits. Whether overflow panics or wraps is the argument \<open>profile\<close>.
  \<^item> A function that can panic returns \<open>Inl\<close> of the panic. A Rust \<open>Result\<close> inside is a sum of its own.
  \<^item> A method on \<open>&mut self\<close>, or on a cell behind a lock, takes and returns the state. An asynchronous function
    whose await points matter is cut there, and a step relation (\<open>runs\<close>, \<open>fake_runs\<close>, \<open>scripted_runs\<close>, \<open>node_runs\<close>, \<open>nonce_steps\<close>) lets
    the pieces interleave. Answers of the node, clock readings, pending counts and the order of events are
    part of the steps, so that the theorems hold for all of them.
  \<^item> What is not under \<open>src/\<close> is a parameter: subxt (connections, storage queries, partial transactions,
    signatures, blocks), \<open>subxt_signer\<close> (keys), \<open>serde_json\<close> (\<open>json_codec\<close>, \<open>json_lib\<close>), \<open>hex\<close>, the estimators
    of \<open>average\<close>, which may depend on the order of the samples, and the environment filters of
    \<open>tracing_subscriber\<close>, which have a state. The facts used of them are hypotheses of the theorems: a codec
    inverts its own output, \<open>hex\<close> is injective, a generator derives every id, an entered span only enables
    more events, a public key has another length than an account of an Ethereum chain. Witnesses instantiate them with concrete functions.

  What the lemmas show.

  \<^item> Safety of the runner: no transaction is lost or sent twice, the logs record exactly what the tasks did,
    the throttle starts exactly the allowed number of tasks, and the fake sink is never filled above the
    threshold (\<open>Runner\<close>, \<open>Runner_Logs\<close>, \<open>Fake_Run\<close>). On fake transactions the result of every task is the one
    that its script determines, and a run whose scripts all end can always be finished and then has sent
    everything (\<open>Scripted_Run\<close>, \<open>Scripted_Progress\<close>).
  \<^item> Liveness and termination: a run takes at most \<open>4 n + 1\<close> counted steps and its end can be reached from
    every state (\<open>Runner_Progress\<close>).
  \<^item> Tasks: which statuses decide, and that the log of an execution tells its verdict (\<open>Tx_Task\<close>).
  \<^item> Equivalences: the building of transactions with any number of threads (\<open>Scenario_Order\<close>). That the task cut
    at its await points and the sequential one agree (\<open>Tx_Task\<close>) is a lemma on the model, used by the others.
  \<^item> Refinement: the block monitor and the outcome that the history of blocks and requests determines.
  \<^item> Nonces: consecutive for every account under all interleavings (\<open>Subxt_Sink\<close>, \<open>Fetched_Nonces\<close>).
  \<^item> Compositions: an unwatched transaction is done exactly if it is finalized within its lifetime
    (\<open>Monitored_Task\<close>); a scenario from its building to its log file (\<open>Whole_Run\<close>); ctrl-c and nothing else stops
    it (\<open>Stop_Hook\<close>).
  \<^item> The commands: what \<open>tx from-many-accounts\<close> sends and with which tip and payload, which account
    \<open>check-nonce\<close> asks for, whom \<open>generate-endowed-accounts\<close> endows, and that \<open>load-log\<close> shows the statistics of
    the run, means and quantiles up to the order in which the loaded logs come (\<open>Command_Line\<close>).
  \<^item> Errors: which calls panic and when, for getters on logs, look-ups of accounts, mortal transactions, the
    connection loop and the pending count; and what a panic of the sink does to a run (\<open>Node_Run\<close>).
\<close>

text \<open>
  Bounds. Loops of the source are structural recursions over the list or the number they count, so nothing
  here is bounded by fuel: the connection loop and the building of a mortal transaction recurse over the
  ten attempts of the source, the first loop of \<open>run\<close> over the threshold. The theorems on thread chunks
  assume fewer than \<open>2 ^ 32\<close> transactions, because the code multiplies a thread index by the count in 64 bits;
  those on explicit nonces assume that the last nonce plus one fits 128 bits, because the code computes it.

  Where the code surprises. \<open>Runner\<close> has \<open>double_result_panics\<close> and \<open>double_result_stalls\<close> (a task that records
  two submission results) and \<open>ends_with_unsent\<close> (a run that ends with transactions unsent); \<open>Block_Monitor\<close>
  has \<open>stale_expiry\<close>; \<open>Monitored_Task\<close> has \<open>late_registration_waits\<close>; \<open>Stop_Hook\<close> has \<open>dropped_sender_stops\<close> and
  \<open>Scripted_End\<close> has \<open>resubmit_all_errors\<close> and \<open>oh_god_shared_logs\<close> (tests); \<open>Monitor_Client\<close> has
  \<open>dropped_waiter_ends_task\<close>; \<open>Kill_Dev_Entry\<close> has \<open>kill_payload_overflow\<close>; \<open>Subxt_Build\<close> has
  \<open>superfluous_zero_panics\<close> (the account id 05) and \<open>nonce_truncated\<close>. On an Ethereum chain
  \<open>generate-endowed-accounts\<close> lists public keys, not the accounts that send (\<open>Command_Line\<close>); with a directive on
  a span in \<open>RUST_LOG\<close> the lines of the statistics can be written twice (\<open>Logger\<close>). In \<open>Node_Run\<close> one failed request for the
  count of pending extrinsics costs a run its logs. In \<open>Connector\<close> the case
  of a web socket that cannot be opened is part of the property: it is not retried.

  Not modelled: what tracing prints of an event; the parsing of arguments by \<open>clap\<close>; the text graphs of the
  statistics; the tests that need a node (of the tests that drive a runner to its end, \<open>Scripted_End\<close> has the
  transactions and results for every schedule, not the scheduler of tokio). Delays of fake
  transactions are data; no timer is modelled.
\<close>

end
